(* ===== verification/Astrs_Prelude.thy ===== *)
theory Astrs_Prelude
  imports Main "HOL-Library.Word" "HOL-Library.AList"
begin

text \<open>
  Shared vocabulary of the development: unsigned 64-bit arithmetic on \<^typ>\<open>nat\<close>, the
  combinators for Rust methods of the shape \<^verbatim>\<open>fn f(&mut self) -> Result<T, E>\<close>, and the
  generic lemmas the component theories rest on.

  A \<^verbatim>\<open>u64\<close> that the code only compares, increments and saturates is a \<^typ>\<open>nat\<close>; the
  saturating operations are written out. A \<^verbatim>\<open>u64\<close> whose bits matter is a \<open>64 word\<close>.

  A fallible method returns its result together with the receiver: in Rust an \<^verbatim>\<open>Err\<close> leaves
  whatever the method had already written to \<^verbatim>\<open>self\<close>, and so does the model.
\<close>

section \<open>Unsigned 64-bit arithmetic\<close>

type_synonym u8 = "8 word"
type_synonym u16 = "16 word"
type_synonym u32 = "32 word"
type_synonym u64 = "64 word"

definition u64_max :: nat where
  "u64_max = 2 ^ 64 - 1"

definition sat_add :: "nat \<Rightarrow> nat \<Rightarrow> nat" where
  "sat_add a b = max a (min (a + b) u64_max)"

definition sat_sub :: "nat \<Rightarrow> nat \<Rightarrow> nat" where
  "sat_sub a b = a - b"

definition wrap_add :: "nat \<Rightarrow> nat \<Rightarrow> nat" where
  "wrap_add a b = (a + b) mod 2 ^ 64"

section \<open>Methods that mutate the receiver and may fail\<close>

type_synonym ('e, 'a, 's) outcome = "('e + 'a) \<times> 's"

definition ok :: "'a \<Rightarrow> 's \<Rightarrow> ('e, 'a, 's) outcome" where
  "ok a s = (Inr a, s)"

definition err :: "'e \<Rightarrow> 's \<Rightarrow> ('e, 'a, 's) outcome" where
  "err e s = (Inl e, s)"

text \<open>The \<^verbatim>\<open>?\<close> operator: go on with the value, or return the error and the state so far.\<close>

definition try_then :: "('e, 'a, 's) outcome \<Rightarrow> ('a \<Rightarrow> 's \<Rightarrow> ('e, 'b, 's) outcome) \<Rightarrow> ('e, 'b, 's) outcome" where
  "try_then r k = (case r of (Inl e, s) \<Rightarrow> (Inl e, s) | (Inr a, s) \<Rightarrow> k a s)"

text \<open>A \<^verbatim>\<open>for\<close> loop whose body uses \<^verbatim>\<open>?\<close>.\<close>

primrec for_each :: "('a \<Rightarrow> 's \<Rightarrow> ('e, unit, 's) outcome) \<Rightarrow> 'a list \<Rightarrow> 's \<Rightarrow> ('e, unit, 's) outcome" where
  "for_each f [] s = ok () s"
| "for_each f (x # xs) s = try_then (f x s) (\<lambda>_. for_each f xs)"

text \<open>A call on a component of the receiver that leaves it alone when it fails.\<close>

definition lift_part :: "('e + 'p) \<Rightarrow> ('p \<Rightarrow> 's \<Rightarrow> 's) \<Rightarrow> 's \<Rightarrow> ('e, unit, 's) outcome" where
  "lift_part r upd s = (case r of Inl e \<Rightarrow> err e s | Inr p \<Rightarrow> ok () (upd p s))"

section \<open>Facts on the arithmetic\<close>

lemma u64_max_eq [code]: "u64_max = 18446744073709551615"
  by (simp add: u64_max_def)

lemma u64_max_pos [simp]: "0 < u64_max"
  by (simp add: u64_max_eq)

lemma sat_add_in_range: "a \<le> u64_max \<Longrightarrow> sat_add a b = min (a + b) u64_max"
  by (simp add: sat_add_def)

lemma sat_add_le_u64 [simp]: "a \<le> u64_max \<Longrightarrow> sat_add a b \<le> u64_max"
  by (simp add: sat_add_def)

lemma sat_add_ge [simp]: "a \<le> sat_add a b"
  by (simp add: sat_add_def)

lemma sat_add_le_plus: "sat_add a b \<le> a + b"
  by (simp add: sat_add_def)

lemma sat_add_exact: "a + b \<le> u64_max \<Longrightarrow> sat_add a b = a + b"
  by (simp add: sat_add_def)

lemma sat_add_0 [simp]: "sat_add a 0 = a"
  by (simp add: sat_add_def)

lemma sat_add_assoc: "sat_add (sat_add a b) c = sat_add a (b + c)"
  by (auto simp: sat_add_def)

lemma sat_add_1: "sat_add a (Suc 0) = (if a < u64_max then Suc a else a)"
  by (auto simp: sat_add_def)

lemma sat_add_1_less: "a < u64_max \<Longrightarrow> a < sat_add a (Suc 0)"
  by (simp add: sat_add_1)

section \<open>Facts on the combinators\<close>

lemma snd_ok [simp]: "snd (ok a s) = s"
  by (simp add: ok_def)

lemma fst_ok [simp]: "fst (ok a s) = Inr a"
  by (simp add: ok_def)

lemma snd_err [simp]: "snd (err e s) = s"
  by (simp add: err_def)

lemma fst_err [simp]: "fst (err e s) = Inl e"
  by (simp add: err_def)

lemma try_then_ok [simp]: "try_then (ok a s) k = k a s"
  by (simp add: try_then_def ok_def)

lemma try_then_err [simp]: "try_then (err e s) k = err e s"
  by (simp add: try_then_def err_def)

lemma try_then_cases:
  obtains e where "fst r = Inl e" and "try_then r k = err e (snd r)"
  | a where "fst r = Inr a" and "try_then r k = k a (snd r)"
proof (cases r)
  case (Pair v s)
  then show thesis
    using that by (cases v) (auto simp: try_then_def err_def)
qed

lemma snd_try_then_ok [simp]: "snd (try_then r (\<lambda>a. ok (f a))) = snd r"
  by (simp add: try_then_def ok_def split: prod.split sum.split)

lemma snd_lift_part: "snd (lift_part r upd s) = (case r of Inl e \<Rightarrow> s | Inr p \<Rightarrow> upd p s)"
  by (simp add: lift_part_def split: sum.split)

section \<open>Preorders on states\<close>

text \<open>
  Most facts about a method have the shape ``the state after is related to the state
  before'' for a reflexive and transitive relation. The locale carries such a relation
  through the combinators once, for values that never fail and for those that do.
\<close>

locale state_preorder =
  fixes R :: "'s \<Rightarrow> 's \<Rightarrow> bool"
  assumes rel_refl: "R s s"
    and rel_trans: "R s t \<Longrightarrow> R t u \<Longrightarrow> R s u"
begin

lemma rel_ok: "R s t \<Longrightarrow> R s (snd (ok a t))"
  by simp

lemma rel_err: "R s t \<Longrightarrow> R s (snd (err e t))"
  by simp

lemma rel_try_then:
  assumes "R s (snd r)" and "\<And>a t. R s t \<Longrightarrow> R s (snd (k a t))"
  shows "R s (snd (try_then r k))"
  by (rule try_then_cases [of r k]) (use assms in auto)

lemma rel_for_each:
  assumes "\<And>x t. x \<in> set xs \<Longrightarrow> R s t \<Longrightarrow> R s (snd (f x t))" and "R s t"
  shows "R s (snd (for_each f xs t))"
  using assms
proof (induction xs arbitrary: t)
  case Nil
  then show ?case by simp
next
  case (Cons x xs)
  have "R s (snd (f x t))" using Cons.prems by simp
  moreover have "\<And>t. R s t \<Longrightarrow> R s (snd (for_each f xs t))"
    using Cons by simp
  ultimately show ?case by (simp add: rel_try_then)
qed

end

section \<open>Sorted lists as sets\<close>

text \<open>A \<^verbatim>\<open>BTreeSet\<close> is its ascending list of elements.\<close>

definition btree_set :: "'a::linorder list \<Rightarrow> bool" where
  "btree_set xs \<longleftrightarrow> sorted xs \<and> distinct xs"

lemma btree_set_of_list [simp]: "btree_set (sort (remdups xs))"
  by (simp add: btree_set_def)

lemma btree_set_insort [simp]: "btree_set xs \<Longrightarrow> btree_set (insort_insert x xs)"
  by (simp add: btree_set_def sorted_insort_insert distinct_insort_insert)

lemma btree_set_remove1 [simp]: "btree_set xs \<Longrightarrow> btree_set (remove1 x xs)"
  by (simp add: btree_set_def sorted_remove1)

lemma btree_set_card: "btree_set xs \<Longrightarrow> card (set xs) = length xs"
  by (simp add: btree_set_def distinct_card)

section \<open>Association lists\<close>

lemma set_alist_update: "set (AList.update k v xs) \<subseteq> insert (k, v) (set xs)"
  by (induction xs) auto

lemma distinct_map_fst_filter: "distinct (map fst xs) \<Longrightarrow> distinct (map fst (filter P xs))"
  by (induction xs) auto

lemma length_filter_snd:
  assumes "distinct (map fst xs)"
  shows "length (filter snd xs) = card {p. (p, True) \<in> set xs}"
proof -
  have "length (filter snd xs) = card (set (map fst (filter snd xs)))"
    using distinct_card [OF distinct_map_fst_filter [OF assms, of snd]] by simp
  also have "set (map fst (filter snd xs)) = {p. (p, True) \<in> set xs}"
    by force
  finally show ?thesis .
qed

end
