(* ===== verification/Raft_Types.thy ===== *)
theory Raft_Types
  imports Astrs_Prelude
begin

text \<open>
  The scalars of \<^verbatim>\<open>crates/astrs-raft/src/types.rs\<close> (terms, log indices, peer ids, roles and
  the seeded generator of the election timeouts) and the errors of \<^verbatim>\<open>error.rs\<close>. Terms and
  indices are \<^verbatim>\<open>u64\<close> newtypes with saturating successors; they are naturals here, with the
  saturation written out. The generator works on bits, so its state is a \<^typ>\<open>u64\<close>.
\<close>

unbundle bit_operations_syntax

section \<open>Terms, indices and peers\<close>

type_synonym raft_term = nat
type_synonym log_index = nat
type_synonym peer_id = nat

definition term_initial :: raft_term where
  "term_initial = 0"

definition term_next :: "raft_term \<Rightarrow> raft_term" where
  "term_next t = sat_add t 1"

definition is_stale_against :: "raft_term \<Rightarrow> raft_term \<Rightarrow> bool" where
  "is_stale_against t observed \<longleftrightarrow> t < observed"

definition rejects :: "raft_term \<Rightarrow> raft_term \<Rightarrow> bool" where
  "rejects t incoming \<longleftrightarrow> incoming < t"

definition index_zero :: log_index where
  "index_zero = 0"

definition index_first :: log_index where
  "index_first = 1"

definition is_empty_sentinel :: "log_index \<Rightarrow> bool" where
  "is_empty_sentinel i \<longleftrightarrow> i = 0"

definition index_next :: "log_index \<Rightarrow> log_index" where
  "index_next i = sat_add i 1"

definition index_previous :: "log_index \<Rightarrow> log_index" where
  "index_previous i = sat_sub i 1"

definition index_saturating_add :: "log_index \<Rightarrow> nat \<Rightarrow> log_index" where
  "index_saturating_add i delta = sat_add i delta"

definition distance_to :: "log_index \<Rightarrow> log_index \<Rightarrow> nat" where
  "distance_to i other = sat_sub other i"

section \<open>Roles\<close>

datatype role = Follower | PreCandidate | Candidate | Leader

definition is_leader :: "role \<Rightarrow> bool" where
  "is_leader r \<longleftrightarrow> r = Leader"

definition is_follower :: "role \<Rightarrow> bool" where
  "is_follower r \<longleftrightarrow> r = Follower"

definition is_campaigning :: "role \<Rightarrow> bool" where
  "is_campaigning r \<longleftrightarrow> r = PreCandidate \<or> r = Candidate"

section \<open>The seeded generator\<close>

type_synonym rng = u64

definition rng_new :: "u64 \<Rightarrow> rng" where
  "rng_new seed = (if seed = 0 then 0x9E3779B97F4A7C15 else seed)"

definition next_u64 :: "rng \<Rightarrow> u64 \<times> rng" where
  "next_u64 s =
     (let x = s XOR drop_bit 12 s;
          x = x XOR push_bit 25 x;
          x = x XOR drop_bit 27 x
      in (x * 0x2545F4914F6CDD1D, x))"

definition in_range :: "rng \<Rightarrow> nat \<Rightarrow> nat \<Rightarrow> nat \<times> rng" where
  "in_range s low high =
     (if high \<le> low then (low, s)
      else let (v, s') = next_u64 s in (low + unat v mod (high - low), s'))"

section \<open>Errors\<close>

datatype raft_error =
    NotLeader "peer_id option"
  | LeaseExpired
  | ConfigChangeInFlight log_index
  | InvalidMembership string
  | Compacted log_index log_index
  | Unavailable log_index log_index
  | InvalidConfig string
  | Io string string string
  | Corrupt nat string
  | Codec string
  | ApplyError log_index string
  | SnapshotError string string
  | Transport peer_id string
  | UnknownPeer peer_id
  | UnsupportedVersion nat nat
  | ProposalLost log_index raft_term
  | ShuttingDown

fun is_redirectable :: "raft_error \<Rightarrow> bool" where
  "is_redirectable (NotLeader _) = True"
| "is_redirectable LeaseExpired = True"
| "is_redirectable _ = False"

fun leader_hint :: "raft_error \<Rightarrow> peer_id option" where
  "leader_hint (NotLeader l) = l"
| "leader_hint _ = None"

fun is_corruption :: "raft_error \<Rightarrow> bool" where
  "is_corruption (Corrupt _ _) = True"
| "is_corruption (UnsupportedVersion _ _) = True"
| "is_corruption (Codec _) = True"
| "is_corruption _ = False"

section \<open>Facts on terms and indices\<close>

lemmas scalar_defs =
  term_initial_def is_stale_against_def rejects_def index_zero_def index_first_def
  is_empty_sentinel_def index_previous_def index_saturating_add_def distance_to_def sat_sub_def

lemma term_next_ge [simp]: "t \<le> term_next t"
  by (simp add: term_next_def)

lemma term_next_less: "t < u64_max \<Longrightarrow> t < term_next t"
  by (simp add: term_next_def sat_add_1_less)

lemma term_next_le_Suc: "term_next t \<le> Suc t"
  by (simp add: term_next_def sat_add_1)

lemma index_next_ge [simp]: "i \<le> index_next i"
  by (simp add: index_next_def)

lemma index_next_exact: "i < u64_max \<Longrightarrow> index_next i = Suc i"
  by (simp add: index_next_def sat_add_1)

lemma index_next_le_Suc: "index_next i \<le> Suc i"
  by (simp add: index_next_def sat_add_1)

lemma index_next_le_u64 [simp]: "i \<le> u64_max \<Longrightarrow> index_next i \<le> u64_max"
  by (simp add: index_next_def)

lemma index_previous_next: "i < u64_max \<Longrightarrow> index_previous (index_next i) = i"
  by (simp add: index_next_exact index_previous_def sat_sub_def)

section \<open>Facts on the generator\<close>

lemma word_xor_eq_0D:
  fixes x y :: "'a::len word"
  assumes "x XOR y = 0"
  shows "x = y"
proof (rule bit_word_eqI)
  fix k
  show "bit x k = bit y k"
    using arg_cong [OF assms, of "\<lambda>w. bit w k"] by (simp add: bit_xor_iff)
qed

lemma xor_drop_bit_eq_0:
  fixes x :: "'a::len word"
  assumes "0 < n" and "x XOR drop_bit n x = 0"
  shows "x = 0"
proof (rule bit_word_eqI)
  fix k
  assume "k < LENGTH('a)"
  have shift: "bit x i = bit x (n + i)" for i
    by (subst word_xor_eq_0D [OF assms(2)]) (simp add: bit_drop_bit_eq)
  show "bit x k = bit 0 k"
  proof (cases "bit x k")
    case True
    have "bit x (m * n + k)" for m
    proof (induction m)
      case (Suc m)
      with shift [of "m * n + k"] show ?case by (simp add: add.assoc)
    qed (use True in simp)
    from this [of "LENGTH('a)"] have "LENGTH('a) * n + k < LENGTH('a)"
      by (rule bit_imp_le_length)
    moreover have "LENGTH('a) * 1 \<le> LENGTH('a) * n"
      using assms(1) by (intro mult_le_mono2) simp
    ultimately show ?thesis by simp
  qed simp
qed

lemma xor_push_bit_eq_0:
  fixes x :: "'a::len word"
  assumes "0 < n" and "x XOR push_bit n x = 0"
  shows "x = 0"
proof -
  have eq: "x = push_bit n x"
    by (rule word_xor_eq_0D [OF assms(2)])
  have "\<not> bit x k" for k
  proof (induction k rule: less_induct)
    case (less k)
    show ?case
    proof
      assume "bit x k"
      then have "bit (push_bit n x) k" by (subst (asm) eq)
      then have "n \<le> k" and "bit x (k - n)"
        by (simp_all add: bit_push_bit_iff)
      with less [of "k - n"] assms(1) show False by simp
    qed
  qed
  then show ?thesis by (intro bit_word_eqI) simp
qed

lemma next_u64_state_nonzero:
  assumes "s \<noteq> 0"
  shows "snd (next_u64 s) \<noteq> 0"
  using assms xor_drop_bit_eq_0 [of 12 s]
    xor_push_bit_eq_0 [of 25 "s XOR drop_bit 12 s"]
    xor_drop_bit_eq_0 [of 27 "(s XOR drop_bit 12 s) XOR push_bit 25 (s XOR drop_bit 12 s)"]
  by (auto simp: next_u64_def Let_def)

lemma rng_new_nonzero: "rng_new seed \<noteq> 0"
  by (simp add: rng_new_def)

lemma in_range_state_nonzero: "s \<noteq> 0 \<Longrightarrow> snd (in_range s low high) \<noteq> 0"
  using next_u64_state_nonzero [of s] by (auto simp: in_range_def split: prod.split)

lemma in_range_bounds:
  assumes "low < high"
  shows "low \<le> fst (in_range s low high) \<and> fst (in_range s low high) < high"
proof -
  obtain v s' where v: "next_u64 s = (v, s')" by (cases "next_u64 s")
  have "unat v mod (high - low) < high - low" using assms by simp
  then have "low + unat v mod (high - low) < high" using assms by linarith
  with v assms show ?thesis by (simp add: in_range_def)
qed

end
