(* ===== verification/Raft_Membership.thy ===== *)
theory Raft_Membership
  imports Raft_Types
begin

text \<open>
  The voter configuration of \<^verbatim>\<open>crates/astrs-raft/src/membership.rs\<close>: quorum arithmetic and
  single-server changes. The \<^verbatim>\<open>BTreeSet<PeerId>\<close> is its ascending list of members, because
  the code iterates it in that order. \<^verbatim>\<open>Membership::from_entries\<close> needs log entries and is in
  \<^verbatim>\<open>Raft_Log\<close>.
\<close>

section \<open>Definitions\<close>

datatype membership = Membership (voters: "peer_id list")

definition membership_new :: "peer_id list \<Rightarrow> membership" where
  "membership_new ps = Membership (sort (remdups ps))"

definition membership_len :: "membership \<Rightarrow> nat" where
  "membership_len m = length (voters m)"

definition membership_is_empty :: "membership \<Rightarrow> bool" where
  "membership_is_empty m \<longleftrightarrow> voters m = []"

definition membership_contains :: "membership \<Rightarrow> peer_id \<Rightarrow> bool" where
  "membership_contains m p \<longleftrightarrow> p \<in> set (voters m)"

definition quorum :: "membership \<Rightarrow> nat" where
  "quorum m = length (voters m) div 2 + 1"

definition is_quorum :: "membership \<Rightarrow> nat \<Rightarrow> bool" where
  "is_quorum m votes \<longleftrightarrow> voters m \<noteq> [] \<and> votes \<ge> quorum m"

datatype membership_change = Add peer_id | Remove peer_id

fun change_peer :: "membership_change \<Rightarrow> peer_id" where
  "change_peer (Add p) = p"
| "change_peer (Remove p) = p"

fun change_is_add :: "membership_change \<Rightarrow> bool" where
  "change_is_add (Add _) = True"
| "change_is_add (Remove _) = False"

fun membership_apply :: "membership \<Rightarrow> membership_change \<Rightarrow> raft_error + membership" where
  "membership_apply m (Add p) =
     (if p \<in> set (voters m) then Inl (InvalidMembership ''that peer is already a voter'')
      else Inr (Membership (insort_insert p (voters m))))"
| "membership_apply m (Remove p) =
     (if p \<notin> set (voters m) then Inl (InvalidMembership ''that peer is not a voter'')
      else let next_voters = remove1 p (voters m)
           in if next_voters = []
              then Inl (InvalidMembership ''removing the last voter would leave no cluster'')
              else Inr (Membership next_voters))"

text \<open>The type invariant of the \<^verbatim>\<open>BTreeSet\<close>.\<close>

definition membership_wf :: "membership \<Rightarrow> bool" where
  "membership_wf m \<longleftrightarrow> btree_set (voters m)"

text \<open>A set of voters large enough to decide.\<close>

definition decides :: "membership \<Rightarrow> peer_id set \<Rightarrow> bool" where
  "decides m A \<longleftrightarrow> A \<subseteq> set (voters m) \<and> is_quorum m (card A)"

section \<open>Well-formedness\<close>

lemma membership_new_wf: "membership_wf (membership_new ps)"
  by (simp add: membership_wf_def membership_new_def)

lemma set_voters_new [simp]: "set (voters (membership_new ps)) = set ps"
  by (simp add: membership_new_def)

lemma membership_apply_wf:
  "membership_wf m \<Longrightarrow> membership_apply m c = Inr m' \<Longrightarrow> membership_wf m'"
  by (cases c) (auto simp: membership_wf_def Let_def split: if_splits)

lemma membership_apply_set:
  assumes "membership_wf m" and "membership_apply m c = Inr m'"
  shows "set (voters m') = (if change_is_add c then insert (change_peer c) (set (voters m))
                           else set (voters m) - {change_peer c})"
  using assms
  by (cases c) (auto simp: membership_wf_def btree_set_def set_insort_insert Let_def split: if_splits)

lemma membership_apply_nonempty:
  "membership_apply m c = Inr m' \<Longrightarrow> voters m' \<noteq> []"
  by (cases c) (auto simp: insort_insert_key_def Let_def split: if_splits)

section \<open>Quorums intersect\<close>

text \<open>
  What an election needs of a quorum system: two deciding sets always share a peer, so two
  candidates that each hold a deciding set of votes, cast one per peer, are the same.
\<close>

locale quorum_system =
  fixes Q :: "'p set \<Rightarrow> bool"
  assumes intersect: "Q A \<Longrightarrow> Q B \<Longrightarrow> A \<inter> B \<noteq> {}"
begin

lemma quorum_nonempty: "Q A \<Longrightarrow> A \<noteq> {}"
  using intersect [of A A] by simp

lemma one_winner:
  assumes "Q A" and "Q B"
    and "\<And>p. p \<in> A \<Longrightarrow> cast p c" and "\<And>p. p \<in> B \<Longrightarrow> cast p d"
    and "\<And>p c d. cast p c \<Longrightarrow> cast p d \<Longrightarrow> c = d"
  shows "c = d"
  using intersect [OF assms(1,2)] assms(3-5) by blast

end

lemma overlap_by_count:
  assumes "A \<subseteq> U" and "B \<subseteq> U" and "finite U" and "card U < card A + card B"
  shows "A \<inter> B \<noteq> {}"
proof
  assume "A \<inter> B = {}"
  with assms(1-3) have "card (A \<union> B) = card A + card B"
    by (meson card_Un_disjoint finite_subset)
  moreover have "card (A \<union> B) \<le> card U"
    using assms(1-3) by (intro card_mono) auto
  ultimately show False using assms(4) by simp
qed

interpretation majority: quorum_system "decides m" for m
proof
  fix A B
  assume "decides m A" and "decides m B"
  moreover have "card (set (voters m)) \<le> length (voters m)" by (rule card_length)
  ultimately show "A \<inter> B \<noteq> {}"
    by (intro overlap_by_count [of _ "set (voters m)"]) (auto simp: decides_def is_quorum_def quorum_def)
qed

lemma adjacent_union_card:
  assumes wf: "membership_wf m" and ch: "membership_apply m c = Inr m'"
  shows "card (set (voters m) \<union> set (voters m')) = max (length (voters m)) (length (voters m'))
    \<and> (length (voters m') = Suc (length (voters m)) \<or> length (voters m) = Suc (length (voters m')))"
proof (cases c)
  case (Add p)
  with ch have p: "p \<notin> set (voters m)" and m': "voters m' = insort p (voters m)"
    by (auto simp: insort_insert_key_def split: if_splits)
  have "set (voters m) \<union> set (voters m') = insert p (set (voters m))"
    by (auto simp: m' set_insort_key)
  with wf p m' show ?thesis
    by (simp add: membership_wf_def btree_set_card)
next
  case (Remove p)
  with ch have p: "p \<in> set (voters m)" and m': "voters m' = remove1 p (voters m)"
    by (auto simp: Let_def split: if_splits)
  have "set (voters m') \<subseteq> set (voters m)"
    unfolding m' by (rule set_remove1_subset)
  then have "set (voters m) \<union> set (voters m') = set (voters m)" by blast
  moreover have "0 < length (voters m)" using p by (cases "voters m") auto
  ultimately show ?thesis
    using wf p m' by (simp add: membership_wf_def btree_set_card length_remove1)
qed

text \<open>
  C21: single-server changes need no joint consensus. A majority of a configuration and a majority
  of any configuration one accepted change away always share a voter.
\<close>

theorem adjacent_configurations_overlap:
  assumes wf: "membership_wf m" and ch: "membership_apply m c = Inr m'"
    and "decides m A" and "decides m' B"
  shows "A \<inter> B \<noteq> {}"
proof (rule overlap_by_count)
  let ?U = "set (voters m) \<union> set (voters m')"
  from assms(3,4) show "A \<subseteq> ?U" and "B \<subseteq> ?U" by (auto simp: decides_def)
  show "finite ?U" by simp
  have "card ?U < (length (voters m) div 2 + 1) + (length (voters m') div 2 + 1)"
    using adjacent_union_card [OF wf ch] by linarith
  with assms(3,4) show "card ?U < card A + card B"
    by (auto simp: decides_def is_quorum_def quorum_def)
qed

theorem adjacent_configurations_overlap_witness:
  "membership_apply (Membership [1, 2, 3]) (Add 4) = Inr (Membership [1, 2, 3, 4])
   \<and> {1, 2} \<inter> {2, 3, 4} \<noteq> ({} :: peer_id set)"
proof -
  have ch: "membership_apply (Membership [1, 2, 3]) (Add 4) = Inr (Membership [1, 2, 3, 4])"
    by (simp add: membership_contains_def insort_insert_key_def)
  have "membership_wf (Membership [1, 2, 3])" by (simp add: membership_wf_def btree_set_def)
  moreover have "decides (Membership [1, 2, 3]) {1, 2}" "decides (Membership [1, 2, 3, 4]) {2, 3, 4}"
    by (simp_all add: decides_def is_quorum_def quorum_def)
  ultimately show ?thesis using adjacent_configurations_overlap [OF _ ch] ch by blast
qed

lemma quorum_strict_majority: "length (voters m) < 2 * quorum m"
  by (simp add: quorum_def)

lemma quorum_minimal: "2 * (quorum m - 1) \<le> length (voters m)"
  by (simp add: quorum_def)

lemma quorum_reachable: "voters m \<noteq> [] \<Longrightarrow> quorum m \<le> length (voters m)"
  by (cases "voters m") (auto simp: quorum_def)

end
