(* ===== verification/Raft_Log.thy ===== *)
theory Raft_Log
  imports Raft_Membership
begin

text \<open>
  The durable shapes of \<^verbatim>\<open>crates/astrs-raft/src/log/entry.rs\<close> and the in-memory log of
  \<^verbatim>\<open>log/store.rs\<close>, the store the simulator and an embedded coordinator run on. Reads of
  \<^verbatim>\<open>MemoryLog\<close> that always answer \<^verbatim>\<open>Ok\<close> are modelled by their payload; the operations that can
  refuse (\<^verbatim>\<open>append\<close>, \<^verbatim>\<open>truncate_from\<close>, \<^verbatim>\<open>entries\<close>, \<^verbatim>\<open>save_snapshot\<close>) return a sum. The locale
  \<open>log_store\<close> is the contract the trait \<^verbatim>\<open>LogStore\<close> documents.
\<close>

section \<open>Entries, hard state and snapshots\<close>

datatype entry_payload = Command "u8 list" | Noop | Config membership

record log_entry =
  le_term :: raft_term
  le_index :: log_index
  le_payload :: entry_payload

definition entry_new :: "raft_term \<Rightarrow> log_index \<Rightarrow> entry_payload \<Rightarrow> log_entry" where
  "entry_new t i p = \<lparr>le_term = t, le_index = i, le_payload = p\<rparr>"

definition entry_command :: "raft_term \<Rightarrow> log_index \<Rightarrow> u8 list \<Rightarrow> log_entry" where
  "entry_command t i c = entry_new t i (Command c)"

definition command_bytes :: "log_entry \<Rightarrow> u8 list option" where
  "command_bytes e = (case le_payload e of Command b \<Rightarrow> Some b | Noop \<Rightarrow> None | Config _ \<Rightarrow> None)"

definition entry_config :: "log_entry \<Rightarrow> membership option" where
  "entry_config e = (case le_payload e of Config m \<Rightarrow> Some m | _ \<Rightarrow> None)"

definition is_config :: "log_entry \<Rightarrow> bool" where
  "is_config e \<longleftrightarrow> (case le_payload e of Config _ \<Rightarrow> True | _ \<Rightarrow> False)"

record hard_state =
  hs_term :: raft_term
  hs_voted_for :: "peer_id option"

definition hard_state_new :: "raft_term \<Rightarrow> peer_id option \<Rightarrow> hard_state" where
  "hard_state_new t v = \<lparr>hs_term = t, hs_voted_for = v\<rparr>"

definition has_voted_for :: "hard_state \<Rightarrow> peer_id \<Rightarrow> bool" where
  "has_voted_for h c \<longleftrightarrow> hs_voted_for h = Some c"

definition can_vote :: "hard_state \<Rightarrow> bool" where
  "can_vote h \<longleftrightarrow> hs_voted_for h = None"

record snapshot_meta =
  sm_last_index :: log_index
  sm_last_term :: raft_term
  sm_membership :: membership

definition snapshot_meta_new :: "log_index \<Rightarrow> raft_term \<Rightarrow> membership \<Rightarrow> snapshot_meta" where
  "snapshot_meta_new i t m = \<lparr>sm_last_index = i, sm_last_term = t, sm_membership = m\<rparr>"

definition covers :: "snapshot_meta \<Rightarrow> log_index \<Rightarrow> bool" where
  "covers s i \<longleftrightarrow> i \<le> sm_last_index s"

record snapshot =
  snap_meta :: snapshot_meta
  snap_data :: "u8 list"

text \<open>\<^verbatim>\<open>Membership::from_entries\<close>: the last configuration entry wins.\<close>

primrec from_entries :: "membership \<Rightarrow> log_entry list \<Rightarrow> membership" where
  "from_entries current [] = current"
| "from_entries current (e # es) =
     from_entries (case le_payload e of Config m \<Rightarrow> m | _ \<Rightarrow> current) es"

section \<open>The in-memory log\<close>

record memory_log =
  ml_hard :: hard_state
  ml_held :: "log_entry list"
  ml_snap :: "snapshot option"

definition memory_log_new :: memory_log where
  "memory_log_new = \<lparr>ml_hard = \<lparr>hs_term = 0, hs_voted_for = None\<rparr>, ml_held = [], ml_snap = None\<rparr>"

primrec check_contiguous_from :: "log_index \<Rightarrow> log_entry list \<Rightarrow> raft_error + unit" where
  "check_contiguous_from expected [] = Inr ()"
| "check_contiguous_from expected (e # es) =
     (if le_index e \<noteq> expected then Inl (Unavailable (le_index e) (index_previous expected))
      else check_contiguous_from (index_next expected) es)"

definition check_contiguous :: "log_index \<Rightarrow> log_entry list \<Rightarrow> raft_error + unit" where
  "check_contiguous last_index es = check_contiguous_from (index_next last_index) es"

definition ml_first_index :: "memory_log \<Rightarrow> log_index" where
  "ml_first_index l =
     (case ml_snap l of Some s \<Rightarrow> index_next (sm_last_index (snap_meta s)) | None \<Rightarrow> index_first)"

definition ml_last_index :: "memory_log \<Rightarrow> log_index" where
  "ml_last_index l =
     (if ml_held l \<noteq> [] then le_index (last (ml_held l))
      else case ml_snap l of Some s \<Rightarrow> sm_last_index (snap_meta s) | None \<Rightarrow> index_zero)"

definition ml_last_term :: "memory_log \<Rightarrow> raft_term" where
  "ml_last_term l =
     (if ml_held l \<noteq> [] then le_term (last (ml_held l))
      else case ml_snap l of Some s \<Rightarrow> sm_last_term (snap_meta s) | None \<Rightarrow> term_initial)"

definition ml_position :: "memory_log \<Rightarrow> log_index \<Rightarrow> nat option" where
  "ml_position l i =
     (let first = ml_first_index l in if i < first then None else Some (distance_to first i))"

definition ml_save_hard_state :: "hard_state \<Rightarrow> memory_log \<Rightarrow> memory_log" where
  "ml_save_hard_state h l = l\<lparr>ml_hard := h\<rparr>"

definition ml_append :: "log_entry list \<Rightarrow> memory_log \<Rightarrow> raft_error + memory_log" where
  "ml_append es l =
     (case check_contiguous (ml_last_index l) es of
        Inl e \<Rightarrow> Inl e
      | Inr _ \<Rightarrow> Inr (l\<lparr>ml_held := ml_held l @ es\<rparr>))"

definition ml_truncate_from :: "log_index \<Rightarrow> memory_log \<Rightarrow> raft_error + memory_log" where
  "ml_truncate_from i l =
     (let first = ml_first_index l in
      if i < first then Inl (Compacted i first)
      else case ml_position l i of
             Some p \<Rightarrow> Inr (l\<lparr>ml_held := take p (ml_held l)\<rparr>)
           | None \<Rightarrow> Inr l)"

definition ml_entry :: "memory_log \<Rightarrow> log_index \<Rightarrow> log_entry option" where
  "ml_entry l i =
     (case ml_position l i of
        Some p \<Rightarrow> if p < length (ml_held l) then Some (ml_held l ! p) else None
      | None \<Rightarrow> None)"

definition ml_entries :: "memory_log \<Rightarrow> log_index \<Rightarrow> nat \<Rightarrow> raft_error + log_entry list" where
  "ml_entries l from max_entries =
     (let first = ml_first_index l in
      if from < first then Inl (Compacted from first)
      else case ml_position l from of
             Some p \<Rightarrow> Inr (take max_entries (drop p (ml_held l)))
           | None \<Rightarrow> Inr [])"

definition ml_term_at :: "memory_log \<Rightarrow> log_index \<Rightarrow> raft_term option" where
  "ml_term_at l i =
     (if is_empty_sentinel i then Some term_initial
      else case ml_snap l of
             Some s \<Rightarrow> (if sm_last_index (snap_meta s) = i then Some (sm_last_term (snap_meta s))
                        else map_option le_term (ml_entry l i))
           | None \<Rightarrow> map_option le_term (ml_entry l i))"

definition ml_snapshot_meta :: "memory_log \<Rightarrow> snapshot_meta option" where
  "ml_snapshot_meta l = map_option snap_meta (ml_snap l)"

definition ml_save_snapshot :: "snapshot \<Rightarrow> memory_log \<Rightarrow> raft_error + memory_log" where
  "ml_save_snapshot s l =
     (let boundary = sm_last_index (snap_meta s) in
      if (case ml_snap l of Some old \<Rightarrow> boundary < sm_last_index (snap_meta old) | None \<Rightarrow> False)
      then Inl (InvalidConfig ''a newer snapshot is already held'')
      else let keep_from = index_next boundary
           in Inr (l\<lparr>ml_held := filter (\<lambda>e. keep_from \<le> le_index e) (ml_held l), ml_snap := Some s\<rparr>))"

definition ml_install_snapshot :: "snapshot \<Rightarrow> memory_log \<Rightarrow> memory_log" where
  "ml_install_snapshot s l = l\<lparr>ml_held := [], ml_snap := Some s\<rparr>"

section \<open>The representation invariant\<close>

text \<open>
  Held entries are numbered consecutively from \<open>ml_first_index\<close>. The numbering saturates,
  as the code's does, so the invariant needs no bound; \<open>log_fits\<close> says that no index has
  reached the saturation point.
\<close>

definition log_wf :: "memory_log \<Rightarrow> bool" where
  "log_wf l \<longleftrightarrow> (\<forall>k < length (ml_held l). le_index (ml_held l ! k) = sat_add (ml_first_index l) k)"

definition log_fits :: "memory_log \<Rightarrow> bool" where
  "log_fits l \<longleftrightarrow> ml_first_index l + length (ml_held l) \<le> u64_max \<and> 0 < ml_first_index l
     \<and> (case ml_snap l of Some s \<Rightarrow> sm_last_index (snap_meta s) < u64_max | None \<Rightarrow> True)"

definition log_inv :: "memory_log \<Rightarrow> bool" where
  "log_inv l \<longleftrightarrow> log_wf l \<and> log_fits l"

section \<open>Reading a well-formed log\<close>

lemma ml_first_index_pos: "log_inv l \<Longrightarrow> 0 < ml_first_index l"
  by (simp add: log_inv_def log_fits_def)

lemma ml_held_index:
  "log_inv l \<Longrightarrow> k < length (ml_held l) \<Longrightarrow> le_index (ml_held l ! k) = ml_first_index l + k"
  by (simp add: log_inv_def log_wf_def log_fits_def sat_add_exact)

lemma ml_last_index_eq:
  assumes "log_inv l"
  shows "Suc (ml_last_index l) = ml_first_index l + length (ml_held l)"
proof (cases "ml_held l")
  case Nil
  with assms show ?thesis
    by (auto simp: ml_last_index_def ml_first_index_def log_inv_def log_fits_def index_next_exact
          scalar_defs split: option.splits)
next
  case (Cons e es)
  have "last (ml_held l) = ml_held l ! (length (ml_held l) - 1)"
    using Cons by (intro last_conv_nth) simp
  then have "le_index (last (ml_held l)) = ml_first_index l + (length (ml_held l) - 1)"
    using Cons ml_held_index [OF assms, of "length (ml_held l) - 1"] by simp
  with Cons show ?thesis by (simp add: ml_last_index_def)
qed

lemma ml_last_index_bound: "log_inv l \<Longrightarrow> ml_last_index l < u64_max"
  using ml_last_index_eq [of l] by (simp add: log_inv_def log_fits_def)

lemma ml_entry_eq:
  assumes "log_inv l"
  shows "ml_entry l i = (if ml_first_index l \<le> i \<and> i \<le> ml_last_index l
                         then Some (ml_held l ! (i - ml_first_index l)) else None)"
  using ml_last_index_eq [OF assms]
  by (auto simp: ml_entry_def ml_position_def Let_def scalar_defs)

lemma ml_entry_index:
  assumes "log_inv l" and "ml_entry l i = Some e"
  shows "le_index e = i"
  using assms ml_last_index_eq [OF assms(1)] ml_held_index [OF assms(1), of "i - ml_first_index l"]
  by (simp add: ml_entry_eq split: if_splits)

lemma ml_term_at_zero [simp]: "ml_term_at l 0 = Some 0"
  by (simp add: ml_term_at_def scalar_defs)

lemma ml_term_at_held:
  assumes "log_inv l" and "ml_first_index l \<le> i"
  shows "ml_term_at l i = map_option le_term (ml_entry l i)"
  using assms
  by (auto simp: ml_term_at_def scalar_defs ml_first_index_def log_inv_def log_fits_def
        index_next_exact split: option.splits)

lemma ml_term_at_some:
  assumes "log_inv l" and "ml_first_index l \<le> i" and "i \<le> ml_last_index l"
  shows "ml_term_at l i = Some (le_term (ml_held l ! (i - ml_first_index l)))"
  using assms by (simp add: ml_term_at_held ml_entry_eq)

lemma ml_term_at_past_end:
  "log_inv l \<Longrightarrow> ml_last_index l < i \<Longrightarrow> ml_term_at l i = None"
  using ml_last_index_eq [of l] by (simp add: ml_term_at_held ml_entry_eq)

lemma ml_last_term_at:
  assumes inv: "log_inv l" and "ml_last_index l \<noteq> 0"
  shows "Some (ml_last_term l) = ml_term_at l (ml_last_index l)"
proof (cases "ml_held l")
  case Nil
  with assms(2) show ?thesis
    by (auto simp: ml_last_term_def ml_last_index_def ml_term_at_def scalar_defs split: option.splits)
next
  case (Cons e es)
  then have "last (ml_held l) = ml_held l ! (length (ml_held l) - 1)" by (intro last_conv_nth) simp
  moreover have "ml_last_index l - ml_first_index l = length (ml_held l) - 1"
    "ml_first_index l \<le> ml_last_index l"
    using ml_last_index_eq [OF inv] Cons by simp_all
  ultimately show ?thesis
    using Cons ml_term_at_some [OF inv, of "ml_last_index l"] by (simp add: ml_last_term_def)
qed

section \<open>Writing a well-formed log\<close>

lemma check_contiguous_from_ok:
  "check_contiguous_from expected es = Inr () \<longleftrightarrow>
     (\<forall>k < length es. le_index (es ! k) = sat_add expected k)"
proof (induction es arbitrary: expected)
  case Nil
  then show ?case by simp
next
  case (Cons e es)
  have "(\<forall>k < length (e # es). le_index ((e # es) ! k) = sat_add expected k) \<longleftrightarrow>
    le_index e = expected \<and> (\<forall>k < length es. le_index (es ! k) = sat_add expected (Suc k))"
    by (auto simp: less_Suc_eq_0_disj)
  with Cons show ?case by (simp add: index_next_def sat_add_assoc)
qed

lemma ml_append_cases:
  obtains (refused) e where "ml_append es l = Inl e"
      and "\<exists>k < length es. le_index (es ! k) \<noteq> sat_add (index_next (ml_last_index l)) k"
  | (accepted) "ml_append es l = Inr (l\<lparr>ml_held := ml_held l @ es\<rparr>)"
      and "\<forall>k < length es. le_index (es ! k) = sat_add (index_next (ml_last_index l)) k"
proof (cases "check_contiguous (ml_last_index l) es")
  case (Inl e)
  then have "check_contiguous_from (index_next (ml_last_index l)) es \<noteq> Inr ()"
    by (simp add: check_contiguous_def)
  with Inl show thesis
    by (intro refused [of e]) (auto simp: ml_append_def check_contiguous_from_ok)
next
  case (Inr u)
  then show thesis
    by (intro accepted)
      (simp_all add: ml_append_def check_contiguous_def check_contiguous_from_ok [symmetric])
qed

lemma ml_first_index_held_update [simp]:
  "ml_first_index (l\<lparr>ml_held := es\<rparr>) = ml_first_index l"
  by (simp add: ml_first_index_def)

lemma ml_append_first [simp]:
  "ml_append es l = Inr l' \<Longrightarrow> ml_first_index l' = ml_first_index l"
  by (auto simp: ml_append_def split: sum.splits)

lemma ml_append_ok:
  assumes inv: "log_inv l" and bound: "ml_last_index l + length es < u64_max"
    and cont: "\<And>k. k < length es \<Longrightarrow> le_index (es ! k) = Suc (ml_last_index l) + k"
  shows "ml_append es l = Inr (l\<lparr>ml_held := ml_held l @ es\<rparr>)"
    and "log_inv (l\<lparr>ml_held := ml_held l @ es\<rparr>)"
proof -
  have "\<forall>k < length es. le_index (es ! k) = sat_add (index_next (ml_last_index l)) k"
    using bound cont by (simp add: index_next_exact sat_add_exact)
  then show "ml_append es l = Inr (l\<lparr>ml_held := ml_held l @ es\<rparr>)"
    by (cases rule: ml_append_cases [of es l]) auto
  have fits: "ml_first_index l + length (ml_held l @ es) \<le> u64_max"
    using ml_last_index_eq [OF inv] bound by simp
  moreover have "le_index ((ml_held l @ es) ! k) = ml_first_index l + k"
    if "k < length (ml_held l @ es)" for k
    using that ml_held_index [OF inv, of k] cont [of "k - length (ml_held l)"] ml_last_index_eq [OF inv]
    by (auto simp: nth_append)
  ultimately show "log_inv (l\<lparr>ml_held := ml_held l @ es\<rparr>)"
    using inv by (auto simp: log_inv_def log_wf_def log_fits_def sat_add_exact)
qed

lemma ml_truncate_from_ok:
  assumes "ml_first_index l \<le> i"
  shows "ml_truncate_from i l = Inr (l\<lparr>ml_held := take (i - ml_first_index l) (ml_held l)\<rparr>)"
  using assms by (simp add: ml_truncate_from_def ml_position_def Let_def scalar_defs)

lemma log_inv_take: "log_inv l \<Longrightarrow> log_inv (l\<lparr>ml_held := take n (ml_held l)\<rparr>)"
  by (auto simp: log_inv_def log_wf_def log_fits_def)

lemma ml_entry_offset:
  assumes "log_inv l"
  shows "ml_entry l (ml_first_index l + d) =
    (if d < length (ml_held l) then Some (ml_held l ! d) else None)"
  using ml_last_index_eq [OF assms] by (simp add: ml_entry_def ml_position_def Let_def scalar_defs)

lemma ml_entry_below: "i < ml_first_index l \<Longrightarrow> ml_entry l i = None"
  by (simp add: ml_entry_def ml_position_def Let_def)

lemma ml_append_last:
  assumes "log_inv l" and "log_inv (l\<lparr>ml_held := ml_held l @ es\<rparr>)"
  shows "ml_last_index (l\<lparr>ml_held := ml_held l @ es\<rparr>) = ml_last_index l + length es"
  using ml_last_index_eq [OF assms(1)] ml_last_index_eq [OF assms(2)] by simp

lemma ml_append_entry:
  assumes inv: "log_inv l" and inv': "log_inv (l\<lparr>ml_held := ml_held l @ es\<rparr>)"
  shows "ml_entry (l\<lparr>ml_held := ml_held l @ es\<rparr>) i =
    (if ml_last_index l < i \<and> i \<le> ml_last_index l + length es
     then Some (es ! (i - Suc (ml_last_index l))) else ml_entry l i)"
proof (cases "i < ml_first_index l")
  case True
  moreover have "ml_first_index l \<le> Suc (ml_last_index l)"
    using ml_last_index_eq [OF inv] by simp
  ultimately show ?thesis by (simp add: ml_entry_below)
next
  case False
  then obtain d where d: "i = ml_first_index l + d" using le_Suc_ex by (auto simp: not_less)
  have last: "ml_last_index l < i \<longleftrightarrow> length (ml_held l) \<le> d"
      "i \<le> ml_last_index l + length es \<longleftrightarrow> d < length (ml_held l @ es)"
      "length (ml_held l) \<le> d \<Longrightarrow> i - Suc (ml_last_index l) = d - length (ml_held l)"
    using ml_last_index_eq [OF inv] d by auto
  show ?thesis
    using ml_entry_offset [OF inv, of d] ml_entry_offset [OF inv', of d] last
    by (auto simp: d nth_append)
qed

lemma ml_truncate_last:
  assumes inv: "log_inv l" and le: "ml_first_index l \<le> i"
  shows "ml_last_index (l\<lparr>ml_held := take (i - ml_first_index l) (ml_held l)\<rparr>) =
    min (ml_last_index l) (i - 1)"
  using ml_last_index_eq [OF inv] ml_last_index_eq [OF log_inv_take [OF inv, of "i - ml_first_index l"]]
    le ml_first_index_pos [OF inv]
  by (cases "length (ml_held l) \<le> i - ml_first_index l") auto

lemma ml_truncate_entry:
  assumes inv: "log_inv l" and le: "ml_first_index l \<le> i"
  shows "ml_entry (l\<lparr>ml_held := take (i - ml_first_index l) (ml_held l)\<rparr>) j =
    (if j < i then ml_entry l j else None)"
proof (cases "j < ml_first_index l")
  case True
  then show ?thesis by (simp add: ml_entry_below)
next
  case False
  then obtain d where "j = ml_first_index l + d" using le_Suc_ex by (auto simp: not_less)
  moreover have "d < i - ml_first_index l \<longleftrightarrow> ml_first_index l + d < i" using le by auto
  ultimately show ?thesis
    using ml_entry_offset [OF inv, of d] ml_entry_offset [OF log_inv_take [OF inv, of "i - ml_first_index l"], of d]
    by auto
qed

section \<open>The contract of the trait\<close>

text \<open>
  \<^verbatim>\<open>LogStore\<close> promises a contiguous index space: held entries are exactly those between
  \<^verbatim>\<open>first_index\<close> and \<^verbatim>\<open>last_index\<close>, an append extends it at the end and refuses anything that is
  not contiguous, a truncation removes a suffix and refuses to reach into the snapshot.
  A caller that wants to overwrite a conflicting suffix truncates first; \<open>overwrite\<close> is what
  that sequence gives.
\<close>

locale log_store =
  fixes inv :: "'s \<Rightarrow> bool"
    and first_of last_of :: "'s \<Rightarrow> log_index"
    and entry_of :: "'s \<Rightarrow> log_index \<Rightarrow> log_entry option"
    and append :: "log_entry list \<Rightarrow> 's \<Rightarrow> raft_error + 's"
    and truncate :: "log_index \<Rightarrow> 's \<Rightarrow> raft_error + 's"
  assumes held: "inv s \<Longrightarrow> entry_of s i \<noteq> None \<longleftrightarrow> first_of s \<le> i \<and> i \<le> last_of s"
    and index: "inv s \<Longrightarrow> entry_of s i = Some e \<Longrightarrow> le_index e = i"
    and append_refuses: "inv s \<Longrightarrow> append es s = Inl r \<Longrightarrow> last_of s + length es < u64_max \<Longrightarrow>
      \<exists>k < length es. le_index (es ! k) \<noteq> Suc (last_of s) + k"
    and append_extends: "inv s \<Longrightarrow> last_of s + length es < u64_max \<Longrightarrow>
      (\<And>k. k < length es \<Longrightarrow> le_index (es ! k) = Suc (last_of s) + k) \<Longrightarrow>
      \<exists>s'. append es s = Inr s' \<and> inv s' \<and> first_of s' = first_of s
        \<and> last_of s' = last_of s + length es
        \<and> (\<forall>i. entry_of s' i = (if last_of s < i \<and> i \<le> last_of s + length es
                              then Some (es ! (i - Suc (last_of s))) else entry_of s i))"
    and truncate_cuts: "inv s \<Longrightarrow> first_of s \<le> i \<Longrightarrow>
      \<exists>s'. truncate i s = Inr s' \<and> inv s' \<and> first_of s' = first_of s
        \<and> last_of s' = min (last_of s) (i - 1)
        \<and> (\<forall>j. entry_of s' j = (if j < i then entry_of s j else None))"
    and truncate_compacted: "i < first_of s \<Longrightarrow> truncate i s = Inl (Compacted i (first_of s))"
begin

lemma overwrite:
  assumes "inv s" and "0 < i" and "first_of s \<le> i" and "i \<le> Suc (last_of s)"
    and "i + length es \<le> u64_max"
    and "\<And>k. k < length es \<Longrightarrow> le_index (es ! k) = i + k"
  shows "\<exists>s1 s2. truncate i s = Inr s1 \<and> append es s1 = Inr s2 \<and> inv s2
    \<and> first_of s2 = first_of s
    \<and> (\<forall>j. entry_of s2 j = (if j < i then entry_of s j
                          else if j < i + length es then Some (es ! (j - i)) else None))"
proof -
  obtain s1 where s1: "truncate i s = Inr s1" "inv s1" "first_of s1 = first_of s"
      "last_of s1 = min (last_of s) (i - 1)"
      "\<forall>j. entry_of s1 j = (if j < i then entry_of s j else None)"
    using truncate_cuts [OF assms(1,3)] by blast
  have last1: "Suc (last_of s1) = i" using s1(4) assms(2,4) by simp
  obtain s2 where s2: "append es s1 = Inr s2" "inv s2" "first_of s2 = first_of s1"
      "\<forall>j. entry_of s2 j = (if last_of s1 < j \<and> j \<le> last_of s1 + length es
                           then Some (es ! (j - Suc (last_of s1))) else entry_of s1 j)"
    using append_extends [OF s1(2), of es] last1 assms(5,6) by auto
  have "entry_of s2 j = (if j < i then entry_of s j
          else if j < i + length es then Some (es ! (j - i)) else None)" for j
    using s2(4) s1(5) last1 by (auto simp: Suc_le_eq)
  with s1(1,3) s2 show ?thesis by auto
qed

end

interpretation mem_log: log_store log_inv ml_first_index ml_last_index ml_entry ml_append ml_truncate_from
proof
  fix l :: memory_log and i e es
  show "log_inv l \<Longrightarrow> ml_entry l i \<noteq> None \<longleftrightarrow> ml_first_index l \<le> i \<and> i \<le> ml_last_index l"
    by (simp add: ml_entry_eq)
  show "log_inv l \<Longrightarrow> ml_entry l i = Some e \<Longrightarrow> le_index e = i"
    by (rule ml_entry_index)
  show "i < ml_first_index l \<Longrightarrow> ml_truncate_from i l = Inl (Compacted i (ml_first_index l))"
    by (simp add: ml_truncate_from_def)
next
  fix l :: memory_log and e and es :: "log_entry list"
  assume "log_inv l" and "ml_append es l = Inl e" and "ml_last_index l + length es < u64_max"
  then show "\<exists>k < length es. le_index (es ! k) \<noteq> Suc (ml_last_index l) + k"
    using ml_append_ok(1) [of l es] by (metis Inl_Inr_False)
next
  fix l :: memory_log and es :: "log_entry list"
  assume inv: "log_inv l" and bound: "ml_last_index l + length es < u64_max"
    and cont: "\<And>k. k < length es \<Longrightarrow> le_index (es ! k) = Suc (ml_last_index l) + k"
  let ?l = "l\<lparr>ml_held := ml_held l @ es\<rparr>"
  note ok = ml_append_ok [OF inv bound cont]
  then show "\<exists>l'. ml_append es l = Inr l' \<and> log_inv l' \<and> ml_first_index l' = ml_first_index l
      \<and> ml_last_index l' = ml_last_index l + length es
      \<and> (\<forall>i. ml_entry l' i = (if ml_last_index l < i \<and> i \<le> ml_last_index l + length es
            then Some (es ! (i - Suc (ml_last_index l))) else ml_entry l i))"
    using ml_append_last [OF inv ok(2)] ml_append_entry [OF inv ok(2)]
    by (intro exI [of _ ?l]) simp
next
  fix l :: memory_log and i
  assume inv: "log_inv l" and le: "ml_first_index l \<le> i"
  let ?l = "l\<lparr>ml_held := take (i - ml_first_index l) (ml_held l)\<rparr>"
  show "\<exists>l'. ml_truncate_from i l = Inr l' \<and> log_inv l' \<and> ml_first_index l' = ml_first_index l
      \<and> ml_last_index l' = min (ml_last_index l) (i - 1)
      \<and> (\<forall>j. ml_entry l' j = (if j < i then ml_entry l j else None))"
    using ml_truncate_from_ok [OF le] log_inv_take [OF inv] ml_truncate_last [OF inv le]
      ml_truncate_entry [OF inv le]
    by (intro exI [of _ ?l]) simp
qed

lemma memory_log_new_inv: "log_inv memory_log_new"
  by (simp add: log_inv_def log_wf_def log_fits_def memory_log_new_def ml_first_index_def
      index_first_def u64_max_eq)

lemma ml_install_snapshot_inv:
  "sm_last_index (snap_meta s) < u64_max \<Longrightarrow> log_inv (ml_install_snapshot s l)"
  by (simp add: log_inv_def log_wf_def log_fits_def ml_install_snapshot_def ml_first_index_def
      index_next_exact)

end
