(* ===== verification/Raft_Message.thy ===== *)
theory Raft_Message
  imports Raft_Log
begin

text \<open>
  The RPC family of \<^verbatim>\<open>crates/astrs-raft/src/message.rs\<close>, the replica configuration of
  \<^verbatim>\<open>config.rs\<close> and the state machine interface of \<^verbatim>\<open>state_machine.rs\<close>. The application that is
  replicated is a parameter: a record of its four trait methods.
\<close>

unbundle bit_operations_syntax

section \<open>Messages\<close>

text \<open>Fields in the order of the source's declaration.\<close>

datatype raft_message =
    PreVoteRequest raft_term log_index raft_term
  | PreVoteResponse raft_term bool
  | VoteRequest raft_term log_index raft_term
  | VoteResponse raft_term bool
  | AppendEntries raft_term log_index raft_term "log_entry list" log_index
  | AppendEntriesResponse raft_term bool log_index log_index raft_term
  | InstallSnapshot raft_term snapshot
  | InstallSnapshotResponse raft_term log_index
  | TimeoutNow raft_term

primrec message_term :: "raft_message \<Rightarrow> raft_term" where
  "message_term (PreVoteRequest t _ _) = t"
| "message_term (PreVoteResponse t _) = t"
| "message_term (VoteRequest t _ _) = t"
| "message_term (VoteResponse t _) = t"
| "message_term (AppendEntries t _ _ _ _) = t"
| "message_term (AppendEntriesResponse t _ _ _ _) = t"
| "message_term (InstallSnapshot t _) = t"
| "message_term (InstallSnapshotResponse t _) = t"
| "message_term (TimeoutNow t) = t"

fun is_response :: "raft_message \<Rightarrow> bool" where
  "is_response (PreVoteResponse _ _) = True"
| "is_response (VoteResponse _ _) = True"
| "is_response (AppendEntriesResponse _ _ _ _ _) = True"
| "is_response (InstallSnapshotResponse _ _) = True"
| "is_response _ = False"

fun is_pre_vote :: "raft_message \<Rightarrow> bool" where
  "is_pre_vote (PreVoteRequest _ _ _) = True"
| "is_pre_vote (PreVoteResponse _ _) = True"
| "is_pre_vote _ = False"

fun is_heartbeat :: "raft_message \<Rightarrow> bool" where
  "is_heartbeat (AppendEntries _ _ _ es _) = (es = [])"
| "is_heartbeat _ = False"

fun entry_count :: "raft_message \<Rightarrow> nat" where
  "entry_count (AppendEntries _ _ _ es _) = length es"
| "entry_count _ = 0"

record envelope =
  env_from :: peer_id
  env_to :: peer_id
  env_message :: raft_message

definition envelope_new :: "peer_id \<Rightarrow> peer_id \<Rightarrow> raft_message \<Rightarrow> envelope" where
  "envelope_new f t m = \<lparr>env_from = f, env_to = t, env_message = m\<rparr>"

section \<open>Configuration\<close>

text \<open>Addresses are opaque strings; durations are nanoseconds.\<close>

record raft_config =
  cfg_id :: peer_id
  cfg_peers :: "(peer_id \<times> string) list"
  election_timeout_ticks :: nat
  election_jitter_ticks :: nat
  heartbeat_ticks :: nat
  tick_interval :: nat
  max_entries_per_append :: nat
  snapshot_threshold :: nat
  pre_vote :: bool
  cfg_seed :: u64

definition config_new :: "peer_id \<Rightarrow> raft_config" where
  "config_new i =
     \<lparr>cfg_id = i, cfg_peers = [], election_timeout_ticks = 10, election_jitter_ticks = 10,
      heartbeat_ticks = 2, tick_interval = 50000000, max_entries_per_append = 256,
      snapshot_threshold = 4096, pre_vote = True,
      cfg_seed = (of_nat i * 0x9E3779B97F4A7C15) OR 1\<rparr>"

definition with_peer :: "raft_config \<Rightarrow> peer_id \<Rightarrow> string \<Rightarrow> raft_config" where
  "with_peer c i a = c\<lparr>cfg_peers := AList.update i a (cfg_peers c)\<rparr>"

definition with_election_timeout :: "raft_config \<Rightarrow> nat \<Rightarrow> nat \<Rightarrow> raft_config" where
  "with_election_timeout c ticks jitter = c\<lparr>election_timeout_ticks := ticks, election_jitter_ticks := jitter\<rparr>"

definition with_heartbeat_ticks :: "raft_config \<Rightarrow> nat \<Rightarrow> raft_config" where
  "with_heartbeat_ticks c ticks = c\<lparr>heartbeat_ticks := ticks\<rparr>"

definition with_snapshot_threshold :: "raft_config \<Rightarrow> nat \<Rightarrow> raft_config" where
  "with_snapshot_threshold c entries = c\<lparr>snapshot_threshold := entries\<rparr>"

definition with_pre_vote :: "raft_config \<Rightarrow> bool \<Rightarrow> raft_config" where
  "with_pre_vote c enabled = c\<lparr>pre_vote := enabled\<rparr>"

definition initial_membership :: "raft_config \<Rightarrow> membership" where
  "initial_membership c = membership_new (map fst (cfg_peers c))"

definition address_of :: "raft_config \<Rightarrow> peer_id \<Rightarrow> string option" where
  "address_of c p = map_of (cfg_peers c) p"

definition lease_ticks :: "raft_config \<Rightarrow> nat" where
  "lease_ticks c = election_timeout_ticks c"

definition config_validate :: "raft_config \<Rightarrow> raft_error + unit" where
  "config_validate c =
     (if cfg_peers c = []
      then Inl (InvalidConfig ''a Raft replica needs at least one peer, itself included'')
      else if cfg_id c \<notin> fst ` set (cfg_peers c)
      then Inl (InvalidConfig ''this replica's own id must appear in its peer set'')
      else if election_timeout_ticks c = 0
      then Inl (InvalidConfig ''the election timeout must be at least one tick'')
      else if heartbeat_ticks c = 0
      then Inl (InvalidConfig ''the heartbeat interval must be at least one tick'')
      else if heartbeat_ticks c \<ge> election_timeout_ticks c
      then Inl (InvalidConfig ''heartbeats must be sent well inside the election timeout'')
      else if tick_interval c = 0
      then Inl (InvalidConfig ''a tick must have a non-zero duration'')
      else if max_entries_per_append c = 0
      then Inl (InvalidConfig ''an AppendEntries must be allowed to carry at least one entry'')
      else Inr ())"

section \<open>The replicated application\<close>

record 'm state_machine =
  sm_apply :: "log_index \<Rightarrow> u8 list \<Rightarrow> 'm \<Rightarrow> (string, u8 list, 'm) outcome"
  sm_snapshot :: "'m \<Rightarrow> string + u8 list"
  sm_restore :: "u8 list \<Rightarrow> 'm \<Rightarrow> (string, unit, 'm) outcome"
  sm_applied_index :: "'m \<Rightarrow> log_index"

text \<open>
  \<^verbatim>\<open>MemoryStateMachine\<close>, which remembers every command. Its snapshot bytes come from the wire
  codec, a third-party crate: the encoder and decoder are parameters.
\<close>

record memory_machine =
  mm_commands :: "u8 list list"
  mm_last_applied :: log_index

definition memory_machine_new :: memory_machine where
  "memory_machine_new = \<lparr>mm_commands = [], mm_last_applied = 0\<rparr>"

definition mm_apply :: "log_index \<Rightarrow> u8 list \<Rightarrow> memory_machine \<Rightarrow> (string, u8 list, memory_machine) outcome" where
  "mm_apply i c m = ok c (m\<lparr>mm_commands := mm_commands m @ [c], mm_last_applied := i\<rparr>)"

definition mm_snapshot :: "(nat \<times> u8 list list \<Rightarrow> string + u8 list) \<Rightarrow> memory_machine \<Rightarrow> string + u8 list" where
  "mm_snapshot encode m = encode (mm_last_applied m, mm_commands m)"

definition mm_restore :: "(u8 list \<Rightarrow> string + nat \<times> u8 list list) \<Rightarrow> u8 list \<Rightarrow> memory_machine \<Rightarrow> (string, unit, memory_machine) outcome" where
  "mm_restore decode b m =
     (case decode b of
        Inl e \<Rightarrow> err e m
      | Inr (last_applied, commands) \<Rightarrow>
          ok () (m\<lparr>mm_last_applied := last_applied, mm_commands := commands\<rparr>))"

definition memory_state_machine ::
  "(nat \<times> u8 list list \<Rightarrow> string + u8 list) \<Rightarrow> (u8 list \<Rightarrow> string + nat \<times> u8 list list) \<Rightarrow> memory_machine state_machine" where
  "memory_state_machine encode decode =
     \<lparr>sm_apply = mm_apply, sm_snapshot = mm_snapshot encode, sm_restore = mm_restore decode,
      sm_applied_index = mm_last_applied\<rparr>"

section \<open>Facts\<close>

lemma initial_membership_wf: "membership_wf (initial_membership c)"
  by (simp add: initial_membership_def membership_new_wf)

lemma config_validate_ok:
  "config_validate c = Inr () \<longleftrightarrow>
     cfg_id c \<in> fst ` set (cfg_peers c) \<and> 0 < heartbeat_ticks c
     \<and> heartbeat_ticks c < election_timeout_ticks c \<and> 0 < tick_interval c
     \<and> 0 < max_entries_per_append c"
  by (auto simp: config_validate_def)

lemma validated_member:
  "config_validate c = Inr () \<Longrightarrow> membership_contains (initial_membership c) (cfg_id c)"
  by (simp add: config_validate_ok membership_contains_def initial_membership_def)

end
