(* ===== verification/Raft_Node.thy ===== *)
theory Raft_Node
  imports Raft_Message
begin

text \<open>
  One replica: \<^verbatim>\<open>RaftNode\<close> of \<^verbatim>\<open>crates/astrs-raft/src/core/\<close> over the in-memory log, as a
  record and one definition per method, in the order \<^verbatim>\<open>mod.rs\<close>, \<^verbatim>\<open>apply.rs\<close>,
  \<^verbatim>\<open>replication.rs\<close>, \<^verbatim>\<open>election.rs\<close> and again \<^verbatim>\<open>mod.rs\<close> imposes by its calls. The replicated
  application is the parameter \<open>M\<close>. Log output (\<^verbatim>\<open>tracing\<close>) is dropped.

  A method that can fail returns an \<open>outcome\<close>: the error and the state written so far. On the
  in-memory log \<^verbatim>\<open>save_hard_state\<close> and the reads never fail, so the methods that only use
  those are plain state transformers. The sum of the timeout and its jitter is an unchecked
  \<^verbatim>\<open>u64\<close> addition in the code, which wraps in a release build.
\<close>

section \<open>State\<close>

record progress =
  next_index :: log_index
  match_index :: log_index
  last_contact :: nat
  snapshot_in_flight :: bool

definition progress_new :: "log_index \<Rightarrow> nat \<Rightarrow> progress" where
  "progress_new next_idx now =
     \<lparr>next_index = next_idx, match_index = index_zero, last_contact = now, snapshot_in_flight = False\<rparr>"

record applied_entry =
  ap_index :: log_index
  ap_term :: raft_term
  ap_result :: "u8 list option"

record 'm raft_node =
  config :: raft_config
  node_role :: role
  hard :: hard_state
  leader :: "peer_id option"
  log :: memory_log
  machine :: 'm
  commit_index :: log_index
  last_applied :: log_index
  node_membership :: membership
  node_progress :: "peer_id \<rightharpoonup> progress"
  votes :: "(peer_id \<times> bool) list"
  election_elapsed :: nat
  heartbeat_elapsed :: nat
  randomized_timeout :: nat
  node_rng :: rng
  outbox :: "envelope list"
  applied :: "applied_entry list"
  pending_config :: "log_index option"
  ticks :: nat

type_synonym ('a, 'm) node_outcome = "(raft_error, 'a, 'm raft_node) outcome"

abbreviation node_id :: "'m raft_node \<Rightarrow> peer_id" where
  "node_id n \<equiv> cfg_id (config n)"

abbreviation node_term :: "'m raft_node \<Rightarrow> raft_term" where
  "node_term n \<equiv> hs_term (hard n)"

section \<open>Bookkeeping (\<^verbatim>\<open>core/mod.rs\<close>)\<close>

definition send :: "peer_id \<Rightarrow> raft_message \<Rightarrow> 'm raft_node \<Rightarrow> 'm raft_node" where
  "send to msg n = n\<lparr>outbox := outbox n @ [envelope_new (node_id n) to msg]\<rparr>"

definition other_voters :: "'m raft_node \<Rightarrow> peer_id list" where
  "other_voters n = filter (\<lambda>p. p \<noteq> node_id n) (voters (node_membership n))"

definition save_hard_state :: "raft_term \<Rightarrow> peer_id option \<Rightarrow> 'm raft_node \<Rightarrow> 'm raft_node" where
  "save_hard_state t v n =
     (let state = hard_state_new t v in
      if state = hard n then n
      else n\<lparr>log := ml_save_hard_state state (log n), hard := state\<rparr>)"

definition reset_election_timer :: "'m raft_node \<Rightarrow> 'm raft_node" where
  "reset_election_timer n =
     (let (jitter, rng') = in_range (node_rng n) 0 (sat_add (election_jitter_ticks (config n)) 1)
      in n\<lparr>election_elapsed := 0,
           randomized_timeout := wrap_add (election_timeout_ticks (config n)) jitter,
           node_rng := rng'\<rparr>)"

definition become_follower :: "raft_term \<Rightarrow> peer_id option \<Rightarrow> 'm raft_node \<Rightarrow> 'm raft_node" where
  "become_follower t l n =
     (let n = (if t \<noteq> node_term n then save_hard_state t None n else n)
      in reset_election_timer
           (n\<lparr>node_role := Follower, leader := l, node_progress := Map.empty, votes := []\<rparr>))"

definition recompute_membership :: "'m raft_node \<Rightarrow> (unit, 'm) node_outcome" where
  "recompute_membership n =
     (let base = (case ml_snapshot_meta (log n) of Some meta \<Rightarrow> sm_membership meta
                  | None \<Rightarrow> initial_membership (config n));
          first = ml_first_index (log n);
          count = sat_add (distance_to first (ml_last_index (log n))) 1
      in case ml_entries (log n) first count of
           Inl e \<Rightarrow> err e n
         | Inr held \<Rightarrow>
             ok () (n\<lparr>node_membership := from_entries base held,
                      pending_config :=
                        (case find is_config (rev held) of
                           Some entry \<Rightarrow> (if le_index entry > commit_index n then Some (le_index entry) else None)
                         | None \<Rightarrow> None)\<rparr>))"

definition has_quorum_contact :: "nat \<Rightarrow> 'm raft_node \<Rightarrow> bool" where
  "has_quorum_contact within n =
     (let cutoff = sat_sub (ticks n) within;
          fresh = length (filter (\<lambda>v. v = node_id n
                    \<or> (case node_progress n v of Some p \<Rightarrow> last_contact p \<ge> cutoff | None \<Rightarrow> False))
                    (voters (node_membership n)))
      in is_quorum (node_membership n) fresh)"

definition has_lease :: "'m raft_node \<Rightarrow> bool" where
  "has_lease n \<longleftrightarrow> is_leader (node_role n) \<and> has_quorum_contact (lease_ticks (config n)) n"

definition is_ready :: "'m raft_node \<Rightarrow> bool" where
  "is_ready n \<longleftrightarrow> is_leader (node_role n)
     \<and> (case ml_term_at (log n) (commit_index n) of Some t \<Rightarrow> t = node_term n | None \<Rightarrow> False)"

definition note_contact :: "peer_id \<Rightarrow> 'm raft_node \<Rightarrow> 'm raft_node" where
  "note_contact peer n =
     (case node_progress n peer of
        Some p \<Rightarrow> n\<lparr>node_progress := (node_progress n)(peer \<mapsto> p\<lparr>last_contact := ticks n\<rparr>)\<rparr>
      | None \<Rightarrow> n)"

primrec rebuild_progress :: "(peer_id \<rightharpoonup> progress) \<Rightarrow> log_index \<Rightarrow> nat \<Rightarrow> peer_id list \<Rightarrow> (peer_id \<rightharpoonup> progress)" where
  "rebuild_progress old next_idx now [] = Map.empty"
| "rebuild_progress old next_idx now (v # vs) =
     (rebuild_progress old next_idx now vs)
       (v \<mapsto> (case old v of Some p \<Rightarrow> p | None \<Rightarrow> progress_new next_idx now))"

definition reset_progress :: "'m raft_node \<Rightarrow> 'm raft_node" where
  "reset_progress n =
     (let next_idx = index_next (ml_last_index (log n));
          now = ticks n;
          rebuilt = rebuild_progress (node_progress n) next_idx now (voters (node_membership n));
          rebuilt = (case rebuilt (node_id n) of
             Some own \<Rightarrow> rebuilt(node_id n \<mapsto> own\<lparr>match_index := ml_last_index (log n),
                                next_index := next_idx, last_contact := now\<rparr>)
           | None \<Rightarrow> rebuilt)
      in n\<lparr>node_progress := rebuilt\<rparr>)"

section \<open>Applying and snapshots (\<^verbatim>\<open>core/apply.rs\<close>)\<close>

definition take_snapshot :: "'m state_machine \<Rightarrow> 'm raft_node \<Rightarrow> (unit, 'm) node_outcome" where
  "take_snapshot M n =
     (let last_idx = last_applied n in
      if is_empty_sentinel last_idx then ok () n
      else case ml_term_at (log n) last_idx of
        None \<Rightarrow> ok () n
      | Some last_term \<Rightarrow>
          (case sm_snapshot M (machine n) of
             Inl reason \<Rightarrow> err (SnapshotError ''capture'' reason) n
           | Inr bytes \<Rightarrow>
               lift_part (ml_save_snapshot
                   \<lparr>snap_meta = snapshot_meta_new last_idx last_term (node_membership n),
                    snap_data = bytes\<rparr> (log n))
                 (\<lambda>l n. n\<lparr>log := l\<rparr>) n))"

definition maybe_compact :: "'m state_machine \<Rightarrow> 'm raft_node \<Rightarrow> (unit, 'm) node_outcome" where
  "maybe_compact M n =
     (let threshold = snapshot_threshold (config n) in
      if threshold = 0 \<or> is_empty_sentinel (last_applied n) then ok () n
      else let held = distance_to (ml_first_index (log n)) (last_applied n) in
           if held < threshold then ok () n else take_snapshot M n)"

text \<open>One turn of the loop of \<^verbatim>\<open>apply_committed\<close>.\<close>

definition apply_one :: "'m state_machine \<Rightarrow> 'm raft_node \<Rightarrow> (unit, 'm) node_outcome" where
  "apply_one M n =
     (let index = index_next (last_applied n) in
      case ml_entry (log n) index of
        None \<Rightarrow> ok () (n\<lparr>last_applied := index\<rparr>)
      | Some entry \<Rightarrow>
          (case le_payload entry of
             Command command \<Rightarrow>
               (case sm_apply M index command (machine n) of
                  (Inl reason, m') \<Rightarrow> err (ApplyError index reason) (n\<lparr>machine := m'\<rparr>)
                | (Inr value, m') \<Rightarrow>
                    ok () (n\<lparr>machine := m', last_applied := index,
                             applied := applied n @ [\<lparr>ap_index = index, ap_term = le_term entry, ap_result = Some value\<rparr>]\<rparr>))
           | _ \<Rightarrow>
               ok () (n\<lparr>last_applied := index,
                        applied := applied n @ [\<lparr>ap_index = index, ap_term = le_term entry, ap_result = None\<rparr>]\<rparr>)))"

text \<open>The loop, with one unit of fuel per turn; \<open>apply_committed\<close> gives it the distance it has to go.\<close>

primrec apply_loop :: "nat \<Rightarrow> 'm state_machine \<Rightarrow> 'm raft_node \<Rightarrow> (unit, 'm) node_outcome" where
  "apply_loop 0 M n = ok () n"
| "apply_loop (Suc fuel) M n =
     (if last_applied n < commit_index n
      then try_then (apply_one M n) (\<lambda>_. apply_loop fuel M)
      else ok () n)"

definition apply_committed :: "'m state_machine \<Rightarrow> 'm raft_node \<Rightarrow> (unit, 'm) node_outcome" where
  "apply_committed M n =
     try_then (apply_loop (commit_index n - last_applied n) M n) (\<lambda>_. maybe_compact M)"

definition send_snapshot :: "peer_id \<Rightarrow> 'm raft_node \<Rightarrow> 'm raft_node" where
  "send_snapshot peer n =
     (case ml_snap (log n) of
        None \<Rightarrow>
          (case node_progress n peer of
             Some p \<Rightarrow> n\<lparr>node_progress := (node_progress n)(peer \<mapsto> p\<lparr>next_index := ml_first_index (log n)\<rparr>)\<rparr>
           | None \<Rightarrow> n)
      | Some snap \<Rightarrow>
          (let n = (case node_progress n peer of
                      Some p \<Rightarrow> n\<lparr>node_progress := (node_progress n)(peer \<mapsto>
                          p\<lparr>snapshot_in_flight := True,
                            next_index := index_next (sm_last_index (snap_meta snap))\<rparr>)\<rparr>
                    | None \<Rightarrow> n)
           in send peer (InstallSnapshot (node_term n) snap) n))"

section \<open>Replication (\<^verbatim>\<open>core/replication.rs\<close>)\<close>

definition send_append :: "peer_id \<Rightarrow> 'm raft_node \<Rightarrow> (unit, 'm) node_outcome" where
  "send_append peer n =
     (case node_progress n peer of
        None \<Rightarrow> ok () n
      | Some p \<Rightarrow>
          (if next_index p < ml_first_index (log n) then ok () (send_snapshot peer n)
           else let prev_log_index = index_previous (next_index p) in
             case ml_term_at (log n) prev_log_index of
               None \<Rightarrow> ok () (send_snapshot peer n)
             | Some prev_log_term \<Rightarrow>
                 (case ml_entries (log n) (next_index p) (max_entries_per_append (config n)) of
                    Inl e \<Rightarrow> err e n
                  | Inr entries \<Rightarrow>
                      ok () (send peer (AppendEntries (node_term n) prev_log_index prev_log_term
                                          entries (commit_index n)) n))))"

definition broadcast_append :: "'m raft_node \<Rightarrow> (unit, 'm) node_outcome" where
  "broadcast_append n = for_each send_append (other_voters n) n"

definition maybe_advance_commit :: "'m raft_node \<Rightarrow> 'm raft_node" where
  "maybe_advance_commit n =
     (if node_role n \<noteq> Leader then n
      else let matched = map (\<lambda>v. if v = node_id n then ml_last_index (log n)
                                  else case node_progress n v of Some p \<Rightarrow> match_index p | None \<Rightarrow> index_zero)
                           (voters (node_membership n));
               descending = rev (sort matched);
               position = sat_sub (quorum (node_membership n)) 1
           in if length descending \<le> position then n
              else let candidate = descending ! position in
                if candidate \<le> commit_index n then n
                else if ml_term_at (log n) candidate \<noteq> Some (node_term n) then n
                else let n = n\<lparr>commit_index := candidate\<rparr> in
                  (case pending_config n of
                     Some pending \<Rightarrow> if pending \<le> commit_index n then n\<lparr>pending_config := None\<rparr> else n
                   | None \<Rightarrow> n))"

fun first_index_of_term :: "memory_log \<Rightarrow> log_index \<Rightarrow> raft_term \<Rightarrow> log_index" where
  "first_index_of_term l 0 t = 0"
| "first_index_of_term l (Suc i) t =
     (if Suc i > ml_first_index l \<and> ml_term_at l i = Some t then first_index_of_term l i t else Suc i)"

fun last_index_of_term_from :: "memory_log \<Rightarrow> log_index \<Rightarrow> raft_term \<Rightarrow> log_index option" where
  "last_index_of_term_from l 0 t = None"
| "last_index_of_term_from l (Suc i) t =
     (if Suc i < ml_first_index l then None
      else case ml_term_at l (Suc i) of
             Some found \<Rightarrow> (if found = t then Some (Suc i)
                            else if found < t then None
                            else last_index_of_term_from l i t)
           | None \<Rightarrow> last_index_of_term_from l i t)"

definition last_index_of_term :: "memory_log \<Rightarrow> raft_term \<Rightarrow> log_index option" where
  "last_index_of_term l t = last_index_of_term_from l (ml_last_index l) t"

text \<open>
  The scan of \<^verbatim>\<open>merge_entries\<close>: how many leading entries the log already holds, and the index to
  truncate at when the next one conflicts.
\<close>

fun merge_scan :: "memory_log \<Rightarrow> log_entry list \<Rightarrow> nat \<times> log_index option" where
  "merge_scan l [] = (0, None)"
| "merge_scan l (e # es) =
     (case ml_term_at l (le_index e) of
        Some existing \<Rightarrow> (if existing = le_term e
                          then (let (k, cut) = merge_scan l es in (Suc k, cut))
                          else (0, Some (le_index e)))
      | None \<Rightarrow> (0, None))"

definition merge_entries :: "log_entry list \<Rightarrow> 'm raft_node \<Rightarrow> (unit, 'm) node_outcome" where
  "merge_entries entries n =
     (let (append_from, cut) = merge_scan (log n) entries;
          appended = drop append_from entries
      in try_then (case cut of
                     Some i \<Rightarrow> lift_part (ml_truncate_from i (log n)) (\<lambda>l n. n\<lparr>log := l\<rparr>) n
                   | None \<Rightarrow> ok () n)
           (\<lambda>_ n. try_then (if appended \<noteq> []
                            then lift_part (ml_append appended (log n)) (\<lambda>l n. n\<lparr>log := l\<rparr>) n
                            else ok () n)
              (\<lambda>_ n. if cut \<noteq> None \<or> list_ex is_config appended
                     then recompute_membership n else ok () n)))"

fun handle_append_entries :: "'m state_machine \<Rightarrow> peer_id \<Rightarrow> raft_message \<Rightarrow> 'm raft_node \<Rightarrow> (unit, 'm) node_outcome" where
  "handle_append_entries M from (AppendEntries t prev_log_index prev_log_term entries leader_commit) n =
     (let n = (if is_campaigning (node_role n) then become_follower t (Some from) n else n);
          n = reset_election_timer (n\<lparr>leader := Some from\<rparr>);
          boundary = index_previous (ml_first_index (log n));
          last_idx = ml_last_index (log n)
      in if prev_log_index < boundary
         then ok () (send from (AppendEntriesResponse (node_term n) True boundary index_zero term_initial) n)
         else if prev_log_index > last_idx
         then ok () (send from (AppendEntriesResponse (node_term n) False index_zero (index_next last_idx) term_initial) n)
         else let held_term = (case ml_term_at (log n) prev_log_index of Some h \<Rightarrow> h | None \<Rightarrow> term_initial)
         in if held_term \<noteq> prev_log_term
            then ok () (send from (AppendEntriesResponse (node_term n) False index_zero
                          (first_index_of_term (log n) prev_log_index held_term) held_term) n)
            else try_then (merge_entries entries n) (\<lambda>_ n.
                   let last_new = index_saturating_add prev_log_index (length entries) in
                   try_then (if leader_commit > commit_index n
                             then apply_committed M (n\<lparr>commit_index := min leader_commit last_new\<rparr>)
                             else ok () n)
                     (\<lambda>_ n. ok () (send from (AppendEntriesResponse (node_term n) True last_new index_zero term_initial) n))))"
| "handle_append_entries M from _ n = ok () n"

fun handle_append_response :: "'m state_machine \<Rightarrow> peer_id \<Rightarrow> raft_message \<Rightarrow> 'm raft_node \<Rightarrow> (unit, 'm) node_outcome" where
  "handle_append_response M from (AppendEntriesResponse t success match_idx conflict_index conflict_term) n =
     (if node_role n \<noteq> Leader \<or> t \<noteq> node_term n then ok () n
      else let n = note_contact from n in
        if success
        then (let last_idx = ml_last_index (log n) in
              case node_progress n from of
                None \<Rightarrow> ok () n
              | Some p \<Rightarrow>
                  (let matched = (if match_idx > match_index p then match_idx else match_index p);
                       p = p\<lparr>match_index := matched, next_index := index_next matched, snapshot_in_flight := False\<rparr>;
                       behind = (next_index p \<le> last_idx);
                       n = n\<lparr>node_progress := (node_progress n)(from \<mapsto> p)\<rparr>
                   in try_then (apply_committed M (maybe_advance_commit n))
                        (\<lambda>_ n. if behind then send_append from n else ok () n)))
        else (let next_idx = (if conflict_term \<noteq> term_initial
                              then case last_index_of_term (log n) conflict_term of
                                     Some last_of_term \<Rightarrow> index_next last_of_term
                                   | None \<Rightarrow> conflict_index
                              else conflict_index)
              in case node_progress n from of
                   None \<Rightarrow> ok () n
                 | Some p \<Rightarrow>
                     send_append from (n\<lparr>node_progress := (node_progress n)(from \<mapsto>
                       p\<lparr>next_index := max (max next_idx (index_next (match_index p))) index_first\<rparr>)\<rparr>)))"
| "handle_append_response M from _ n = ok () n"

fun handle_install_snapshot :: "'m state_machine \<Rightarrow> peer_id \<Rightarrow> raft_message \<Rightarrow> 'm raft_node \<Rightarrow> (unit, 'm) node_outcome" where
  "handle_install_snapshot M from (InstallSnapshot t snap) n =
     (let n = (if is_campaigning (node_role n) then become_follower (node_term n) (Some from) n else n);
          n = reset_election_timer (n\<lparr>leader := Some from\<rparr>);
          last_idx = sm_last_index (snap_meta snap)
      in if last_idx \<le> commit_index n
         then ok () (send from (InstallSnapshotResponse (node_term n) (ml_last_index (log n))) n)
         else case sm_restore M (snap_data snap) (machine n) of
                (Inl reason, m') \<Rightarrow> err (SnapshotError ''restore'' reason) (n\<lparr>machine := m'\<rparr>)
              | (Inr _, m') \<Rightarrow>
                  ok () (send from (InstallSnapshotResponse (node_term n) last_idx)
                    (n\<lparr>machine := m', log := ml_install_snapshot snap (log n), commit_index := last_idx,
                       last_applied := last_idx, node_membership := sm_membership (snap_meta snap),
                       pending_config := None\<rparr>)))"
| "handle_install_snapshot M from _ n = ok () n"

fun handle_install_snapshot_response :: "'m state_machine \<Rightarrow> peer_id \<Rightarrow> raft_message \<Rightarrow> 'm raft_node \<Rightarrow> (unit, 'm) node_outcome" where
  "handle_install_snapshot_response M from (InstallSnapshotResponse t last_idx) n =
     (if node_role n \<noteq> Leader \<or> t \<noteq> node_term n then ok () n
      else let n = note_contact from n;
               n = (case node_progress n from of
                      Some p \<Rightarrow>
                        (let matched = (if last_idx > match_index p then last_idx else match_index p)
                         in n\<lparr>node_progress := (node_progress n)(from \<mapsto>
                              p\<lparr>snapshot_in_flight := False, match_index := matched,
                                next_index := max (index_next matched) index_first\<rparr>)\<rparr>)
                    | None \<Rightarrow> n)
           in try_then (apply_committed M (maybe_advance_commit n)) (\<lambda>_. send_append from))"
| "handle_install_snapshot_response M from _ n = ok () n"

section \<open>Proposals (\<^verbatim>\<open>core/mod.rs\<close>)\<close>

definition append_local :: "'m state_machine \<Rightarrow> entry_payload \<Rightarrow> 'm raft_node \<Rightarrow> (log_index, 'm) node_outcome" where
  "append_local M payload n =
     (if \<not> is_leader (node_role n) then err (NotLeader (leader n)) n
      else let index = index_next (ml_last_index (log n));
               entry = entry_new (node_term n) index payload;
               n = (case entry_config entry of
                      Some m \<Rightarrow> reset_progress (n\<lparr>node_membership := m\<rparr>)
                    | None \<Rightarrow> n)
           in try_then (lift_part (ml_append [entry] (log n)) (\<lambda>l n. n\<lparr>log := l\<rparr>) n) (\<lambda>_ n.
                let n = (case node_progress n (node_id n) of
                           Some p \<Rightarrow> n\<lparr>node_progress := (node_progress n)(node_id n \<mapsto>
                               p\<lparr>match_index := index, next_index := index_next index\<rparr>)\<rparr>
                         | None \<Rightarrow> n)
                in try_then (broadcast_append n) (\<lambda>_ n.
                     try_then (apply_committed M (maybe_advance_commit n)) (\<lambda>_. ok index))))"

definition propose :: "'m state_machine \<Rightarrow> u8 list \<Rightarrow> 'm raft_node \<Rightarrow> (log_index, 'm) node_outcome" where
  "propose M command n = append_local M (Command command) n"

definition propose_membership :: "'m state_machine \<Rightarrow> membership_change \<Rightarrow> 'm raft_node \<Rightarrow> (log_index, 'm) node_outcome" where
  "propose_membership M change n =
     (if \<not> is_leader (node_role n) then err (NotLeader (leader n)) n
      else let in_flight = (case pending_config n of
                 Some pending \<Rightarrow> if pending > commit_index n then Some pending else None
               | None \<Rightarrow> None)
        in case in_flight of
             Some pending \<Rightarrow> err (ConfigChangeInFlight pending) n
           | None \<Rightarrow>
               (case membership_apply (node_membership n) change of
                  Inl e \<Rightarrow> err e n
                | Inr m \<Rightarrow> try_then (append_local M (Config m) n)
                             (\<lambda>index n. ok index (n\<lparr>pending_config := Some index\<rparr>))))"

section \<open>Elections (\<^verbatim>\<open>core/election.rs\<close>)\<close>

definition become_leader :: "'m state_machine \<Rightarrow> 'm raft_node \<Rightarrow> (unit, 'm) node_outcome" where
  "become_leader M n =
     (let n = n\<lparr>node_role := Leader, leader := Some (node_id n), votes := [],
                election_elapsed := 0, heartbeat_elapsed := 0, node_progress := Map.empty\<rparr>;
          n = reset_progress n
      in try_then (append_local M Noop n) (\<lambda>_. ok ()))"

definition campaign :: "'m state_machine \<Rightarrow> 'm raft_node \<Rightarrow> (unit, 'm) node_outcome" where
  "campaign M n =
     (let t = term_next (node_term n);
          n = save_hard_state t (Some (node_id n)) n;
          n = n\<lparr>node_role := Candidate, leader := None, votes := [(node_id n, True)]\<rparr>;
          n = reset_election_timer n
      in if is_quorum (node_membership n) 1 then become_leader M n
         else ok () (fold (\<lambda>peer n. send peer (VoteRequest t (ml_last_index (log n)) (ml_last_term (log n))) n)
                      (other_voters n) n))"

definition campaign_pre_vote :: "'m state_machine \<Rightarrow> 'm raft_node \<Rightarrow> (unit, 'm) node_outcome" where
  "campaign_pre_vote M n =
     (let n = n\<lparr>node_role := PreCandidate, leader := None, votes := [(node_id n, True)]\<rparr>;
          n = reset_election_timer n
      in if is_quorum (node_membership n) 1 then campaign M n
         else let hypothetical = term_next (node_term n)
              in ok () (fold (\<lambda>peer n. send peer (PreVoteRequest hypothetical (ml_last_index (log n)) (ml_last_term (log n))) n)
                         (other_voters n) n))"

definition is_log_up_to_date :: "'m raft_node \<Rightarrow> log_index \<Rightarrow> raft_term \<Rightarrow> bool" where
  "is_log_up_to_date n index t =
     (let own_term = ml_last_term (log n) in
      if t \<noteq> own_term then t > own_term else index \<ge> ml_last_index (log n))"

fun handle_vote_request :: "peer_id \<Rightarrow> raft_message \<Rightarrow> 'm raft_node \<Rightarrow> 'm raft_node" where
  "handle_vote_request from (PreVoteRequest t last_log_index last_log_term) n =
     (let up_to_date = is_log_up_to_date n last_log_index last_log_term;
          leader_is_gone = (leader n = None \<or> election_elapsed n \<ge> election_timeout_ticks (config n));
          granted = (t > node_term n \<and> up_to_date \<and> leader_is_gone)
      in send from (PreVoteResponse (node_term n) granted) n)"
| "handle_vote_request from (VoteRequest t last_log_index last_log_term) n =
     (let up_to_date = is_log_up_to_date n last_log_index last_log_term;
          vote_available = (can_vote (hard n) \<or> has_voted_for (hard n) from);
          granted = (vote_available \<and> up_to_date);
          n = (if granted then reset_election_timer (save_hard_state (node_term n) (Some from) n) else n)
      in send from (VoteResponse (node_term n) granted) n)"
| "handle_vote_request from _ n = n"

text \<open>Counting an answer to the campaign \<open>expected\<close> and acting on the count.\<close>

definition count_vote :: "'m state_machine \<Rightarrow> bool \<Rightarrow> peer_id \<Rightarrow> bool \<Rightarrow> 'm raft_node \<Rightarrow> (unit, 'm) node_outcome" where
  "count_vote M is_pre from granted n =
     (let expected = (if is_pre then PreCandidate else Candidate) in
      if node_role n \<noteq> expected then ok () n
      else let n = n\<lparr>votes := AList.update from granted (votes n)\<rparr>;
               for_votes = length (filter snd (votes n));
               against = length (votes n) - for_votes
           in if is_quorum (node_membership n) for_votes
              then (if is_pre then campaign M n else become_leader M n)
              else if is_quorum (node_membership n) against
              then ok () (reset_election_timer (n\<lparr>node_role := Follower, votes := []\<rparr>))
              else ok () n)"

fun handle_vote_response :: "'m state_machine \<Rightarrow> peer_id \<Rightarrow> raft_message \<Rightarrow> 'm raft_node \<Rightarrow> (unit, 'm) node_outcome" where
  "handle_vote_response M from (PreVoteResponse t granted) n = count_vote M True from granted n"
| "handle_vote_response M from (VoteResponse t granted) n = count_vote M False from granted n"
| "handle_vote_response M from _ n = ok () n"

section \<open>Construction and inputs (\<^verbatim>\<open>core/mod.rs\<close>)\<close>

definition node_new :: "'m state_machine \<Rightarrow> raft_config \<Rightarrow> memory_log \<Rightarrow> 'm \<Rightarrow> raft_error + 'm raft_node" where
  "node_new M cfg l m =
     (case config_validate cfg of
        Inl e \<Rightarrow> Inl e
      | Inr _ \<Rightarrow>
         (let (jitter, rng') = in_range (rng_new (cfg_seed cfg)) 0 (sat_add (election_jitter_ticks cfg) 1);
              n = \<lparr>config = cfg, node_role = Follower, hard = ml_hard l, leader = None, log = l, machine = m,
                   commit_index = index_zero, last_applied = index_zero,
                   node_membership = initial_membership cfg, node_progress = Map.empty, votes = [],
                   election_elapsed = 0, heartbeat_elapsed = 0,
                   randomized_timeout = wrap_add (election_timeout_ticks cfg) jitter,
                   node_rng = rng', outbox = [], applied = [], pending_config = None, ticks = 0\<rparr>;
              restored = (case ml_snap l of
                 None \<Rightarrow> Inr n
               | Some snap \<Rightarrow>
                   (case sm_restore M (snap_data snap) m of
                      (Inl reason, _) \<Rightarrow> Inl (SnapshotError ''restore'' reason)
                    | (Inr _, m') \<Rightarrow> Inr (n\<lparr>machine := m', commit_index := sm_last_index (snap_meta snap),
                                          last_applied := sm_last_index (snap_meta snap),
                                          node_membership := sm_membership (snap_meta snap)\<rparr>)))
          in case restored of
               Inl e \<Rightarrow> Inl e
             | Inr n \<Rightarrow>
                 (let durably_applied = sm_applied_index M (machine n);
                      n = (if durably_applied > last_applied n
                           then n\<lparr>last_applied := durably_applied,
                                  commit_index := max (commit_index n) durably_applied\<rparr> else n)
                  in case recompute_membership n of
                       (Inl e, _) \<Rightarrow> Inl e
                     | (Inr _, n) \<Rightarrow> Inr n)))"

definition tick_leader :: "'m raft_node \<Rightarrow> (unit, 'm) node_outcome" where
  "tick_leader n =
     (let n = n\<lparr>heartbeat_elapsed := sat_add (heartbeat_elapsed n) 1\<rparr>
      in try_then (if heartbeat_elapsed n \<ge> heartbeat_ticks (config n)
                   then broadcast_append (n\<lparr>heartbeat_elapsed := 0\<rparr>) else ok () n)
           (\<lambda>_ n. let n = n\<lparr>election_elapsed := sat_add (election_elapsed n) 1\<rparr> in
              if election_elapsed n \<ge> election_timeout_ticks (config n)
                 \<and> \<not> has_quorum_contact (election_timeout_ticks (config n)) n
              then ok () (become_follower (node_term n) None n)
              else ok () n))"

definition tick_follower :: "'m state_machine \<Rightarrow> 'm raft_node \<Rightarrow> (unit, 'm) node_outcome" where
  "tick_follower M n =
     (let n = n\<lparr>election_elapsed := sat_add (election_elapsed n) 1\<rparr> in
      if election_elapsed n < randomized_timeout n then ok () n
      else if \<not> membership_contains (node_membership n) (node_id n)
      then ok () (n\<lparr>election_elapsed := 0\<rparr>)
      else if pre_vote (config n) then campaign_pre_vote M n
      else campaign M n)"

definition tick :: "'m state_machine \<Rightarrow> 'm raft_node \<Rightarrow> (unit, 'm) node_outcome" where
  "tick M n =
     (let n = n\<lparr>ticks := sat_add (ticks n) 1\<rparr> in
      if is_leader (node_role n) then tick_leader n else tick_follower M n)"

fun handle_higher_term :: "peer_id \<Rightarrow> raft_message \<Rightarrow> raft_term \<Rightarrow> 'm raft_node \<Rightarrow> 'm raft_node" where
  "handle_higher_term from (PreVoteRequest _ _ _) incoming n = n"
| "handle_higher_term from (PreVoteResponse _ True) incoming n = n"
| "handle_higher_term from (AppendEntries _ _ _ _ _) incoming n = become_follower incoming (Some from) n"
| "handle_higher_term from (InstallSnapshot _ _) incoming n = become_follower incoming (Some from) n"
| "handle_higher_term from (TimeoutNow _) incoming n = become_follower incoming (Some from) n"
| "handle_higher_term from _ incoming n = become_follower incoming None n"

fun reject_stale :: "peer_id \<Rightarrow> raft_message \<Rightarrow> 'm raft_node \<Rightarrow> 'm raft_node" where
  "reject_stale from (PreVoteRequest _ _ _) n = send from (PreVoteResponse (node_term n) False) n"
| "reject_stale from (VoteRequest _ _ _) n = send from (VoteResponse (node_term n) False) n"
| "reject_stale from (AppendEntries _ _ _ _ _) n =
     send from (AppendEntriesResponse (node_term n) False index_zero index_zero term_initial) n"
| "reject_stale from (InstallSnapshot _ _) n =
     send from (AppendEntriesResponse (node_term n) False index_zero index_zero term_initial) n"
| "reject_stale from _ n = n"

text \<open>The dispatch at the end of \<^verbatim>\<open>step\<close>.\<close>

definition dispatch :: "'m state_machine \<Rightarrow> peer_id \<Rightarrow> raft_message \<Rightarrow> 'm raft_node \<Rightarrow> (unit, 'm) node_outcome" where
  "dispatch M from msg n =
     (case msg of
        PreVoteRequest _ _ _ \<Rightarrow> ok () (handle_vote_request from msg n)
      | VoteRequest _ _ _ \<Rightarrow> ok () (handle_vote_request from msg n)
      | PreVoteResponse _ _ \<Rightarrow> handle_vote_response M from msg n
      | VoteResponse _ _ \<Rightarrow> handle_vote_response M from msg n
      | AppendEntries _ _ _ _ _ \<Rightarrow> handle_append_entries M from msg n
      | AppendEntriesResponse _ _ _ _ _ \<Rightarrow> handle_append_response M from msg n
      | InstallSnapshot _ _ \<Rightarrow> handle_install_snapshot M from msg n
      | InstallSnapshotResponse _ _ \<Rightarrow> handle_install_snapshot_response M from msg n
      | TimeoutNow _ \<Rightarrow>
          (if membership_contains (node_membership n) (node_id n) then campaign M n else ok () n))"

definition step :: "'m state_machine \<Rightarrow> envelope \<Rightarrow> 'm raft_node \<Rightarrow> (unit, 'm) node_outcome" where
  "step M env n =
     (if env_to env \<noteq> node_id n then ok () n
      else let from = env_from env; msg = env_message env; incoming = message_term msg in
        if is_stale_against (node_term n) incoming
        then dispatch M from msg (handle_higher_term from msg incoming n)
        else if rejects (node_term n) incoming then ok () (reject_stale from msg n)
        else dispatch M from msg n)"

definition take_messages :: "'m raft_node \<Rightarrow> envelope list \<times> 'm raft_node" where
  "take_messages n = (outbox n, n\<lparr>outbox := []\<rparr>)"

definition take_applied :: "'m raft_node \<Rightarrow> applied_entry list \<times> 'm raft_node" where
  "take_applied n = (applied n, n\<lparr>applied := []\<rparr>)"

record raft_status =
  st_id :: peer_id
  st_role :: role
  st_term :: raft_term
  st_leader :: "peer_id option"
  st_commit_index :: log_index
  st_last_applied :: log_index
  st_last_index :: log_index
  st_membership :: membership
  st_has_lease :: bool
  st_leader_ready :: bool

definition status :: "'m raft_node \<Rightarrow> raft_status" where
  "status n =
     \<lparr>st_id = node_id n, st_role = node_role n, st_term = node_term n, st_leader = leader n,
      st_commit_index = commit_index n, st_last_applied = last_applied n,
      st_last_index = ml_last_index (log n), st_membership = node_membership n,
      st_has_lease = has_lease n, st_leader_ready = is_ready n\<rparr>"

section \<open>Inputs\<close>

text \<open>Every input a replica can be given, and its effect.\<close>

datatype node_input =
    InTick
  | InStep envelope
  | InPropose "u8 list"
  | InMembership membership_change

fun feed :: "'m state_machine \<Rightarrow> node_input \<Rightarrow> 'm raft_node \<Rightarrow> 'm raft_node" where
  "feed M InTick n = snd (tick M n)"
| "feed M (InStep e) n = snd (step M e n)"
| "feed M (InPropose c) n = snd (propose M c n)"
| "feed M (InMembership c) n = snd (propose_membership M c n)"

end
