(* ===== verification/Raft_Example.thy ===== *)
theory Raft_Example
  imports Raft_Node
begin

text \<open>
  Concrete replicas, on which the theorems about replicas are instantiated, and the equations
  that evaluate them. The election timeout is two ticks without jitter, so no random number
  matters; compaction is off, so the codec is never called.
\<close>

section \<open>Three replicas\<close>

definition demo_config :: "peer_id \<Rightarrow> raft_config" where
  "demo_config i = with_snapshot_threshold (with_pre_vote (with_heartbeat_ticks (with_election_timeout
     (with_peer (with_peer (with_peer (config_new i) 1 ''a'') 2 ''b'') 3 ''c'') 2 0) 1) False) 0"

definition demo_machine :: "memory_machine state_machine" where
  "demo_machine = memory_state_machine (\<lambda>_. Inl ''no codec'') (\<lambda>_. Inl ''no codec'')"

definition demo_voters :: membership where
  "demo_voters = Membership [1, 2, 3]"

definition demo_seed :: "peer_id \<Rightarrow> rng" where
  "demo_seed i = snd (next_u64 (rng_new (cfg_seed (demo_config i))))"

definition demo_node :: "peer_id \<Rightarrow> memory_machine raft_node" where
  "demo_node i = \<lparr>config = demo_config i, node_role = Follower, hard = \<lparr>hs_term = 0, hs_voted_for = None\<rparr>,
     leader = None, log = memory_log_new, machine = memory_machine_new, commit_index = 0, last_applied = 0,
     node_membership = demo_voters, node_progress = Map.empty, votes = [], election_elapsed = 0,
     heartbeat_elapsed = 0, randomized_timeout = 2, node_rng = demo_seed i,
     outbox = [], applied = [], pending_config = None, ticks = 0\<rparr>"

text \<open>The equations that evaluate a replica on concrete data.\<close>

lemmas node_evals =
  term_initial_def term_next_def is_stale_against_def rejects_def index_zero_def index_first_def
  is_empty_sentinel_def index_next_def index_previous_def index_saturating_add_def distance_to_def is_leader_def
  is_follower_def is_campaigning_def membership_len_def membership_is_empty_def membership_contains_def quorum_def
  is_quorum_def entry_new_def entry_command_def command_bytes_def entry_config_def is_config_def
  hard_state_new_def has_voted_for_def can_vote_def snapshot_meta_new_def covers_def memory_log_new_def
  check_contiguous_def ml_first_index_def ml_last_index_def ml_last_term_def ml_position_def ml_save_hard_state_def
  ml_append_def ml_truncate_from_def ml_entry_def ml_entries_def ml_term_at_def ml_snapshot_meta_def
  ml_save_snapshot_def ml_install_snapshot_def envelope_new_def lease_ticks_def memory_machine_new_def mm_apply_def
  mm_snapshot_def mm_restore_def memory_state_machine_def progress_new_def send_def other_voters_def
  save_hard_state_def reset_election_timer_def become_follower_def recompute_membership_def has_quorum_contact_def has_lease_def
  is_ready_def note_contact_def reset_progress_def take_snapshot_def maybe_compact_def apply_one_def
  apply_committed_def send_snapshot_def send_append_def broadcast_append_def maybe_advance_commit_def last_index_of_term_def
  merge_entries_def append_local_def propose_def propose_membership_def become_leader_def campaign_def
  campaign_pre_vote_def is_log_up_to_date_def count_vote_def tick_leader_def tick_follower_def tick_def
  dispatch_def step_def take_messages_def take_applied_def status_def
  ok_def err_def try_then_def lift_part_def wrap_add_def sat_add_def sat_sub_def u64_max_eq Let_def

lemma in_range_unit: "in_range s 0 (Suc 0) = (0, snd (next_u64 s))"
  by (simp add: in_range_def split: prod.split)

lemma demo_config_fields [simp]:
  "cfg_id (demo_config i) = i" "election_timeout_ticks (demo_config i) = 2"
  "election_jitter_ticks (demo_config i) = 0" "heartbeat_ticks (demo_config i) = 1"
  "pre_vote (demo_config i) = False" "max_entries_per_append (demo_config i) = 256"
  "snapshot_threshold (demo_config i) = 0" "initial_membership (demo_config i) = demo_voters"
  by (simp_all add: demo_config_def config_new_def with_peer_def with_pre_vote_def with_snapshot_threshold_def
      with_heartbeat_ticks_def with_election_timeout_def initial_membership_def membership_new_def
      demo_voters_def)

lemma demo_config_ok: "i \<in> {1, 2, 3} \<Longrightarrow> config_validate (demo_config i) = Inr ()"
  by (auto simp: config_validate_ok demo_config_def config_new_def with_peer_def with_pre_vote_def with_snapshot_threshold_def
      with_heartbeat_ticks_def with_election_timeout_def)

lemmas demo_evals = demo_node_def demo_machine_def demo_voters_def in_range_unit

lemma demo_new:
  assumes "i \<in> {1, 2, 3}"
  shows "node_new demo_machine (demo_config i) memory_log_new memory_machine_new = Inr (demo_node i)"
  by (simp add: node_new_def demo_config_ok [OF assms] demo_seed_def demo_evals node_evals)

section \<open>A log with three terms\<close>

definition sample_log :: memory_log where
  "sample_log = \<lparr>ml_hard = \<lparr>hs_term = 3, hs_voted_for = None\<rparr>,
     ml_held = [entry_new 1 1 Noop, entry_new 1 2 Noop, entry_new 2 3 Noop, entry_new 2 4 Noop, entry_new 3 5 Noop],
     ml_snap = None\<rparr>"

lemma sample_log_inv: "log_inv sample_log"
  by (simp add: log_inv_def log_wf_def log_fits_def sample_log_def ml_first_index_def index_first_def
      entry_new_def sat_add_def u64_max_eq All_less_Suc)

end
