(* ===== verification/Raft_Replication.thy ===== *)
theory Raft_Replication
  imports Raft_Example
begin

text \<open>
  Log replication: what merging a leader's entries does to a follower's log, what the conflict
  hints of a rejection mean, and when a leader may commit. The operations are those of
  \<^verbatim>\<open>core/replication.rs\<close>.
\<close>

section \<open>Merging entries\<close>

lemma merge_scan_spec:
  "merge_scan l es = (k, at) \<Longrightarrow>
     k \<le> length es \<and> (\<forall>i < k. ml_term_at l (le_index (es ! i)) = Some (le_term (es ! i)))
     \<and> (case at of
          None \<Rightarrow> k < length es \<longrightarrow> ml_term_at l (le_index (es ! k)) = None
        | Some c \<Rightarrow> k < length es \<and> c = le_index (es ! k)
            \<and> (\<exists>t. ml_term_at l c = Some t \<and> t \<noteq> le_term (es ! k)))"
proof (induction es arbitrary: k at)
  case Nil
  then show ?case by simp
next
  case (Cons e es)
  show ?case
  proof (cases "ml_term_at l (le_index e) = Some (le_term e)")
    case True
    obtain k' at' where rec: "merge_scan l es = (k', at')" by fastforce
    with True Cons.prems have "k = Suc k'" "at = at'" by auto
    with Cons.IH [OF rec] True show ?thesis
      by (simp add: All_less_Suc2 split: option.splits)
  next
    case False
    with Cons.prems show ?thesis by (auto split: option.splits if_splits)
  qed
qed

lemma recompute_membership_total:
  "\<exists>m p. recompute_membership n = ok () (n\<lparr>node_membership := m, pending_config := p\<rparr>)"
  by (auto simp: recompute_membership_def Let_def ml_entries_def split: option.splits)

lemma ml_term_at_none_past:
  assumes "log_inv l" and "ml_first_index l \<le> i" and "ml_term_at l i = None"
  shows "ml_last_index l < i"
  using assms ml_term_at_some [OF assms(1,2)] by (metis linorder_not_le option.distinct(1))

text \<open>The log a merge leaves behind, given how many leading entries were already held.\<close>

definition merged :: "memory_log \<Rightarrow> log_index \<Rightarrow> log_entry list \<Rightarrow> nat \<Rightarrow> memory_log \<Rightarrow> bool" where
  "merged l prev es k l' \<longleftrightarrow> k \<le> length es
     \<and> (\<forall>i < k. ml_term_at l (Suc prev + i) = Some (le_term (es ! i)))
     \<and> (if k = length es then l' = l
        else ml_term_at l (Suc prev + k) \<noteq> Some (le_term (es ! k))
          \<and> (\<forall>j. ml_entry l' j = (if j \<le> prev + k then ml_entry l j
                                  else if j \<le> prev + length es then Some (es ! (j - Suc prev)) else None)))"

lemma merge_log:
  assumes inv: "log_inv l" and lo: "ml_first_index l \<le> Suc prev" and hi: "prev \<le> ml_last_index l"
    and num: "\<And>i. i < length es \<Longrightarrow> le_index (es ! i) = Suc prev + i"
    and bound: "prev + length es < u64_max"
    and scan: "merge_scan l es = (k, at)" and k: "k < length es"
  shows "\<exists>l1 l2. (case at of Some c \<Rightarrow> ml_truncate_from c l | None \<Rightarrow> Inr l) = Inr l1
    \<and> ml_append (drop k es) l1 = Inr l2 \<and> log_inv l2 \<and> ml_first_index l2 = ml_first_index l
    \<and> merged l prev es k l2"
proof -
  note spec = merge_scan_spec [OF scan]
  let ?c = "Suc prev + k"
  have c: "le_index (es ! k) = ?c" using num k by simp
  have held: "ml_term_at l (Suc prev + i) = Some (le_term (es ! i))" if "i < k" for i
  proof -
    have "ml_term_at l (le_index (es ! i)) = Some (le_term (es ! i))" using spec that by blast
    with num [of i] that k show ?thesis by simp
  qed
  have reach: "prev + k \<le> ml_last_index l"
  proof (cases k)
    case (Suc j)
    then have "ml_term_at l (Suc prev + j) \<noteq> None" using held [of j] by simp
    then show ?thesis using ml_term_at_past_end [OF inv, of "Suc prev + j"] Suc by linarith
  qed (use hi in simp)
  have num': "le_index (drop k es ! i) = ?c + i" if "i < length (drop k es)" for i
    using that num [of "k + i"] by simp
  obtain l1 l2 where at: "ml_truncate_from ?c l = Inr l1" "ml_append (drop k es) l1 = Inr l2"
      "log_inv l2" "ml_first_index l2 = ml_first_index l"
      "\<forall>j. ml_entry l2 j = (if j < ?c then ml_entry l j
          else if j < ?c + length (drop k es) then Some (drop k es ! (j - ?c)) else None)"
    using mem_log.overwrite [OF inv, of ?c "drop k es"] lo reach bound k num' by auto
  have "ml_entry l2 j = (if j \<le> prev + k then ml_entry l j
      else if j \<le> prev + length es then Some (es ! (j - Suc prev)) else None)" for j
    using at(5) [rule_format, of j] k by (simp add: less_Suc_eq_le)
  moreover have "ml_term_at l ?c \<noteq> Some (le_term (es ! k))"
    using spec k c by (auto split: option.splits)
  ultimately have m: "merged l prev es k l2"
    using held k unfolding merged_def by simp
  show ?thesis
  proof (cases at)
    case None
    then have "ml_term_at l ?c = None" using spec k c by simp
    then have "ml_last_index l < ?c" using ml_term_at_none_past [OF inv] lo by simp
    then have "length (ml_held l) \<le> ?c - ml_first_index l" using ml_last_index_eq [OF inv] by simp
    then have "l1 = l" using at(1) ml_truncate_from_ok [of l ?c] lo by simp
    with None at(2-4) m show ?thesis by simp
  next
    case (Some d)
    with spec c have "d = ?c" by simp
    with Some at(1-4) m show ?thesis by simp
  qed
qed

lemma merge_entries_spec:
  assumes inv: "log_inv (log n)" and lo: "ml_first_index (log n) \<le> Suc prev"
    and hi: "prev \<le> ml_last_index (log n)"
    and num: "\<And>i. i < length es \<Longrightarrow> le_index (es ! i) = Suc prev + i"
    and bound: "prev + length es < u64_max"
  shows "\<exists>l' m p k. merge_entries es n = ok () (n\<lparr>log := l', node_membership := m, pending_config := p\<rparr>)
    \<and> log_inv l' \<and> ml_first_index l' = ml_first_index (log n) \<and> merged (log n) prev es k l'"
proof -
  obtain k at where scan: "merge_scan (log n) es = (k, at)" by fastforce
  note spec = merge_scan_spec [OF scan]
  show ?thesis
  proof (cases "k < length es")
    case False
    with spec have k: "k = length es" and at: "at = None" by (auto split: option.splits)
    have "merge_entries es n = ok () (n\<lparr>log := log n, node_membership := node_membership n,
        pending_config := pending_config n\<rparr>)"
      using k at by (simp add: merge_entries_def scan)
    moreover have "merged (log n) prev es k (log n)"
      using spec num unfolding merged_def k by simp
    ultimately show ?thesis using inv by blast
  next
    case True
    obtain l1 l2 where l: "(case at of Some c \<Rightarrow> ml_truncate_from c (log n) | None \<Rightarrow> Inr (log n)) = Inr l1"
        "ml_append (drop k es) l1 = Inr l2" "log_inv l2" "ml_first_index l2 = ml_first_index (log n)"
        "merged (log n) prev es k l2"
      using merge_log [OF inv lo hi num bound scan True] by blast
    have trunc: "(case at of Some i \<Rightarrow> lift_part (ml_truncate_from i (log n)) (\<lambda>l n. n\<lparr>log := l\<rparr>) n
        | None \<Rightarrow> ok () n) = ok () (n\<lparr>log := l1\<rparr>)"
      using l(1) by (cases at) (auto simp: lift_part_def)
    have "merge_entries es n =
        (if at \<noteq> None \<or> list_ex is_config (drop k es) then recompute_membership (n\<lparr>log := l2\<rparr>)
         else ok () (n\<lparr>log := l2\<rparr>))"
      using True l(2) by (simp add: merge_entries_def scan trunc try_then_def ok_def lift_part_def)
    moreover obtain m p where "recompute_membership (n\<lparr>log := l2\<rparr>) =
        ok () (n\<lparr>log := l2, node_membership := m, pending_config := p\<rparr>)"
      using recompute_membership_total [of "n\<lparr>log := l2\<rparr>"] by auto
    moreover have "n\<lparr>log := l2\<rparr> = n\<lparr>log := l2, node_membership := node_membership n,
        pending_config := pending_config n\<rparr>"
      by simp
    ultimately have "\<exists>m p. merge_entries es n = ok () (n\<lparr>log := l2, node_membership := m, pending_config := p\<rparr>)"
      by metis
    with l(3-5) show ?thesis by blast
  qed
qed

lemma merged_terms:
  assumes inv: "log_inv l" "log_inv l'" and first: "ml_first_index l' = ml_first_index l"
    and lo: "ml_first_index l \<le> Suc prev" and m: "merged l prev es k l'" and i: "i < length es"
  shows "ml_term_at l' (Suc prev + i) = Some (le_term (es ! i))"
proof (cases "i < k")
  case True
  then have old: "ml_term_at l (Suc prev + i) = Some (le_term (es ! i))" using m by (simp add: merged_def)
  have "ml_entry l' (Suc prev + i) = ml_entry l (Suc prev + i)"
    using m True by (cases "k = length es") (simp_all add: merged_def)
  with old lo first inv show ?thesis by (simp add: ml_term_at_held)
next
  case False
  with i m have "ml_entry l' (Suc prev + i) = Some (es ! i)" by (auto simp: merged_def)
  with lo first inv show ?thesis by (simp add: ml_term_at_held)
qed

lemma merged_prefix: "merged l prev es k l' \<Longrightarrow> j \<le> prev \<Longrightarrow> ml_entry l' j = ml_entry l j"
  by (auto simp: merged_def split: if_splits)

lemma merged_duplicate:
  "merged l prev es k l' \<Longrightarrow> (\<And>i. i < length es \<Longrightarrow> ml_term_at l (Suc prev + i) = Some (le_term (es ! i)))
     \<Longrightarrow> l' = l"
  unfolding merged_def by (metis le_neq_implies_less)

text \<open>
  C5: merging a leader's entries. On entries that are numbered consecutively after an index the
  follower holds, the merge succeeds and keeps the log well formed; afterwards the follower holds
  every one of them (same index, same term), nothing at or before the predecessor has changed,
  and if all of them were held already, as after a duplicated or delayed message, the log has not
  changed at all: in particular no later entry was truncated.
\<close>

theorem merge_entries_correct:
  assumes "log_inv (log n)" and "ml_first_index (log n) \<le> Suc prev" and "prev \<le> ml_last_index (log n)"
    and "\<And>i. i < length es \<Longrightarrow> le_index (es ! i) = Suc prev + i" and "prev + length es < u64_max"
  shows "\<exists>n'. merge_entries es n = ok () n' \<and> log_inv (log n')
    \<and> (\<forall>i < length es. ml_term_at (log n') (Suc prev + i) = Some (le_term (es ! i)))
    \<and> (\<forall>j \<le> prev. ml_entry (log n') j = ml_entry (log n) j)
    \<and> ((\<forall>i < length es. ml_term_at (log n) (Suc prev + i) = Some (le_term (es ! i))) \<longrightarrow> log n' = log n)"
proof -
  obtain l' m p k where n': "merge_entries es n = ok () (n\<lparr>log := l', node_membership := m, pending_config := p\<rparr>)"
      and l': "log_inv l'" "ml_first_index l' = ml_first_index (log n)" "merged (log n) prev es k l'"
    using merge_entries_spec [OF assms] by blast
  note facts = merged_terms [OF assms(1) l'(1,2) assms(2) l'(3)] merged_prefix [OF l'(3)] merged_duplicate [OF l'(3)]
  show ?thesis
    using n' l'(1) facts by (intro exI conjI) auto
qed

theorem merge_entries_correct_witness:
  "\<exists>n'. merge_entries [entry_new 3 3 Noop] ((demo_node 1)\<lparr>log := sample_log\<rparr>) = ok () n'
     \<and> log_inv (log n') \<and> ml_term_at (log n') 3 = Some 3 \<and> ml_entry (log n') 2 = ml_entry sample_log 2"
proof -
  have sample: "ml_first_index sample_log = 1" "ml_last_index sample_log = 5"
    by (simp_all add: sample_log_def ml_first_index_def ml_last_index_def index_first_def entry_new_def)
  let ?n = "(demo_node 1)\<lparr>log := sample_log\<rparr>" and ?es = "[entry_new 3 3 Noop]"
  have "\<exists>n'. merge_entries ?es ?n = ok () n' \<and> log_inv (log n')
      \<and> (\<forall>i < length ?es. ml_term_at (log n') (Suc 2 + i) = Some (le_term (?es ! i)))
      \<and> (\<forall>j \<le> 2. ml_entry (log n') j = ml_entry (log ?n) j)
      \<and> ((\<forall>i < length ?es. ml_term_at (log ?n) (Suc 2 + i) = Some (le_term (?es ! i))) \<longrightarrow> log n' = log ?n)"
    by (rule merge_entries_correct)
      (use sample_log_inv sample in \<open>simp_all add: entry_new_def u64_max_eq\<close>)
  then show ?thesis by (auto simp: entry_new_def)
qed

section \<open>Conflict hints\<close>

text \<open>
  the hint a follower gives. When its entry at the leader's predecessor has another term, it
  answers with the first index of the run of that term: every index from there to the
  predecessor has that term, and the one before does not, or is compacted.
\<close>

lemma first_index_of_term_correct:
  assumes "ml_first_index l \<le> i" and "ml_term_at l i = Some t"
  shows "ml_first_index l \<le> first_index_of_term l i t \<and> first_index_of_term l i t \<le> i
    \<and> (\<forall>j. first_index_of_term l i t \<le> j \<and> j \<le> i \<longrightarrow> ml_term_at l j = Some t)
    \<and> (first_index_of_term l i t = ml_first_index l
       \<or> ml_term_at l (first_index_of_term l i t - 1) \<noteq> Some t)"
  using assms
proof (induction i)
  case 0
  then show ?case by simp
next
  case (Suc i)
  show ?case
  proof (cases "Suc i > ml_first_index l \<and> ml_term_at l i = Some t")
    case True
    with Suc.IH Suc.prems show ?thesis by (auto simp: le_Suc_eq)
  next
    case False
    with Suc.prems show ?thesis by (auto simp: le_antisym)
  qed
qed

lemma first_index_of_term_correct_witness:
  "ml_term_at sample_log 4 = Some 2 \<and> first_index_of_term sample_log 4 2 \<le> 4
   \<and> ml_term_at sample_log (first_index_of_term sample_log 4 2) = Some 2"
proof -
  have "ml_first_index sample_log = 1" "ml_term_at sample_log 4 = Some 2"
    by (simp_all add: sample_log_def node_evals)
  with first_index_of_term_correct [of sample_log 4 2] show ?thesis by auto
qed

definition terms_sorted :: "memory_log \<Rightarrow> bool" where
  "terms_sorted l \<longleftrightarrow> sorted (map le_term (ml_held l))"

lemma terms_sortedD:
  assumes inv: "log_inv l" and sorted: "terms_sorted l"
    and ij: "ml_first_index l \<le> i" "i \<le> j" "j \<le> ml_last_index l"
    and "ml_term_at l i = Some s" and "ml_term_at l j = Some t"
  shows "s \<le> t"
proof -
  have len: "j - ml_first_index l < length (map le_term (ml_held l))"
    using ml_last_index_eq [OF inv] ij by simp
  moreover have "i - ml_first_index l \<le> j - ml_first_index l" using ij by simp
  ultimately have "map le_term (ml_held l) ! (i - ml_first_index l) \<le> map le_term (ml_held l) ! (j - ml_first_index l)"
    using sorted unfolding terms_sorted_def by (intro sorted_nth_mono)
  then show ?thesis using assms len by (simp add: ml_term_at_some)
qed

lemma last_index_of_term_from_spec:
  assumes inv: "log_inv l" and sorted: "terms_sorted l" and "i \<le> ml_last_index l"
  shows "case last_index_of_term_from l i t of
      Some r \<Rightarrow> ml_first_index l \<le> r \<and> r \<le> i \<and> ml_term_at l r = Some t
        \<and> (\<forall>j. r < j \<and> j \<le> i \<longrightarrow> ml_term_at l j \<noteq> Some t)
    | None \<Rightarrow> \<forall>j. ml_first_index l \<le> j \<and> j \<le> i \<longrightarrow> ml_term_at l j \<noteq> Some t"
  using assms(3)
proof (induction i)
  case 0
  then show ?case using ml_first_index_pos [OF inv] by auto
next
  case (Suc i)
  show ?case
  proof (cases "Suc i < ml_first_index l")
    case True
    then show ?thesis by auto
  next
    case False
    then obtain found where found: "ml_term_at l (Suc i) = Some found"
      using ml_term_at_some [OF inv, of "Suc i"] Suc.prems by simp
    consider "found = t" | "found < t" | "found > t" by linarith
    then show ?thesis
    proof cases
      case 1
      with found False have "last_index_of_term_from l (Suc i) t = Some (Suc i)" by simp
      moreover have "\<forall>j. Suc i < j \<and> j \<le> Suc i \<longrightarrow> ml_term_at l j \<noteq> Some t" by (meson leD)
      ultimately show ?thesis using 1 found False by simp
    next
      case 2
      have "ml_term_at l j \<noteq> Some t" if "ml_first_index l \<le> j" "j \<le> Suc i" for j
      proof
        assume "ml_term_at l j = Some t"
        from terms_sortedD [OF inv sorted that Suc.prems this found] 2 show False by simp
      qed
      moreover have "last_index_of_term_from l (Suc i) t = None" using 2 found False by simp
      ultimately show ?thesis by simp
    next
      case 3
      then have rec: "last_index_of_term_from l (Suc i) t = last_index_of_term_from l i t"
        using found False by simp
      have new: "ml_term_at l (Suc i) \<noteq> Some t" using found 3 by simp
      show ?thesis
      proof (cases "last_index_of_term_from l i t")
        case None
        with Suc have "ml_term_at l j \<noteq> Some t" if "ml_first_index l \<le> j" "j \<le> i" for j
          using that by simp
        with None new show ?thesis unfolding rec using le_Suc_eq by simp metis
      next
        case (Some r)
        with Suc have "ml_first_index l \<le> r" "r \<le> i" "ml_term_at l r = Some t"
            "\<And>j. r < j \<Longrightarrow> j \<le> i \<Longrightarrow> ml_term_at l j \<noteq> Some t"
          by simp_all
        with Some new show ?thesis unfolding rec using le_Suc_eq by simp metis
      qed
    qed
  qed
qed

text \<open>
  the leader's use of the hint. On a well-formed log whose terms never decrease, the search
  from the end finds the last entry of a term, and reports none exactly when no held entry has it,
  although it stops at the first smaller term.
\<close>

lemma last_index_of_term_correct:
  assumes "log_inv l" and "terms_sorted l"
  shows "case last_index_of_term l t of
      Some r \<Rightarrow> ml_first_index l \<le> r \<and> r \<le> ml_last_index l \<and> ml_term_at l r = Some t
        \<and> (\<forall>j. r < j \<and> j \<le> ml_last_index l \<longrightarrow> ml_term_at l j \<noteq> Some t)
    | None \<Rightarrow> \<forall>j. ml_first_index l \<le> j \<and> j \<le> ml_last_index l \<longrightarrow> ml_term_at l j \<noteq> Some t"
  unfolding last_index_of_term_def by (rule last_index_of_term_from_spec [OF assms le_refl])

lemma last_index_of_term_correct_witness:
  "last_index_of_term sample_log 2 = Some 4 \<and> ml_term_at sample_log 4 = Some 2 \<and> ml_term_at sample_log 5 \<noteq> Some 2"
proof -
  have "last_index_of_term sample_log 2 = Some 4"
    by (simp add: sample_log_def node_evals eval_nat_numeral)
  moreover have "terms_sorted sample_log" "ml_last_index sample_log = 5"
    by (simp_all add: terms_sorted_def sample_log_def node_evals)
  ultimately show ?thesis
    using last_index_of_term_correct [OF sample_log_inv, of 2] by simp
qed

section \<open>Commit\<close>

text \<open>How far a voter is known to hold the leader's log, as \<^verbatim>\<open>maybe_advance_commit\<close> reads it.\<close>

definition matched_of :: "'m raft_node \<Rightarrow> peer_id \<Rightarrow> log_index" where
  "matched_of n v = (if v = node_id n then ml_last_index (log n)
     else case node_progress n v of Some p \<Rightarrow> match_index p | None \<Rightarrow> index_zero)"

definition holders :: "'m raft_node \<Rightarrow> log_index \<Rightarrow> peer_id set" where
  "holders n i = {v \<in> set (voters (node_membership n)). i \<le> matched_of n v}"

lemma length_filter_mono:
  "(\<And>x. x \<in> set xs \<Longrightarrow> P x \<Longrightarrow> Q x) \<Longrightarrow> length (filter P xs) \<le> length (filter Q xs)"
  by (induction xs) auto

lemma length_filter_rev_sort: "length (filter P (rev (sort xs))) = length (filter P xs)"
  by (metis filter_sort length_rev length_sort rev_filter)

lemma sort_desc_count:
  fixes xs :: "nat list"
  assumes "p < length xs"
  shows "Suc p \<le> length (filter (\<lambda>x. rev (sort xs) ! p \<le> x) xs)"
proof -
  let ?ys = "rev (sort xs)" and ?P = "\<lambda>x. rev (sort xs) ! p \<le> x"
  have desc: "?ys ! p \<le> ?ys ! j" if "j \<le> p" for j
    using that assms by (simp add: rev_nth) (intro sorted_nth_mono; simp)
  have "set (take (Suc p) ?ys) \<subseteq> Collect ?P"
    using desc assms by (auto simp: in_set_conv_nth)
  then have "filter ?P (take (Suc p) ?ys) = take (Suc p) ?ys" by (auto simp: filter_id_conv)
  then have "Suc p \<le> length (filter ?P (take (Suc p) ?ys @ drop (Suc p) ?ys))"
    using assms by (simp del: append_take_drop_id)
  then show ?thesis by (simp add: length_filter_rev_sort)
qed

lemma sort_desc_max:
  fixes xs :: "nat list"
  assumes "Suc p \<le> length (filter (\<lambda>x. y \<le> x) xs)"
  shows "y \<le> rev (sort xs) ! p"
proof (rule ccontr)
  let ?ys = "rev (sort xs)"
  have p: "p < length xs" using assms by (meson Suc_le_lessD length_filter_le order_less_le_trans)
  assume "\<not> y \<le> ?ys ! p"
  moreover have "?ys ! j \<le> ?ys ! p" if "p \<le> j" "j < length xs" for j
    using that p by (simp add: rev_nth) (intro sorted_nth_mono; simp)
  ultimately have below: "?ys ! j < y" if "p \<le> j" "j < length xs" for j
    using that by (meson linorder_not_le order_trans)
  then have "filter (\<lambda>x. y \<le> x) (drop p ?ys) = []"
    using p by (auto simp: filter_empty_conv in_set_conv_nth not_le)
  then have "length (filter (\<lambda>x. y \<le> x) (take p ?ys @ drop p ?ys)) \<le> p"
    using length_filter_le [of "\<lambda>x. y \<le> x" "take p ?ys"] by (simp del: append_take_drop_id)
  with assms show False by (simp add: length_filter_rev_sort)
qed

lemma holders_card:
  assumes "distinct (voters (node_membership n))"
  shows "card (holders n i) = length (filter (\<lambda>m. i \<le> m) (map (matched_of n) (voters (node_membership n))))"
  using distinct_card [of "filter (\<lambda>v. i \<le> matched_of n v) (voters (node_membership n))"] assms
  by (simp add: holders_def filter_map comp_def)

text \<open>The commit index the rule proposes, and what the rule does with it.\<close>

definition quorum_match :: "'m raft_node \<Rightarrow> log_index" where
  "quorum_match n = rev (sort (map (matched_of n) (voters (node_membership n)))) ! (quorum (node_membership n) - 1)"

lemma quorum_match_held:
  assumes "distinct (voters (node_membership n))" and "voters (node_membership n) \<noteq> []"
  shows "decides (node_membership n) (holders n i) \<longleftrightarrow> i \<le> quorum_match n"
proof -
  let ?vs = "voters (node_membership n)" and ?q = "quorum (node_membership n)"
  let ?xs = "map (matched_of n) ?vs"
  have q: "?q - 1 < length ?xs" "Suc (?q - 1) = ?q"
    using quorum_reachable [OF assms(2)] by (auto simp: quorum_def)
  have "decides (node_membership n) (holders n i) \<longleftrightarrow> ?q \<le> length (filter (\<lambda>m. i \<le> m) ?xs)"
    using assms(2) holders_card [OF assms(1), of i] by (auto simp: decides_def is_quorum_def holders_def)
  also have "\<dots> \<longleftrightarrow> i \<le> quorum_match n"
  proof
    assume "?q \<le> length (filter (\<lambda>m. i \<le> m) ?xs)"
    then show "i \<le> quorum_match n"
      using sort_desc_max [of "?q - 1" i ?xs] q by (simp add: quorum_match_def)
  next
    assume le: "i \<le> quorum_match n"
    have "?q \<le> length (filter (\<lambda>m. quorum_match n \<le> m) ?xs)"
      using sort_desc_count [OF q(1)] q(2) by (simp add: quorum_match_def)
    also have "\<dots> \<le> length (filter (\<lambda>m. i \<le> m) ?xs)"
      using le by (intro length_filter_mono) auto
    finally show "?q \<le> length (filter (\<lambda>m. i \<le> m) ?xs)" .
  qed
  finally show ?thesis .
qed

lemma maybe_advance_commit_eq:
  assumes "voters (node_membership n) \<noteq> []"
  shows "maybe_advance_commit n =
    (if node_role n = Leader \<and> commit_index n < quorum_match n \<and> ml_term_at (log n) (quorum_match n) = Some (node_term n)
     then n\<lparr>commit_index := quorum_match n,
            pending_config := (case pending_config n of
              Some p \<Rightarrow> if p \<le> quorum_match n then None else Some p | None \<Rightarrow> None)\<rparr>
     else n)"
proof -
  have "quorum (node_membership n) - 1 < length (voters (node_membership n))"
    using quorum_reachable [OF assms] by (auto simp: quorum_def)
  then show ?thesis
    unfolding maybe_advance_commit_def quorum_match_def matched_of_def [abs_def] Let_def sat_sub_def
    by (auto split: option.splits)
qed

text \<open>
  C6: the commit rule. The commit index never goes back, and it moves only on a leader, only to
  an entry of the leader's own term, and only when a majority of the configuration in force is
  known to hold that entry.
\<close>

theorem commit_rule:
  assumes "membership_wf (node_membership n)" and "voters (node_membership n) \<noteq> []"
  shows "commit_index n \<le> commit_index (maybe_advance_commit n)
    \<and> (commit_index (maybe_advance_commit n) \<noteq> commit_index n \<longrightarrow>
        node_role n = Leader
        \<and> ml_term_at (log n) (commit_index (maybe_advance_commit n)) = Some (node_term n)
        \<and> decides (node_membership n) (holders n (commit_index (maybe_advance_commit n))))"
proof -
  have "distinct (voters (node_membership n))" using assms(1) by (simp add: membership_wf_def btree_set_def)
  then have "decides (node_membership n) (holders n (quorum_match n))"
    using quorum_match_held [of n "quorum_match n"] assms(2) by simp
  then show ?thesis by (simp add: maybe_advance_commit_eq [OF assms(2)])
qed

definition sample_leader :: "memory_machine raft_node" where
  "sample_leader = (demo_node 1)\<lparr>node_role := Leader, log := sample_log, hard := \<lparr>hs_term = 3, hs_voted_for = Some 1\<rparr>,
     node_progress := [2 \<mapsto> \<lparr>next_index = 6, match_index = 5, last_contact = 0, snapshot_in_flight = False\<rparr>]\<rparr>"

lemma sample_leader_members:
  "membership_wf (node_membership sample_leader)" "voters (node_membership sample_leader) = [1, 2, 3]"
  by (simp_all add: membership_wf_def sample_leader_def demo_node_def demo_voters_def btree_set_def)

lemma sample_matched: "map (matched_of sample_leader) [1, 2, 3] = [5, 5, 0]"
  by (simp add: matched_of_def sample_leader_def demo_node_def sample_log_def node_evals)

lemma sample_commit: "commit_index (maybe_advance_commit sample_leader) = 5"
proof -
  have "quorum_match sample_leader = 5"
    using sample_matched by (simp add: quorum_match_def sample_leader_members quorum_def)
  then show ?thesis
    using sample_leader_members
    by (simp add: maybe_advance_commit_eq) (simp add: sample_leader_def demo_node_def sample_log_def node_evals)
qed

theorem commit_rule_witness:
  "commit_index (maybe_advance_commit sample_leader) = 5 \<and> commit_index sample_leader = 0
   \<and> ml_term_at (log sample_leader) 5 = Some (node_term sample_leader)
   \<and> decides (node_membership sample_leader) (holders sample_leader 5)"
  using commit_rule [OF sample_leader_members(1)] sample_leader_members(2) sample_commit
  by (auto simp: sample_leader_def demo_node_def)

text \<open>
  nothing committable is left behind. On a leader whose log has non-decreasing terms, none
  above its own, every entry of its own term that a majority is known to hold is committed by the
  rule at once.
\<close>

lemma commit_complete:
  assumes "membership_wf (node_membership n)" and "voters (node_membership n) \<noteq> []"
    and "node_role n = Leader" and "log_inv (log n)" and "terms_sorted (log n)"
    and own: "\<And>j t. ml_term_at (log n) j = Some t \<Longrightarrow> t \<le> node_term n"
    and last: "\<And>v. v \<in> set (voters (node_membership n)) \<Longrightarrow> matched_of n v \<le> ml_last_index (log n)"
    and i: "ml_first_index (log n) \<le> i" "ml_term_at (log n) i = Some (node_term n)"
    and held: "decides (node_membership n) (holders n i)"
  shows "i \<le> commit_index (maybe_advance_commit n)"
proof -
  let ?q = "quorum_match n"
  have dist: "distinct (voters (node_membership n))" using assms(1) by (simp add: membership_wf_def btree_set_def)
  have iq: "i \<le> ?q" using held quorum_match_held [OF dist assms(2)] by simp
  have "holders n ?q \<noteq> {}"
    using quorum_match_held [OF dist assms(2), of ?q] majority.quorum_nonempty by blast
  then have ql: "?q \<le> ml_last_index (log n)" using last by (fastforce simp: holders_def)
  obtain t where t: "ml_term_at (log n) ?q = Some t"
    using ml_term_at_some [OF assms(4), of ?q] i(1) iq ql by auto
  then have "t = node_term n"
    using own [OF t] terms_sortedD [OF assms(4,5) i(1) iq ql i(2) t] by simp
  with t assms(2,3) iq show ?thesis by (auto simp: maybe_advance_commit_eq)
qed

lemma commit_complete_witness:
  "decides (node_membership sample_leader) (holders sample_leader 5)
   \<and> 5 \<le> commit_index (maybe_advance_commit sample_leader)"
proof -
  let ?n = sample_leader
  have log: "log ?n = sample_log" "node_role ?n = Leader" "node_term ?n = 3"
    by (simp_all add: sample_leader_def)
  have held: "decides (node_membership ?n) (holders ?n 5)"
    using quorum_match_held [of ?n 5] sample_matched sample_leader_members(2)
    by (simp add: quorum_match_def quorum_def)
  have sorted: "terms_sorted sample_log" and l: "ml_last_index sample_log = 5" "ml_first_index sample_log = 1"
    and t: "ml_term_at sample_log 5 = Some 3"
    by (simp_all add: terms_sorted_def sample_log_def node_evals)
  have own: "t \<le> 3" if "ml_term_at sample_log j = Some t" for j t
  proof (cases "1 \<le> j \<and> j \<le> 5")
    case True
    with that terms_sortedD [OF sample_log_inv sorted, of j 5 t 3] l t show ?thesis by simp
  next
    case False
    with that ml_term_at_past_end [OF sample_log_inv, of j] l show ?thesis by (cases "j = 0") auto
  qed
  have "matched_of ?n v \<le> 5" if "v \<in> set (voters (node_membership ?n))" for v
    using that sample_matched sample_leader_members(2) by auto
  then show ?thesis
    using commit_complete [OF sample_leader_members(1), of 5] sample_leader_members(2) log sample_log_inv
      sorted own l t held by simp
qed

end
