(* ===== verification/Raft_Apply.thy ===== *)
theory Raft_Apply
  imports Raft_Replication
begin

text \<open>
  Applying committed entries and compacting the log, after \<^verbatim>\<open>core/apply.rs\<close>: the loop of
  \<^verbatim>\<open>apply_committed\<close> refines the replay of a range of indices, a snapshot replaces exactly the
  applied prefix, and every operation keeps the log contiguous whatever message it was given.
\<close>

section \<open>Applying\<close>

text \<open>
  The specification: replay the entries at some indices, in order, on a state machine. It stops at
  the first command the machine refuses, naming its index.
\<close>

fun replay :: "'m state_machine \<Rightarrow> memory_log \<Rightarrow> log_index list \<Rightarrow> 'm
    \<Rightarrow> (log_index \<times> string) option \<times> applied_entry list \<times> 'm" where
  "replay M l [] m = (None, [], m)"
| "replay M l (i # is) m =
     (case ml_entry l i of
        None \<Rightarrow> replay M l is m
      | Some e \<Rightarrow>
         (case (case le_payload e of Command c \<Rightarrow> map_prod (map_sum id Some) id (sm_apply M i c m) | _ \<Rightarrow> (Inr None, m)) of
            (Inl reason, m') \<Rightarrow> (Some (i, reason), [], m')
          | (Inr v, m') \<Rightarrow>
              (let (r, as, m'') = replay M l is m'
               in (r, \<lparr>ap_index = i, ap_term = le_term e, ap_result = v\<rparr> # as, m''))))"

definition replayed :: "'m raft_node \<Rightarrow> (log_index \<times> string) option \<times> applied_entry list \<times> 'm \<Rightarrow> (unit, 'm) node_outcome" where
  "replayed n = (\<lambda>(r, as, m).
     case r of
       None \<Rightarrow> ok () (n\<lparr>machine := m, last_applied := commit_index n, applied := applied n @ as\<rparr>)
     | Some (i, reason) \<Rightarrow>
         err (ApplyError i reason) (n\<lparr>machine := m, last_applied := i - 1, applied := applied n @ as\<rparr>))"

lemma apply_loop_replay:
  assumes "commit_index n = last_applied n + k" and "commit_index n \<le> u64_max"
  shows "apply_loop k M n = replayed n (replay M (log n) [Suc (last_applied n) ..< Suc (commit_index n)] (machine n))"
  using assms
proof (induction k arbitrary: n)
  case 0
  then show ?case by (simp add: replayed_def)
next
  case (Suc k)
  let ?i = "Suc (last_applied n)"
  have next_i: "index_next (last_applied n) = ?i" using Suc.prems by (simp add: index_next_exact)
  have range: "[?i ..< Suc (commit_index n)] = ?i # [Suc ?i ..< Suc (commit_index n)]"
    using Suc.prems by (simp add: upt_conv_Cons del: upt_Suc)
  have more: "last_applied n < commit_index n" using Suc.prems by simp
  have go: "apply_loop k M (n\<lparr>machine := m, last_applied := ?i, applied := as\<rparr>) =
      replayed (n\<lparr>machine := m, last_applied := ?i, applied := as\<rparr>)
        (replay M (log n) [Suc ?i ..< Suc (commit_index n)] m)" for m as
    using Suc.IH [of "n\<lparr>machine := m, last_applied := ?i, applied := as\<rparr>"] Suc.prems
    by (simp del: upt_Suc)
  have skip: "apply_loop k M (n\<lparr>last_applied := ?i\<rparr>) =
      replayed (n\<lparr>last_applied := ?i\<rparr>) (replay M (log n) [Suc ?i ..< Suc (commit_index n)] (machine n))"
    using go [where m = "machine n" and as = "applied n"] by simp
  have note_only: "apply_loop k M (n\<lparr>last_applied := ?i, applied := as\<rparr>) =
      replayed (n\<lparr>last_applied := ?i, applied := as\<rparr>) (replay M (log n) [Suc ?i ..< Suc (commit_index n)] (machine n))" for as
    using go [where m = "machine n" and as = as] by simp
  show ?case
    unfolding range
    using more next_i go skip note_only
    by (auto simp: apply_one_def Let_def replayed_def try_then_def ok_def err_def simp del: upt_Suc
        split: option.split entry_payload.split prod.split sum.split)
qed

lemma take_snapshot_log: "\<exists>r l. take_snapshot M n = (r, n\<lparr>log := l\<rparr>)"
proof -
  have same: "n = n\<lparr>log := log n\<rparr>" by simp
  show ?thesis
    unfolding take_snapshot_def Let_def lift_part_def ok_def err_def
    by (auto split: option.split sum.split intro: same)
qed

lemma maybe_compact_log: "\<exists>r l. maybe_compact M n = (r, n\<lparr>log := l\<rparr>)"
proof -
  have same: "n = n\<lparr>log := log n\<rparr>" by simp
  show ?thesis
    using take_snapshot_log [of M n] by (auto simp: maybe_compact_def Let_def ok_def intro: same)
qed

definition replayed_upto :: "memory_log \<Rightarrow> log_index list \<Rightarrow> (log_index \<times> string) option \<Rightarrow> applied_entry list \<Rightarrow> log_index list \<Rightarrow> bool" where
  "replayed_upto l is r as pre \<longleftrightarrow> map ap_index as = filter (\<lambda>i. ml_entry l i \<noteq> None) pre
     \<and> (case r of None \<Rightarrow> is = pre | Some (j, _) \<Rightarrow> \<exists>post. is = pre @ j # post)"

lemma replayed_upto_Cons:
  "replayed_upto l is r as pre \<Longrightarrow> ml_entry l i = None \<Longrightarrow> replayed_upto l (i # is) r as (i # pre)"
  "replayed_upto l is r as pre \<Longrightarrow> ml_entry l i \<noteq> None \<Longrightarrow> ap_index a = i \<Longrightarrow>
     replayed_upto l (i # is) r (a # as) (i # pre)"
  by (auto simp: replayed_upto_def split: option.splits prod.splits)


lemma replay_order: "replay M l is m = (r, as, m') \<Longrightarrow> \<exists>pre. replayed_upto l is r as pre"
proof (induction "is" arbitrary: m r as m')
  case Nil
  then show ?case by (auto simp: replayed_upto_def)
next
  case (Cons i "is")
  show ?case
  proof (cases "ml_entry l i")
    case None
    with Cons.prems have rec: "replay M l is m = (r, as, m')" by simp
    from Cons.IH [OF rec] replayed_upto_Cons(1) [OF _ None] show ?thesis by blast
  next
    case (Some e)
    let ?o = "case le_payload e of Command c \<Rightarrow> map_prod (map_sum id Some) id (sm_apply M i c m) | _ \<Rightarrow> (Inr None, m)"
    obtain q m1 where o: "?o = (q, m1)" by (cases ?o)
    show ?thesis
    proof (cases q)
      case (Inl reason)
      with Some Cons.prems o have "r = Some (i, reason)" "as = []" by simp_all
      then show ?thesis by (intro exI [of _ "[]"]) (simp add: replayed_upto_def)
    next
      case (Inr v)
      obtain r2 as2 m2 where rec: "replay M l is m1 = (r2, as2, m2)" by (cases "replay M l is m1")
      let ?a = "\<lparr>ap_index = i, ap_term = le_term e, ap_result = v\<rparr>"
      have "r = r2" "as = ?a # as2" using Cons.prems Some rec o Inr by simp_all
      moreover have "ml_entry l i \<noteq> None" "ap_index ?a = i" using Some by simp_all
      ultimately show ?thesis using Cons.IH [OF rec] replayed_upto_Cons(2) by blast
    qed
  qed
qed

text \<open>
  What applying means, without a loop: the commands the log holds at some indices, the machine after
  they were fed to it in that order, and the answers it gave on the way.
\<close>

definition commands_at :: "memory_log \<Rightarrow> log_index list \<Rightarrow> (log_index \<times> u8 list) list" where
  "commands_at l = List.map_filter (\<lambda>i. case ml_entry l i of
       Some e \<Rightarrow> (case le_payload e of Command c \<Rightarrow> Some (i, c) | _ \<Rightarrow> None)
     | None \<Rightarrow> None)"

definition fed :: "'m state_machine \<Rightarrow> (log_index \<times> u8 list) list \<Rightarrow> 'm \<Rightarrow> 'm" where
  "fed M = fold (\<lambda>(i, c) m. snd (sm_apply M i c m))"

primrec machine_replies :: "'m state_machine \<Rightarrow> (log_index \<times> u8 list) list \<Rightarrow> 'm \<Rightarrow> (string + u8 list) list" where
  "machine_replies M [] m = []"
| "machine_replies M (x # xs) m = fst (sm_apply M (fst x) (snd x) m) # machine_replies M xs (snd (sm_apply M (fst x) (snd x) m))"

lemma fed_simps [simp]: "fed M [] m = m" "fed M ((i, c) # xs) m = fed M xs (snd (sm_apply M i c m))"
  by (simp_all add: fed_def)

lemma commands_at_simps [simp]:
  "commands_at l [] = []"
  "commands_at l (i # is) = (case ml_entry l i of
       Some e \<Rightarrow> (case le_payload e of Command c \<Rightarrow> (i, c) # commands_at l is | _ \<Rightarrow> commands_at l is)
     | None \<Rightarrow> commands_at l is)"
  by (auto simp: commands_at_def map_filter_simps split: option.split entry_payload.split)

lemma map_sum_eq_Inr: "map_sum f g x = Inr v \<longleftrightarrow> (\<exists>w. x = Inr w \<and> v = g w)"
  by (cases x) auto


lemma replay_complete:
  "replay M l is m = (None, as, m') \<Longrightarrow>
     m' = fed M (commands_at l is) m
     \<and> map Inr (List.map_filter ap_result as) = machine_replies M (commands_at l is) m
     \<and> map (\<lambda>a. (ap_index a, ap_term a)) as =
         List.map_filter (\<lambda>i. map_option (\<lambda>e. (i, le_term e)) (ml_entry l i)) is"
proof (induction "is" arbitrary: m as m')
  case Nil
  then show ?case by (simp add: map_filter_simps)
next
  case (Cons i "is")
  show ?case
  proof (cases "ml_entry l i")
    case None
    with Cons show ?thesis by (simp add: map_filter_simps)
  next
    case (Some e)
    let ?o = "case le_payload e of Command c \<Rightarrow> map_prod (map_sum id Some) id (sm_apply M i c m) | _ \<Rightarrow> (Inr None, m)"
    obtain v m1 where o: "?o = (Inr v, m1)"
      using Cons.prems Some by (auto split: prod.splits sum.splits)
    obtain as2 where rec: "replay M l is m1 = (None, as2, m')"
      and as: "as = \<lparr>ap_index = i, ap_term = le_term e, ap_result = v\<rparr> # as2"
      using Cons.prems Some o by (auto split: prod.splits)
    from o have "case le_payload e of
        Command c \<Rightarrow> (\<exists>w. v = Some w \<and> sm_apply M i c m = (Inr w, m1)) | _ \<Rightarrow> v = None \<and> m1 = m"
      by (cases "le_payload e") (auto simp: map_prod_def split_beta map_sum_eq_Inr prod_eq_iff)
    with Cons.IH [OF rec] Some as show ?thesis
      by (auto simp: map_filter_simps split: entry_payload.splits)
  qed
qed


text \<open>
  C7: committed entries are applied exactly once, in order and on the state machine. After a
  successful \<^verbatim>\<open>apply_committed\<close> everything committed is applied; the machine is the one that was fed
  every command held between the old applied index and the commit index, each once, in index order,
  with its own index; and the reports added are one for each held entry in that range, with its
  index and term, those of commands with the answer the machine gave at that point.
\<close>

theorem apply_exactly_once:
  assumes "last_applied n \<le> commit_index n" and "commit_index n \<le> u64_max"
    and "apply_committed M n = (Inr (), n')"
  shows "let due = [Suc (last_applied n) ..< Suc (commit_index n)] in
      last_applied n' = commit_index n \<and> commit_index n' = commit_index n
    \<and> machine n' = fed M (commands_at (log n) due) (machine n)
    \<and> (\<exists>as. applied n' = applied n @ as
        \<and> map ap_index as = filter (\<lambda>i. ml_entry (log n) i \<noteq> None) due
        \<and> map (\<lambda>a. (ap_index a, ap_term a)) as =
            List.map_filter (\<lambda>i. map_option (\<lambda>e. (i, le_term e)) (ml_entry (log n) i)) due
        \<and> map Inr (List.map_filter ap_result as) = machine_replies M (commands_at (log n) due) (machine n))"
proof -
  let ?due = "[Suc (last_applied n) ..< Suc (commit_index n)]"
  obtain r as m where rep: "replay M (log n) ?due (machine n) = (r, as, m)"
    by (cases "replay M (log n) ?due (machine n)") auto
  have loop: "apply_loop (commit_index n - last_applied n) M n = replayed n (r, as, m)"
    using apply_loop_replay [of n "commit_index n - last_applied n" M] assms(1,2) rep by simp
  have r: "r = None"
    using assms(3) loop by (cases r) (auto simp: apply_committed_def replayed_def try_then_def err_def)
  let ?n = "n\<lparr>machine := m, last_applied := commit_index n, applied := applied n @ as\<rparr>"
  have "maybe_compact M ?n = (Inr (), n')"
    using assms(3) loop r by (simp add: apply_committed_def replayed_def try_then_def ok_def)
  then obtain l where "n' = ?n\<lparr>log := l\<rparr>" using maybe_compact_log [of M ?n] by auto
  moreover have "map ap_index as = filter (\<lambda>i. ml_entry (log n) i \<noteq> None) ?due"
    using replay_order [OF rep] r by (auto simp: replayed_upto_def)
  ultimately show ?thesis using replay_complete [OF rep [unfolded r]] by (simp add: Let_def)
qed

text \<open>A follower that learns of a committed log holding two commands and a no-op.\<close>

definition due_node :: "memory_machine raft_node" where
  "due_node = (demo_node 1)\<lparr>log := \<lparr>ml_hard = \<lparr>hs_term = 1, hs_voted_for = None\<rparr>,
       ml_held = [entry_new 1 1 Noop, entry_new 1 2 (Command [7]), entry_new 1 3 (Command [8])], ml_snap = None\<rparr>,
     commit_index := 3\<rparr>"

theorem apply_exactly_once_witness:
  "\<exists>n'. apply_committed demo_machine due_node = (Inr (), n') \<and> last_applied n' = 3
     \<and> mm_commands (machine n') = [[7], [8]] \<and> map ap_index (applied n') = [1, 2, 3]"
proof -
  have n: "last_applied due_node = 0" "commit_index due_node = 3" "applied due_node = []"
      "machine due_node = memory_machine_new"
    by (simp_all add: due_node_def demo_node_def)
  have "\<exists>n'. apply_committed demo_machine due_node = (Inr (), n')"
    by (simp add: due_node_def demo_evals node_evals numeral_3_eq_3)
  then obtain n' where n': "apply_committed demo_machine due_node = (Inr (), n')" by blast
  have due: "[Suc 0 ..< 4] = [1, 2, 3]" by (simp add: upt_rec)
  have held: "ml_entry (log due_node) (Suc 0) = Some (entry_new 1 1 Noop)"
      "ml_entry (log due_node) 2 = Some (entry_new 1 2 (Command [7]))"
      "ml_entry (log due_node) 3 = Some (entry_new 1 3 (Command [8]))"
    by (simp_all add: due_node_def node_evals)
  have "commands_at (log due_node) [1, 2, 3] = [(2, [7]), (3, [8])]"
    by (simp add: held entry_new_def)
  then have "mm_commands (fed demo_machine (commands_at (log due_node) [1, 2, 3]) memory_machine_new) = [[7], [8]]"
    by (simp add: demo_evals node_evals)
  with apply_exactly_once [OF _ _ n'] n' held show ?thesis
    by (auto simp: n due u64_max_eq Let_def)
qed


definition refusing_machine :: "unit state_machine" where
  "refusing_machine = \<lparr>sm_apply = (\<lambda>_ _. err ''refused''), sm_snapshot = (\<lambda>_. Inr []),
     sm_restore = (\<lambda>_. ok ()), sm_applied_index = (\<lambda>_. 0)\<rparr>"

definition stuck_node :: "unit raft_node" where
  "stuck_node = \<lparr>config = demo_config 1, node_role = Follower, hard = \<lparr>hs_term = 1, hs_voted_for = None\<rparr>,
     leader = None, log = \<lparr>ml_hard = \<lparr>hs_term = 1, hs_voted_for = None\<rparr>,
       ml_held = [entry_new 1 1 Noop, entry_new 1 2 (Command [7])], ml_snap = None\<rparr>,
     machine = (), commit_index = 2, last_applied = 0, node_membership = demo_voters,
     node_progress = Map.empty, votes = [], election_elapsed = 0, heartbeat_elapsed = 0,
     randomized_timeout = 2, node_rng = 1, outbox = [], applied = [], pending_config = None, ticks = 0\<rparr>"


section \<open>Snapshots\<close>

lemma filter_mono_drop:
  assumes "\<And>k. k < length xs \<Longrightarrow> idx (xs ! k) = f k" and "\<And>j k. j \<le> k \<Longrightarrow> f j \<le> f k"
  shows "\<exists>d \<le> length xs. filter (\<lambda>e. keep \<le> idx e) xs = drop d xs
    \<and> (\<forall>k < d. f k < keep) \<and> (d < length xs \<longrightarrow> (keep :: nat) \<le> f d)"
  using assms
proof (induction xs arbitrary: f)
  case Nil
  then show ?case by simp
next
  case (Cons x xs)
  show ?case
  proof (cases "keep \<le> f 0")
    case True
    have "keep \<le> idx y" if "y \<in> set (x # xs)" for y
    proof -
      from that obtain k where k: "k < length (x # xs)" "y = (x # xs) ! k" by (metis in_set_conv_nth)
      then have "idx y = f k" using Cons.prems(1) by simp
      with True Cons.prems(2) [of 0 k] show ?thesis by simp
    qed
    then have "filter (\<lambda>e. keep \<le> idx e) (x # xs) = x # xs" by (intro filter_True) blast
    with True show ?thesis by (intro exI [of _ 0]) simp
  next
    case False
    have "\<exists>d \<le> length xs. filter (\<lambda>e. keep \<le> idx e) xs = drop d xs
        \<and> (\<forall>k < d. f (Suc k) < keep) \<and> (d < length xs \<longrightarrow> keep \<le> f (Suc d))"
      using Cons.prems(1) [of "Suc k" for k] Cons.prems(2) by (intro Cons.IH) auto
    then obtain d where d: "d \<le> length xs" "filter (\<lambda>e. keep \<le> idx e) xs = drop d xs"
        "\<forall>k < d. f (Suc k) < keep" "d < length xs \<longrightarrow> keep \<le> f (Suc d)" by blast
    have "idx x = f 0" using Cons.prems(1) [of 0] by simp
    with False d show ?thesis by (intro exI [of _ "Suc d"]) (simp add: All_less_Suc2)
  qed
qed

lemma sat_add_mono: "j \<le> k \<Longrightarrow> sat_add a j \<le> sat_add a k"
  by (auto simp: sat_add_def)

lemma sat_add_step: "sat_add a (Suc k) \<le> Suc (sat_add a k)"
  by (auto simp: sat_add_def)

lemma ml_save_snapshot_drop:
  assumes wf: "log_wf l" and s: "ml_save_snapshot s l = Inr l'"
  shows "\<exists>d. ml_held l' = drop d (ml_held l) \<and> ml_snap l' = Some s \<and> ml_hard l' = ml_hard l
    \<and> ml_first_index l \<le> ml_first_index l' \<and> (\<forall>k < d. sat_add (ml_first_index l) k < ml_first_index l')
    \<and> (d < length (ml_held l) \<longrightarrow> sat_add (ml_first_index l) d = ml_first_index l')"
proof -
  let ?keep = "index_next (sm_last_index (snap_meta s))" and ?f = "sat_add (ml_first_index l)"
  have l': "l' = l\<lparr>ml_held := filter (\<lambda>e. ?keep \<le> le_index e) (ml_held l), ml_snap := Some s\<rparr>"
    and old: "\<And>prior. ml_snap l = Some prior \<Longrightarrow> sm_last_index (snap_meta prior) \<le> sm_last_index (snap_meta s)"
    using s by (auto simp: ml_save_snapshot_def Let_def split: option.splits if_splits)
  have first': "ml_first_index l' = ?keep" by (simp add: l' ml_first_index_def)
  have ge: "ml_first_index l \<le> ?keep"
    using old by (auto simp: ml_first_index_def index_next_def index_first_def sat_add_def
        u64_max_eq split: option.splits)
  obtain d where d: "filter (\<lambda>e. ?keep \<le> le_index e) (ml_held l) = drop d (ml_held l)"
      "\<forall>k < d. ?f k < ?keep" "d < length (ml_held l) \<longrightarrow> ?keep \<le> ?f d"
    using filter_mono_drop [of "ml_held l" le_index ?f ?keep] wf sat_add_mono by (auto simp: log_wf_def)
  have "?f d \<le> ?keep"
    using d(2) ge sat_add_step [of "ml_first_index l" "d - 1"] by (cases d) (auto simp: Suc_le_eq)
  moreover have "ml_held l' = drop d (ml_held l)" "ml_snap l' = Some s" "ml_hard l' = ml_hard l"
    by (simp_all add: l' d(1))
  ultimately show ?thesis using first' ge d(2,3) by (intro exI [of _ d]) auto
qed

lemma ml_save_snapshot_wf: "log_wf l \<Longrightarrow> ml_save_snapshot s l = Inr l' \<Longrightarrow> log_wf l'"
proof -
  assume wf: "log_wf l" and s: "ml_save_snapshot s l = Inr l'"
  obtain d where d: "ml_held l' = drop d (ml_held l)"
      "d < length (ml_held l) \<longrightarrow> sat_add (ml_first_index l) d = ml_first_index l'"
    using ml_save_snapshot_drop [OF wf s] by blast
  show "log_wf l'"
    unfolding log_wf_def
  proof (intro allI impI)
    fix k assume k: "k < length (ml_held l')"
    with d have "le_index (ml_held l' ! k) = sat_add (ml_first_index l) (d + k)"
      using wf by (simp add: log_wf_def)
    also have "\<dots> = sat_add (sat_add (ml_first_index l) d) k" by (simp add: sat_add_assoc)
    finally show "le_index (ml_held l' ! k) = sat_add (ml_first_index l') k" using d k by simp
  qed
qed

lemma ml_save_snapshot_keeps:
  assumes inv: "log_inv l" and b: "sm_last_index (snap_meta s) = b" "b \<le> ml_last_index l"
    and s: "ml_save_snapshot s l = Inr l'"
  shows "log_inv l'" and "ml_first_index l' = Suc b" and "ml_last_index l' = ml_last_index l"
    and "b < i \<Longrightarrow> ml_entry l' i = ml_entry l i"
proof -
  have wf: "log_wf l" using inv by (simp add: log_inv_def)
  obtain d where d: "ml_held l' = drop d (ml_held l)" "ml_snap l' = Some s"
      "ml_first_index l \<le> ml_first_index l'" "\<forall>k < d. sat_add (ml_first_index l) k < ml_first_index l'"
      "d < length (ml_held l) \<longrightarrow> sat_add (ml_first_index l) d = ml_first_index l'"
    using ml_save_snapshot_drop [OF wf s] by blast
  have bu: "b < u64_max" using ml_last_index_bound [OF inv] b(2) by simp
  then show first': "ml_first_index l' = Suc b"
    using d(2) b(1) by (simp add: ml_first_index_def index_next_exact)
  have exact: "sat_add (ml_first_index l) k = ml_first_index l + k" if "k \<le> length (ml_held l)" for k
    using inv that by (simp add: log_inv_def log_fits_def sat_add_exact)
  note last = ml_last_index_eq [OF inv]
  have d': "Suc b + length (ml_held l') = Suc (ml_last_index l)"
  proof (cases "d < length (ml_held l)")
    case True
    with d(5) exact [of d] first' last show ?thesis by (simp add: d(1))
  next
    case False
    have "ml_last_index l \<le> b"
    proof (cases "ml_held l")
      case Nil
      with d(3) first' last show ?thesis by simp
    next
      case (Cons e es)
      then have "sat_add (ml_first_index l) (length es) < Suc b" using d(4) first' False by simp
      with exact [of "length es"] Cons last show ?thesis by simp
    qed
    with b(2) False show ?thesis by (simp add: d(1))
  qed
  then have "Suc b + length (ml_held l') \<le> u64_max" using ml_last_index_bound [OF inv] by simp
  with first' d(2) b(1) bu ml_save_snapshot_wf [OF wf s] show inv': "log_inv l'"
    by (simp add: log_inv_def log_fits_def)
  show last': "ml_last_index l' = ml_last_index l" using ml_last_index_eq [OF inv'] first' d' by simp
  show "ml_entry l' i = ml_entry l i" if "b < i"
  proof (cases "i \<le> ml_last_index l")
    case True
    then have "d < length (ml_held l)" using d' that by (simp add: d(1))
    moreover from this d(5) exact [of d] first' have fd: "ml_first_index l + d = Suc b" by simp
    moreover have "d + (i - Suc b) = i - ml_first_index l" using fd that by linarith
    ultimately show ?thesis
      using True that first' last' by (simp add: ml_entry_eq [OF inv] ml_entry_eq [OF inv'] d(1))
  qed (simp add: ml_entry_eq [OF inv] ml_entry_eq [OF inv'] last')
qed

text \<open>
  C26: compaction loses nothing that is still needed. A snapshot taken on a well-formed log keeps
  the log well formed, keeps every entry above the applied index and the term at it, and leaves
  the last index and last term alone, so replication and elections see the same log. Nothing but
  the log changes.
\<close>

theorem take_snapshot_keeps_suffix:
  assumes inv: "log_inv (log n)" and last: "last_applied n \<le> ml_last_index (log n)"
    and ok: "take_snapshot M n = (Inr (), n')"
  shows "log_inv (log n') \<and> n' = n\<lparr>log := log n'\<rparr>
    \<and> ml_last_index (log n') = ml_last_index (log n) \<and> ml_last_term (log n') = ml_last_term (log n)
    \<and> (\<forall>i > last_applied n. ml_entry (log n') i = ml_entry (log n) i)
    \<and> (\<forall>i \<ge> last_applied n. ml_term_at (log n') i = ml_term_at (log n) i)"
proof (cases "n' = n")
  case True
  with inv show ?thesis by simp
next
  case False
  let ?b = "last_applied n"
  obtain t bytes l' where t: "ml_term_at (log n) ?b = Some t" "?b \<noteq> 0"
      and n': "n' = n\<lparr>log := l'\<rparr>"
      and s: "ml_save_snapshot \<lparr>snap_meta = snapshot_meta_new ?b t (node_membership n), snap_data = bytes\<rparr> (log n) = Inr l'"
    using ok False
    by (auto simp: take_snapshot_def Let_def lift_part_def ok_def err_def is_empty_sentinel_def
        split: if_splits option.splits sum.splits)
  note keeps = ml_save_snapshot_keeps [OF inv _ last s]
  have l': "log_inv l'" "ml_first_index l' = Suc ?b" "ml_last_index l' = ml_last_index (log n)"
      "\<And>i. ?b < i \<Longrightarrow> ml_entry l' i = ml_entry (log n) i"
    using keeps by (simp_all add: snapshot_meta_new_def)
  have at_b: "ml_term_at l' ?b = Some t"
    using s t(2) by (auto simp: ml_term_at_def is_empty_sentinel_def ml_save_snapshot_def Let_def
        snapshot_meta_new_def split: if_splits option.splits)
  have first: "ml_first_index (log n) \<le> Suc ?b"
  proof (rule ccontr)
    assume "\<not> ?thesis"
    then have "ml_term_at (log n) ?b = None"
      using t(2) inv by (auto simp: ml_term_at_def is_empty_sentinel_def ml_first_index_def log_inv_def
          log_fits_def index_next_exact ml_entry_def ml_position_def split: option.splits)
    with t show False by simp
  qed
  have terms: "ml_term_at l' i = ml_term_at (log n) i" if "?b \<le> i" for i
  proof (cases "i = ?b")
    case True
    with at_b t show ?thesis by simp
  next
    case False
    with that l' first inv show ?thesis by (simp add: ml_term_at_held)
  qed
  have "ml_last_term l' = ml_last_term (log n)"
    using terms [OF last] ml_last_term_at [OF inv] ml_last_term_at [OF l'(1)] l'(3) last t(2)
    by (metis le_zero_eq option.inject)
  with l' n' terms show ?thesis by simp
qed

theorem take_snapshot_keeps_suffix_witness:
  "\<exists>n'. take_snapshot refusing_machine (stuck_node\<lparr>last_applied := 1\<rparr>) = (Inr (), n')
     \<and> ml_first_index (log n') = 2 \<and> ml_entry (log n') 2 = Some (entry_new 1 2 (Command [7]))
     \<and> ml_term_at (log n') 1 = Some 1"
proof -
  let ?n = "stuck_node\<lparr>last_applied := 1\<rparr>"
  have "\<exists>n'. take_snapshot refusing_machine ?n = (Inr (), n') \<and> ml_first_index (log n') = 2"
    by (simp add: stuck_node_def refusing_machine_def node_evals)
  then obtain n' where n': "take_snapshot refusing_machine ?n = (Inr (), n')" "ml_first_index (log n') = 2"
    by blast
  have inv: "log_inv (log ?n)"
    by (simp add: stuck_node_def log_inv_def log_wf_def log_fits_def ml_first_index_def index_first_def
        entry_new_def sat_add_def u64_max_eq All_less_Suc)
  have "ml_last_index (log ?n) = 2" "ml_entry (log ?n) 2 = Some (entry_new 1 2 (Command [7]))"
    "ml_term_at (log ?n) 1 = Some 1"
    by (simp_all add: stuck_node_def node_evals)
  with take_snapshot_keeps_suffix [OF inv _ n'(1)] n' show ?thesis by auto
qed

end
