(* ===== verification/Raft_Frame.thy ===== *)
theory Raft_Frame
  imports Raft_Node
begin

text \<open>
  What the replication half of a replica leaves alone. Every operation of
  \<^verbatim>\<open>core/replication.rs\<close> and \<^verbatim>\<open>core/apply.rs\<close> keeps the configuration, the hard state, the role
  and the votes, sends no vote, and, as long as no configuration entry is in the log or in the
  message it handles, keeps the membership. These facts are one preorder on replicas, carried
  through the operations by the locale \<open>state_preorder\<close>.
\<close>

section \<open>Executions without membership changes\<close>

definition static_entries :: "log_entry list \<Rightarrow> bool" where
  "static_entries es \<longleftrightarrow> list_all (\<lambda>e. \<not> is_config e) es"

definition static_log :: "membership \<Rightarrow> memory_log \<Rightarrow> bool" where
  "static_log V l \<longleftrightarrow> static_entries (ml_held l)
     \<and> (case ml_snap l of Some s \<Rightarrow> sm_membership (snap_meta s) = V | None \<Rightarrow> True)"

definition static_node :: "membership \<Rightarrow> 'm raft_node \<Rightarrow> bool" where
  "static_node V n \<longleftrightarrow> node_membership n = V \<and> initial_membership (config n) = V \<and> static_log V (log n)"

fun static_msg :: "membership \<Rightarrow> raft_message \<Rightarrow> bool" where
  "static_msg V (AppendEntries _ _ _ es _) = static_entries es"
| "static_msg V (InstallSnapshot _ s) = (sm_membership (snap_meta s) = V)"
| "static_msg V _ = True"

fun is_vote_grant :: "raft_message \<Rightarrow> bool" where
  "is_vote_grant (VoteResponse _ True) = True"
| "is_vote_grant _ = False"

lemma static_entries_simps [simp]:
  "static_entries []"
  "static_entries (e # es) \<longleftrightarrow> \<not> is_config e \<and> static_entries es"
  "static_entries (es @ fs) \<longleftrightarrow> static_entries es \<and> static_entries fs"
  by (simp_all add: static_entries_def)

lemma static_entries_subset: "set es \<subseteq> set fs \<Longrightarrow> static_entries fs \<Longrightarrow> static_entries es"
  by (auto simp: static_entries_def list_all_iff)

lemma static_entries_take [simp]: "static_entries es \<Longrightarrow> static_entries (take k es)"
  by (rule static_entries_subset [of _ es]) (auto dest: in_set_takeD)

lemma static_entries_drop [simp]: "static_entries es \<Longrightarrow> static_entries (drop k es)"
  by (rule static_entries_subset [of _ es]) (auto dest: in_set_dropD)

lemma static_entries_filter [simp]: "static_entries es \<Longrightarrow> static_entries (filter P es)"
  by (rule static_entries_subset [of _ es]) auto

lemma static_no_config: "static_entries es \<Longrightarrow> \<not> list_ex is_config es"
  by (simp add: static_entries_def list_ex_iff list_all_iff)

lemma from_entries_static: "static_entries es \<Longrightarrow> from_entries base es = base"
  by (induction es arbitrary: base) (auto simp: is_config_def split: entry_payload.splits)

lemma ml_entries_static:
  "static_log V l \<Longrightarrow> ml_entries l from k = Inr es \<Longrightarrow> static_entries es"
  by (auto simp: static_log_def ml_entries_def Let_def split: if_splits option.splits)

section \<open>The frame\<close>

definition frame :: "membership \<Rightarrow> 'm raft_node \<Rightarrow> 'm raft_node \<Rightarrow> bool" where
  "frame V n n' \<longleftrightarrow>
     config n' = config n \<and> hard n' = hard n \<and> node_role n' = node_role n \<and> votes n' = votes n
     \<and> ml_hard (log n') = ml_hard (log n)
     \<and> (static_node V n \<longrightarrow> static_node V n')
     \<and> (\<exists>ms. outbox n' = outbox n @ ms
          \<and> (\<forall>e \<in> set ms. env_from e = node_id n \<and> \<not> is_vote_grant (env_message e)
                \<and> (static_node V n \<longrightarrow> static_msg V (env_message e))))"

interpretation frm: state_preorder "frame V" for V
proof
  fix s :: "'m raft_node"
  show "frame V s s" by (simp add: frame_def)
next
  fix s t u :: "'m raft_node"
  assume st: "frame V s t" and tu: "frame V t u"
  obtain ms where ms: "outbox t = outbox s @ ms"
      "\<forall>e \<in> set ms. env_from e = node_id s \<and> \<not> is_vote_grant (env_message e)
        \<and> (static_node V s \<longrightarrow> static_msg V (env_message e))"
    using st by (auto simp: frame_def)
  obtain ns where ns: "outbox u = outbox t @ ns"
      "\<forall>e \<in> set ns. env_from e = node_id t \<and> \<not> is_vote_grant (env_message e)
        \<and> (static_node V t \<longrightarrow> static_msg V (env_message e))"
    using tu by (auto simp: frame_def)
  have "config t = config s" "static_node V s \<longrightarrow> static_node V t" using st by (auto simp: frame_def)
  with ms ns have "\<exists>ms. outbox u = outbox s @ ms
      \<and> (\<forall>e \<in> set ms. env_from e = node_id s \<and> \<not> is_vote_grant (env_message e)
            \<and> (static_node V s \<longrightarrow> static_msg V (env_message e)))"
    by (intro exI [of _ "ms @ ns"]) auto
  with st tu show "frame V s u" by (simp add: frame_def)
qed

text \<open>An update that touches none of the framed fields.\<close>

lemma frame_update:
  assumes "config n' = config n" "hard n' = hard n" "node_role n' = node_role n" "votes n' = votes n"
    "log n' = log n" "node_membership n' = node_membership n" "outbox n' = outbox n"
  shows "frame V n n'"
  using assms by (simp add: frame_def static_node_def)

lemma frame_log:
  assumes "ml_hard l = ml_hard (log n)" and "static_log V (log n) \<Longrightarrow> static_log V l"
  shows "frame V n (n\<lparr>log := l\<rparr>)"
  using assms by (simp add: frame_def static_node_def)

lemma frame_send:
  assumes "\<not> is_vote_grant msg" and "static_node V n \<Longrightarrow> static_msg V msg"
  shows "frame V n (send to msg n)"
  using assms by (auto simp: frame_def static_node_def send_def envelope_new_def)

lemma frame_trans_update:
  assumes "frame V s n"
    "config n' = config n" "hard n' = hard n" "node_role n' = node_role n" "votes n' = votes n"
    "log n' = log n" "node_membership n' = node_membership n" "outbox n' = outbox n"
  shows "frame V s n'"
  using assms(1) frame_update [OF assms(2-8)] by (rule frm.rel_trans)

section \<open>The log operations\<close>

lemma ml_append_static:
  "ml_append es l = Inr l' \<Longrightarrow> ml_hard l' = ml_hard l \<and> (static_entries es \<longrightarrow> static_log V l \<longrightarrow> static_log V l')"
  by (auto simp: ml_append_def static_log_def split: sum.splits)

lemma ml_truncate_static:
  "ml_truncate_from i l = Inr l' \<Longrightarrow> ml_hard l' = ml_hard l \<and> (static_log V l \<longrightarrow> static_log V l')"
  by (auto simp: ml_truncate_from_def static_log_def Let_def split: if_splits option.splits)

lemma ml_save_snapshot_static:
  "ml_save_snapshot s l = Inr l' \<Longrightarrow>
     ml_hard l' = ml_hard l \<and> (sm_membership (snap_meta s) = V \<longrightarrow> static_log V l \<longrightarrow> static_log V l')"
  by (auto simp: ml_save_snapshot_def static_log_def Let_def split: if_splits)

lemma frame_lift_part:
  assumes "\<And>l. r = Inr l \<Longrightarrow> ml_hard l = ml_hard (log n) \<and> (static_log V (log n) \<longrightarrow> static_log V l)"
  shows "frame V n (snd (lift_part r (\<lambda>l n. n\<lparr>log := l\<rparr>) n))"
  using assms by (cases r) (auto simp: lift_part_def frm.rel_refl intro: frame_log)

section \<open>The operations\<close>

lemma recompute_membership_frame: "frame V n (snd (recompute_membership n))"
proof (cases "ml_entries (log n) (ml_first_index (log n))
    (sat_add (distance_to (ml_first_index (log n)) (ml_last_index (log n))) 1)")
  case (Inl e)
  then show ?thesis by (simp add: recompute_membership_def frm.rel_refl)
next
  case (Inr held)
  have "static_node V n \<Longrightarrow> node_membership (snd (recompute_membership n)) = V"
    using Inr ml_entries_static [OF _ Inr, of V]
    by (auto simp: recompute_membership_def static_node_def static_log_def ml_snapshot_meta_def
        from_entries_static split: option.splits)
  with Inr show ?thesis
    by (auto simp: recompute_membership_def frame_def static_node_def)
qed

lemma take_snapshot_frame: "frame V n (snd (take_snapshot M n))"
proof -
  have "ml_hard l = ml_hard (log n) \<and> (static_log V (log n) \<longrightarrow> static_log V l)"
    if "ml_save_snapshot \<lparr>snap_meta = snapshot_meta_new i t (node_membership n), snap_data = b\<rparr> (log n) = Inr l"
      and "node_membership n = V" for i t b l
    using ml_save_snapshot_static [OF that(1)] that(2) by (simp add: snapshot_meta_new_def)
  moreover have "ml_hard l = ml_hard (log n)"
    if "ml_save_snapshot s (log n) = Inr l" for s l
    using ml_save_snapshot_static [OF that] by simp
  ultimately show ?thesis
    by (auto simp: take_snapshot_def Let_def lift_part_def frame_def static_node_def
        split: option.split sum.split)
qed

lemma maybe_compact_frame: "frame V n (snd (maybe_compact M n))"
  by (simp add: maybe_compact_def Let_def frm.rel_refl take_snapshot_frame)

lemma apply_one_frame: "frame V n (snd (apply_one M n))"
  by (auto simp: apply_one_def Let_def intro: frame_update
      split: option.split entry_payload.split prod.split sum.split)

lemma apply_loop_frame: "frame V n (snd (apply_loop fuel M n))"
proof (induction fuel arbitrary: n)
  case 0
  then show ?case by (simp add: frm.rel_refl)
next
  case (Suc fuel)
  then show ?case
    by (auto simp: frm.rel_refl intro!: frm.rel_try_then apply_one_frame intro: frm.rel_trans)
qed

lemma apply_committed_frame: "frame V n (snd (apply_committed M n))"
  unfolding apply_committed_def
  by (intro frm.rel_try_then apply_loop_frame) (blast intro: frm.rel_trans maybe_compact_frame)

lemma maybe_advance_commit_frame: "frame V n (maybe_advance_commit n)"
  by (auto simp: maybe_advance_commit_def Let_def intro!: frame_update split: option.split)

lemma send_snapshot_frame: "frame V n (send_snapshot peer n)"
proof (cases "ml_snap (log n)")
  case None
  then show ?thesis by (auto simp: send_snapshot_def intro!: frame_update split: option.split)
next
  case (Some s)
  have ship: "frame V n (send peer (InstallSnapshot t s) n')"
    if "frame V n n'" and "log n' = log n" for n' t
    by (rule frm.rel_trans [OF that(1)], rule frame_send)
      (use Some that(2) in \<open>auto simp: static_node_def static_log_def\<close>)
  from Some show ?thesis
    by (auto simp: send_snapshot_def Let_def intro!: ship intro: frame_update split: option.split)
qed

lemma send_append_frame: "frame V n (snd (send_append peer n))"
  by (auto simp: send_append_def Let_def frm.rel_refl send_snapshot_frame static_node_def
      intro!: frame_send dest: ml_entries_static split: option.split sum.split)

lemma broadcast_append_frame: "frame V n (snd (broadcast_append n))"
  unfolding broadcast_append_def
  by (rule frm.rel_for_each) (blast intro: frm.rel_trans send_append_frame frm.rel_refl)+

lemma reset_progress_frame: "frame V n (reset_progress n)"
  by (simp add: reset_progress_def Let_def frame_update)

lemma note_contact_frame: "frame V n (note_contact peer n)"
  by (auto simp: note_contact_def intro: frame_update split: option.split)

lemma reset_election_timer_frame: "frame V n (reset_election_timer n)"
  by (auto simp: reset_election_timer_def Let_def intro!: frame_update split: prod.split)

text \<open>The same facts as rules that push the frame through one more operation.\<close>

lemmas frame_after =
  frm.rel_trans [OF _ recompute_membership_frame] frm.rel_trans [OF _ apply_committed_frame]
  frm.rel_trans [OF _ maybe_advance_commit_frame] frm.rel_trans [OF _ send_snapshot_frame]
  frm.rel_trans [OF _ send_append_frame] frm.rel_trans [OF _ broadcast_append_frame]
  frm.rel_trans [OF _ reset_progress_frame] frm.rel_trans [OF _ note_contact_frame]
  frm.rel_trans [OF _ reset_election_timer_frame] frm.rel_try_then frm.rel_ok frm.rel_err

lemma merge_entries_frame:
  assumes "static_entries entries"
  shows "frame V n (snd (merge_entries entries n))"
proof -
  obtain k cut where scan: "merge_scan (log n) entries = (k, cut)" by fastforce
  have trunc: "frame V n (snd (case cut of
      Some i \<Rightarrow> lift_part (ml_truncate_from i (log n)) (\<lambda>l n. n\<lparr>log := l\<rparr>) n | None \<Rightarrow> ok () n))"
    by (auto simp: frm.rel_refl intro!: frame_lift_part dest: ml_truncate_static split: option.split)
  have app: "frame V t (snd (lift_part (ml_append (drop k entries) (log t)) (\<lambda>l n. n\<lparr>log := l\<rparr>) t))"
    for t :: "'a raft_node"
    using assms by (intro frame_lift_part) (auto dest!: ml_append_static [where V = V])
  show ?thesis
    unfolding merge_entries_def scan Let_def case_prod_conv
    by (intro frm.rel_try_then trunc)
      (auto intro: frame_after frm.rel_trans app)
qed

lemma append_local_frame:
  assumes "\<forall>m. payload \<noteq> Config m"
  shows "frame V n (snd (append_local M payload n))"
proof (cases "is_leader (node_role n)")
  case True
  let ?e = "entry_new (node_term n) (index_next (ml_last_index (log n))) payload"
  have cfg: "entry_config ?e = None"
    using assms by (simp add: entry_config_def entry_new_def split: entry_payload.split)
  have "\<not> is_config ?e"
    using assms by (simp add: is_config_def entry_new_def split: entry_payload.split)
  then have app: "frame V n (snd (lift_part (ml_append [?e] (log n)) (\<lambda>l n. n\<lparr>log := l\<rparr>) n))"
    by (intro frame_lift_part) (auto dest!: ml_append_static [where V = V])
  have upd: "frame V t (case node_progress t (node_id t) of
      Some p \<Rightarrow> t\<lparr>node_progress := (node_progress t)(node_id t \<mapsto> p\<lparr>match_index := i, next_index := j\<rparr>)\<rparr>
    | None \<Rightarrow> t)" for t :: "'a raft_node" and i j
    by (auto intro: frame_update frm.rel_refl split: option.split)
  show ?thesis
    using True
    unfolding append_local_def Let_def cfg
    by (auto intro!: app frame_after frm.rel_trans [OF _ upd])
qed (simp add: append_local_def frm.rel_refl)

end
