(* ===== verification/Raft_Election.thy ===== *)
theory Raft_Election
  imports Raft_Frame
begin

text \<open>
  The rules that make elections safe, for one replica: a term never goes back and a vote, once
  cast, stands for the rest of its term (\<open>vote_mono\<close>); no operation except granting a
  \<^verbatim>\<open>VoteRequest\<close> sends a vote (\<open>quiet\<close>); and a replica is a candidate or a leader only on the
  strength of votes that were really cast (\<open>elect_ok\<close>). The cluster theory composes these.
\<close>

section \<open>A vote stands for the rest of its term\<close>

text \<open>What the rule is about: the configuration, the term and vote in memory, and on disk.\<close>

definition core :: "'m raft_node \<Rightarrow> raft_config \<times> hard_state \<times> hard_state" where
  "core n = (config n, hard n, ml_hard (log n))"

definition vote_mono :: "'m raft_node \<Rightarrow> 'm raft_node \<Rightarrow> bool" where
  "vote_mono n n' \<longleftrightarrow> config n' = config n \<and> node_term n \<le> node_term n'
     \<and> (node_term n' = node_term n \<and> node_term n < u64_max \<and> hs_voted_for (hard n) \<noteq> None
        \<longrightarrow> hs_voted_for (hard n') = hs_voted_for (hard n))
     \<and> (hard n = ml_hard (log n) \<longrightarrow> hard n' = ml_hard (log n'))"

interpretation vm: state_preorder vote_mono
  by unfold_locales (auto simp: vote_mono_def)

declare vm.rel_refl [simp]

lemma core_update [simp]:
  "core (n\<lparr>node_role := x1\<rparr>) = core n" "core (n\<lparr>leader := x2\<rparr>) = core n"
  "core (n\<lparr>machine := x3\<rparr>) = core n" "core (n\<lparr>commit_index := x4\<rparr>) = core n"
  "core (n\<lparr>last_applied := x5\<rparr>) = core n" "core (n\<lparr>node_membership := x6\<rparr>) = core n"
  "core (n\<lparr>node_progress := x7\<rparr>) = core n" "core (n\<lparr>votes := x8\<rparr>) = core n"
  "core (n\<lparr>election_elapsed := x9\<rparr>) = core n" "core (n\<lparr>heartbeat_elapsed := x10\<rparr>) = core n"
  "core (n\<lparr>randomized_timeout := x11\<rparr>) = core n" "core (n\<lparr>node_rng := x12\<rparr>) = core n"
  "core (n\<lparr>outbox := x13\<rparr>) = core n" "core (n\<lparr>applied := x14\<rparr>) = core n"
  "core (n\<lparr>pending_config := x15\<rparr>) = core n" "core (n\<lparr>ticks := x16\<rparr>) = core n"
  by (simp_all add: core_def)

lemma frame_core: "frame V n n' \<Longrightarrow> core n' = core n"
  by (simp add: frame_def core_def)

lemma core_ops [simp]:
  "core (snd (recompute_membership n)) = core n"
  "core (snd (apply_committed M n)) = core n"
  "core (maybe_advance_commit n) = core n"
  "core (send_snapshot p n) = core n"
  "core (snd (send_append p n)) = core n"
  "core (snd (broadcast_append n)) = core n"
  "core (reset_progress n) = core n"
  "core (note_contact p n) = core n"
  "core (reset_election_timer n) = core n"
  "core (send p m n) = core n"
  by (rule frame_core [OF recompute_membership_frame] frame_core [OF apply_committed_frame]
      frame_core [OF maybe_advance_commit_frame] frame_core [OF send_snapshot_frame]
      frame_core [OF send_append_frame] frame_core [OF broadcast_append_frame]
      frame_core [OF reset_progress_frame] frame_core [OF note_contact_frame]
      frame_core [OF reset_election_timer_frame] | simp add: send_def)+

lemma core_fold_send [simp]: "core (fold (\<lambda>p n. send p (f p n) n) ps n) = core n"
  by (induction ps arbitrary: n) simp_all

lemma core_proj:
  "core n' = core n \<Longrightarrow> config n' = config n" "core n' = core n \<Longrightarrow> hard n' = hard n"
  by (simp_all add: core_def)

lemma vote_mono_core: "core t' = core t \<Longrightarrow> vote_mono s t' = vote_mono s t"
  by (simp add: vote_mono_def core_def)

text \<open>Rules that strip operations which keep the core.\<close>

lemma vote_mono_strip:
  "vote_mono s n \<Longrightarrow> vote_mono s (reset_election_timer n)"
  "vote_mono s n \<Longrightarrow> vote_mono s (reset_progress n)"
  "vote_mono s n \<Longrightarrow> vote_mono s (note_contact p n)"
  "vote_mono s n \<Longrightarrow> vote_mono s (maybe_advance_commit n)"
  "vote_mono s n \<Longrightarrow> vote_mono s (send p m n)"
  "vote_mono s n \<Longrightarrow> vote_mono s (fold (\<lambda>p n. send p (f p n) n) ps n)"
  "vote_mono s n \<Longrightarrow> vote_mono s (snd (recompute_membership n))"
  "vote_mono s n \<Longrightarrow> vote_mono s (snd (apply_committed M n))"
  "vote_mono s n \<Longrightarrow> vote_mono s (snd (send_append p n))"
  "vote_mono s n \<Longrightarrow> vote_mono s (snd (broadcast_append n))"
  by (erule vote_mono_core [THEN iffD2, rotated], simp)+

lemma vote_mono_strip_update:
  "vote_mono s n \<Longrightarrow> vote_mono s (n\<lparr>node_role := x1\<rparr>)" "vote_mono s n \<Longrightarrow> vote_mono s (n\<lparr>leader := x2\<rparr>)"
  "vote_mono s n \<Longrightarrow> vote_mono s (n\<lparr>machine := x3\<rparr>)" "vote_mono s n \<Longrightarrow> vote_mono s (n\<lparr>commit_index := x4\<rparr>)"
  "vote_mono s n \<Longrightarrow> vote_mono s (n\<lparr>last_applied := x5\<rparr>)" "vote_mono s n \<Longrightarrow> vote_mono s (n\<lparr>node_membership := x6\<rparr>)"
  "vote_mono s n \<Longrightarrow> vote_mono s (n\<lparr>node_progress := x7\<rparr>)" "vote_mono s n \<Longrightarrow> vote_mono s (n\<lparr>votes := x8\<rparr>)"
  "vote_mono s n \<Longrightarrow> vote_mono s (n\<lparr>election_elapsed := x9\<rparr>)" "vote_mono s n \<Longrightarrow> vote_mono s (n\<lparr>heartbeat_elapsed := x10\<rparr>)"
  "vote_mono s n \<Longrightarrow> vote_mono s (n\<lparr>pending_config := x15\<rparr>)" "vote_mono s n \<Longrightarrow> vote_mono s (n\<lparr>ticks := x16\<rparr>)"
  by (simp_all add: vote_mono_def)

lemmas vote_mono_rules = vote_mono_strip vote_mono_strip_update vm.rel_try_then vm.rel_ok vm.rel_err vm.rel_refl

lemma save_hard_state_vote_mono:
  assumes "node_term n < t \<or> t = node_term n \<and> (hs_voted_for (hard n) = None \<or> v = hs_voted_for (hard n))
     \<or> t = node_term n \<and> u64_max \<le> t"
  shows "vote_mono n (save_hard_state t v n)"
  using assms by (auto simp: save_hard_state_def Let_def vote_mono_def hard_state_new_def ml_save_hard_state_def)

lemma become_follower_vote_mono:
  assumes "vote_mono s n" and "node_term n \<le> t"
  shows "vote_mono s (become_follower t l n)"
  unfolding become_follower_def Let_def
  using assms by (auto intro!: vote_mono_rules intro: vm.rel_trans [OF _ save_hard_state_vote_mono])

lemma lift_append_vote_mono:
  "vote_mono s n \<Longrightarrow> vote_mono s (snd (lift_part (ml_append es (log n)) (\<lambda>l n. n\<lparr>log := l\<rparr>) n))"
  by (auto simp: lift_part_def ml_append_def vote_mono_def split: sum.split)

lemma append_local_vote_mono: "vote_mono s n \<Longrightarrow> vote_mono s (snd (append_local M payload n))"
  unfolding append_local_def Let_def
  by (auto intro!: vote_mono_rules lift_append_vote_mono split: option.split)

lemma become_leader_vote_mono: "vote_mono s n \<Longrightarrow> vote_mono s (snd (become_leader M n))"
  unfolding become_leader_def Let_def
  by (auto intro!: vote_mono_rules append_local_vote_mono)

lemma campaign_vote_mono: "vote_mono s n \<Longrightarrow> vote_mono s (snd (campaign M n))"
proof -
  have "node_term n < term_next (node_term n) \<or> term_next (node_term n) = node_term n \<and> u64_max \<le> node_term n"
    by (auto simp: term_next_def sat_add_1)
  then have "vote_mono n (save_hard_state (term_next (node_term n)) (Some (node_id n)) n)"
    by (intro save_hard_state_vote_mono) auto
  then show "vote_mono s n \<Longrightarrow> vote_mono s (snd (campaign M n))"
    unfolding campaign_def Let_def
    by (auto intro!: vote_mono_rules become_leader_vote_mono intro: vm.rel_trans)
qed

lemma campaign_pre_vote_vote_mono: "vote_mono s n \<Longrightarrow> vote_mono s (snd (campaign_pre_vote M n))"
  unfolding campaign_pre_vote_def Let_def
  by (auto intro!: vote_mono_rules campaign_vote_mono)

lemma count_vote_vote_mono: "vote_mono n (snd (count_vote M pre from granted n))"
  unfolding count_vote_def Let_def
  by (auto intro!: vote_mono_rules campaign_vote_mono become_leader_vote_mono)

lemma handle_vote_request_vote_mono: "vote_mono n (handle_vote_request from msg n)"
proof -
  have grant: "vote_mono n (save_hard_state (node_term n) (Some from) n)"
    if "can_vote (hard n) \<or> has_voted_for (hard n) from"
    using that by (intro save_hard_state_vote_mono) (auto simp: can_vote_def has_voted_for_def)
  show ?thesis
    by (cases msg) (auto simp: Let_def intro!: vote_mono_rules grant)
qed

lemma merge_entries_vote_mono: "vote_mono s n \<Longrightarrow> vote_mono s (snd (merge_entries entries n))"
proof -
  assume s: "vote_mono s n"
  obtain k cut where scan: "merge_scan (log n) entries = (k, cut)" by fastforce
  have trunc: "vote_mono s (snd (case cut of
      Some i \<Rightarrow> lift_part (ml_truncate_from i (log n)) (\<lambda>l n. n\<lparr>log := l\<rparr>) n | None \<Rightarrow> ok () n))"
    using s by (auto simp: lift_part_def vote_mono_def dest: ml_truncate_static split: option.split sum.split)
  show ?thesis
    unfolding merge_entries_def scan Let_def case_prod_conv
    by (auto intro!: vote_mono_rules trunc lift_append_vote_mono)
qed

lemma handle_append_entries_vote_mono:
  "node_term n \<le> message_term msg \<Longrightarrow> vote_mono n (snd (handle_append_entries M from msg n))"
  by (cases msg)
    (auto simp: Let_def intro!: vote_mono_rules merge_entries_vote_mono become_follower_vote_mono)

lemma handle_append_response_vote_mono: "vote_mono n (snd (handle_append_response M from msg n))"
  by (cases msg) (auto simp: Let_def intro!: vote_mono_rules split: option.split)

lemma handle_install_snapshot_vote_mono: "vote_mono n (snd (handle_install_snapshot M from msg n))"
proof -
  have inst: "vote_mono n t \<Longrightarrow> vote_mono n (t\<lparr>machine := m, log := ml_install_snapshot s (log t)\<rparr>)" for t m s
    by (simp add: vote_mono_def ml_install_snapshot_def)
  show ?thesis
    by (cases msg)
      (auto simp: Let_def intro!: vote_mono_rules inst become_follower_vote_mono split: prod.split sum.split)
qed

lemma handle_install_snapshot_response_vote_mono:
  "vote_mono n (snd (handle_install_snapshot_response M from msg n))"
  by (cases msg) (auto simp: Let_def intro!: vote_mono_rules split: option.split)

lemma handle_higher_term_vote_mono:
  "node_term n \<le> t \<Longrightarrow> vote_mono n (handle_higher_term from msg t n)"
  by (cases "(from, msg, t, n)" rule: handle_higher_term.cases)
    (auto intro: become_follower_vote_mono)

lemma dispatch_vote_mono:
  assumes "node_term n \<le> message_term msg \<or> is_pre_vote msg"
  shows "vote_mono n (snd (dispatch M from msg n))"
proof (cases msg)
  case (AppendEntries t i pt es c)
  with assms show ?thesis
    using handle_append_entries_vote_mono [of n msg M "from"] by (simp add: dispatch_def)
qed (auto simp add: dispatch_def count_vote_vote_mono campaign_vote_mono
    handle_append_response_vote_mono handle_install_snapshot_vote_mono
    handle_install_snapshot_response_vote_mono handle_vote_request_vote_mono
    simp del: handle_vote_request.simps handle_append_response.simps
      handle_install_snapshot.simps handle_install_snapshot_response.simps)

lemma become_follower_term [simp]: "node_term (become_follower t l n) = t"
  by (auto simp: become_follower_def Let_def reset_election_timer_def save_hard_state_def
      hard_state_new_def split: prod.split dest: arg_cong [of _ _ hs_term])

lemma handle_higher_term_term:
  "node_term (handle_higher_term from msg t n) = t \<or> is_pre_vote msg \<and> handle_higher_term from msg t n = n"
  by (cases "(from, msg, t, n)" rule: handle_higher_term.cases) auto

lemma reject_stale_vote_mono: "vote_mono n (reject_stale p msg n)"
  by (cases "(p, msg, n)" rule: reject_stale.cases) (auto intro: vote_mono_rules)

lemma step_vote_mono: "vote_mono n (snd (step M env n))"
proof -
  let ?m = "env_message env" and ?f = "env_from env"
  have high: "vote_mono n (snd (dispatch M ?f ?m (handle_higher_term ?f ?m (message_term ?m) n)))"
    if "node_term n < message_term ?m"
    by (rule vm.rel_trans [OF handle_higher_term_vote_mono dispatch_vote_mono])
      (use that handle_higher_term_term [of ?f ?m "message_term ?m" n] in auto)
  show ?thesis
    using reject_stale_vote_mono [of n ?f ?m] high dispatch_vote_mono [of n ?m M ?f]
    by (auto simp: step_def Let_def is_stale_against_def rejects_def not_less)
qed

lemma tick_vote_mono: "vote_mono n (snd (tick M n))"
proof -
  have beat: "vote_mono s n \<Longrightarrow> vote_mono s (snd (tick_leader n))" for s n :: "'a raft_node"
    unfolding tick_leader_def Let_def by (auto intro!: vote_mono_rules become_follower_vote_mono)
  have camp: "vote_mono s n \<Longrightarrow> vote_mono s (snd (tick_follower M n))" for s n :: "'a raft_node"
    unfolding tick_follower_def Let_def
    by (auto intro!: vote_mono_rules campaign_vote_mono campaign_pre_vote_vote_mono)
  show ?thesis
    unfolding tick_def Let_def by (auto intro!: vote_mono_rules beat camp)
qed

lemma propose_vote_mono: "vote_mono n (snd (propose M c n))"
  by (simp add: propose_def append_local_vote_mono)

lemma propose_membership_vote_mono: "vote_mono n (snd (propose_membership M c n))"
  unfolding propose_membership_def Let_def
  by (auto intro!: vote_mono_rules append_local_vote_mono split: option.split sum.split)

section \<open>Candidates and leaders rest on votes that were cast\<close>

text \<open>
  \<open>cast\<close> is a set of votes \<open>(voter, term, candidate)\<close>. A candidate counts only votes of \<open>cast\<close>
  and its own; a leader has such votes from a deciding set of voters.
\<close>

definition votes_cast :: "membership \<Rightarrow> (peer_id \<times> raft_term \<times> peer_id) set \<Rightarrow> 'm raft_node \<Rightarrow> bool" where
  "votes_cast V cast n \<longleftrightarrow> distinct (map fst (votes n))
     \<and> (\<forall>(p, g) \<in> set (votes n). p \<in> set (voters V)
          \<and> (g \<longrightarrow> p = node_id n \<or> (p, node_term n, node_id n) \<in> cast))"

definition elected :: "membership \<Rightarrow> (peer_id \<times> raft_term \<times> peer_id) set \<Rightarrow> 'm raft_node \<Rightarrow> bool" where
  "elected V cast n \<longleftrightarrow> hs_voted_for (hard n) = Some (node_id n)
     \<and> (\<exists>Q. decides V Q \<and> (\<forall>p \<in> Q. p = node_id n \<or> (p, node_term n, node_id n) \<in> cast))"

definition member_ok :: "membership \<Rightarrow> 'm raft_node \<Rightarrow> bool" where
  "member_ok V n \<longleftrightarrow> static_node V n \<and> hard n = ml_hard (log n) \<and> node_id n \<in> set (voters V)"

definition elect_ok :: "membership \<Rightarrow> (peer_id \<times> raft_term \<times> peer_id) set \<Rightarrow> 'm raft_node \<Rightarrow> bool" where
  "elect_ok V cast n \<longleftrightarrow> member_ok V n
     \<and> (node_role n = Candidate \<longrightarrow> hs_voted_for (hard n) = Some (node_id n) \<and> votes_cast V cast n)
     \<and> (node_role n = Leader \<longrightarrow> elected V cast n)"

text \<open>Everything sent is from this replica and, except for the answer to a \<^verbatim>\<open>VoteRequest\<close>, no vote.\<close>

definition quiet :: "membership \<Rightarrow> 'm raft_node \<Rightarrow> 'm raft_node \<Rightarrow> bool" where
  "quiet V n n' \<longleftrightarrow> config n' = config n \<and> (static_node V n \<longrightarrow> static_node V n')
     \<and> (\<exists>ms. outbox n' = outbox n @ ms
          \<and> (\<forall>e \<in> set ms. env_from e = node_id n \<and> \<not> is_vote_grant (env_message e)
                \<and> (static_node V n \<longrightarrow> static_msg V (env_message e))))"

interpretation qt: state_preorder "quiet V" for V
proof
  fix s :: "'m raft_node"
  show "quiet V s s" by (simp add: quiet_def)
next
  fix s t u :: "'m raft_node"
  assume st: "quiet V s t" and tu: "quiet V t u"
  obtain ms where ms: "outbox t = outbox s @ ms"
      "\<forall>e \<in> set ms. env_from e = node_id s \<and> \<not> is_vote_grant (env_message e)
        \<and> (static_node V s \<longrightarrow> static_msg V (env_message e))"
    using st by (auto simp: quiet_def)
  obtain ns where ns: "outbox u = outbox t @ ns"
      "\<forall>e \<in> set ns. env_from e = node_id t \<and> \<not> is_vote_grant (env_message e)
        \<and> (static_node V t \<longrightarrow> static_msg V (env_message e))"
    using tu by (auto simp: quiet_def)
  have "config t = config s" "static_node V s \<longrightarrow> static_node V t" using st by (auto simp: quiet_def)
  with ms ns have "\<exists>ms. outbox u = outbox s @ ms
      \<and> (\<forall>e \<in> set ms. env_from e = node_id s \<and> \<not> is_vote_grant (env_message e)
            \<and> (static_node V s \<longrightarrow> static_msg V (env_message e)))"
    by (intro exI [of _ "ms @ ns"]) auto
  with st tu show "quiet V s u" by (simp add: quiet_def)
qed

lemma frame_quiet: "frame V n n' \<Longrightarrow> quiet V n n'"
  by (simp add: frame_def quiet_def)

lemma quiet_update:
  assumes "config n' = config n" "node_membership n' = node_membership n"
    "outbox n' = outbox n" "static_log V (log n) \<Longrightarrow> static_log V (log n')"
  shows "quiet V n n'"
  using assms by (simp add: quiet_def static_node_def)

text \<open>One step of a replica that keeps the election discipline.\<close>

definition elect_step :: "membership \<Rightarrow> (peer_id \<times> raft_term \<times> peer_id) set \<Rightarrow> 'm raft_node \<Rightarrow> 'm raft_node \<Rightarrow> bool" where
  "elect_step V cast n n' \<longleftrightarrow> quiet V n n' \<and> (elect_ok V cast n \<longrightarrow> elect_ok V cast n')"

interpretation es: state_preorder "elect_step V cast" for V cast
  by unfold_locales (auto simp: elect_step_def qt.rel_refl intro: qt.rel_trans)

lemma frame_elect_ok: "frame V n n' \<Longrightarrow> elect_ok V cast n \<Longrightarrow> elect_ok V cast n'"
  by (auto simp: frame_def elect_ok_def elected_def member_ok_def votes_cast_def)

lemma frame_elect_step: "frame V n n' \<Longrightarrow> elect_step V cast n n'"
  by (simp add: elect_step_def frame_quiet frame_elect_ok)

lemma static_log_hard [simp]: "static_log V (ml_save_hard_state h l) = static_log V l"
  by (simp add: static_log_def ml_save_hard_state_def)

lemma save_hard_state_fields [simp]:
  "config (save_hard_state t v n) = config n" "node_role (save_hard_state t v n) = node_role n"
  "votes (save_hard_state t v n) = votes n" "outbox (save_hard_state t v n) = outbox n"
  "node_membership (save_hard_state t v n) = node_membership n"
  "static_log V (log (save_hard_state t v n)) = static_log V (log n)"
  by (simp_all add: save_hard_state_def Let_def)

lemma save_hard_state_hard: "hard (save_hard_state t v n) = hard_state_new t v"
  by (simp add: save_hard_state_def Let_def)

lemma save_hard_state_log:
  "hard n = ml_hard (log n) \<Longrightarrow> ml_hard (log (save_hard_state t v n)) = hard_state_new t v"
  by (auto simp: save_hard_state_def Let_def ml_save_hard_state_def)

lemma save_hard_state_member_ok: "member_ok V n \<Longrightarrow> member_ok V (save_hard_state t v n)"
  by (simp add: member_ok_def static_node_def save_hard_state_hard save_hard_state_log)

lemma become_follower_elect_step: "elect_step V cast n (become_follower t l n)"
proof -
  let ?n = "if t \<noteq> node_term n then save_hard_state t None n else n"
  let ?f = "?n\<lparr>node_role := Follower, leader := l, node_progress := Map.empty, votes := []\<rparr>"
  have "quiet V n ?f" by (rule quiet_update) auto
  moreover have "member_ok V n \<Longrightarrow> member_ok V ?n" by (simp add: save_hard_state_member_ok)
  then have "elect_ok V cast n \<Longrightarrow> elect_ok V cast ?f"
    by (auto simp: elect_ok_def member_ok_def static_node_def)
  ultimately have "elect_step V cast n ?f" by (simp add: elect_step_def)
  then show ?thesis
    unfolding become_follower_def Let_def
    by (rule es.rel_trans [OF _ frame_elect_step [OF reset_election_timer_frame]])
qed

lemma become_leader_quiet: "quiet V n (snd (become_leader M n))"
  unfolding become_leader_def Let_def
  by (auto intro!: qt.rel_trans [OF _ frame_quiet [OF append_local_frame]]
      qt.rel_trans [OF _ frame_quiet [OF reset_progress_frame]] quiet_update)

lemma become_leader_elect_ok:
  assumes "member_ok V n" and "elected V cast n"
  shows "elect_ok V cast (snd (become_leader M n))"
proof -
  let ?n = "n\<lparr>node_role := Leader, leader := Some (node_id n), votes := [],
      election_elapsed := 0, heartbeat_elapsed := 0, node_progress := Map.empty\<rparr>"
  have "elect_ok V cast ?n"
    using assms by (simp add: elect_ok_def member_ok_def static_node_def elected_def)
  moreover have "frame V ?n (snd (append_local M Noop (reset_progress ?n)))"
    by (rule frm.rel_trans [OF reset_progress_frame append_local_frame]) simp
  ultimately have "elect_ok V cast (snd (append_local M Noop (reset_progress ?n)))"
    by (rule frame_elect_ok [rotated])
  then show ?thesis by (simp add: become_leader_def Let_def)
qed

lemma fold_send_outbox:
  "outbox (fold (\<lambda>p n. send p (f n) n) ps n) = outbox n @ map (\<lambda>p. envelope_new (node_id n) p (f n)) ps"
  if "\<And>m ms. f (m\<lparr>outbox := ms\<rparr>) = f m"
proof (induction ps arbitrary: n)
  case (Cons p ps)
  then show ?case by (simp add: send_def that)
qed simp

lemma fold_send_fields:
  "config (fold (\<lambda>p n. send p (f n) n) ps n) = config n
   \<and> hard (fold (\<lambda>p n. send p (f n) n) ps n) = hard n
   \<and> log (fold (\<lambda>p n. send p (f n) n) ps n) = log n
   \<and> node_role (fold (\<lambda>p n. send p (f n) n) ps n) = node_role n
   \<and> votes (fold (\<lambda>p n. send p (f n) n) ps n) = votes n
   \<and> node_membership (fold (\<lambda>p n. send p (f n) n) ps n) = node_membership n"
  by (induction ps arbitrary: n) (simp_all add: send_def)

lemma fold_send_frame:
  assumes "\<And>m ms. f (m\<lparr>outbox := ms\<rparr>) = f m" and "\<And>m. \<not> is_vote_grant (f m) \<and> static_msg V (f m)"
  shows "frame V n (fold (\<lambda>p n. send p (f n) n) ps n)"
  using assms(2) fold_send_fields [of f ps n]
  by (auto simp: frame_def static_node_def fold_send_outbox [OF assms(1)] envelope_new_def)

lemma decides_self: "is_quorum V 1 \<Longrightarrow> i \<in> set (voters V) \<Longrightarrow> decides V {i}"
  by (simp add: decides_def)

lemma campaign_elect_step: "elect_step V cast n (snd (campaign M n))"
proof -
  let ?t = "term_next (node_term n)"
  let ?h = "save_hard_state ?t (Some (node_id n)) n"
  let ?c = "?h\<lparr>node_role := Candidate, leader := None, votes := [(node_id n, True)]\<rparr>"
  have q: "quiet V n ?c" by (rule quiet_update) auto
  have mem: "member_ok V ?c" if "elect_ok V cast n"
    using that save_hard_state_member_ok [of V n] by (simp add: elect_ok_def member_ok_def static_node_def)
  have cand: "elect_ok V cast ?c" if "elect_ok V cast n"
  proof -
    have "node_id n \<in> set (voters V)" using that by (simp add: elect_ok_def member_ok_def)
    with mem [OF that] show ?thesis
      by (simp add: elect_ok_def votes_cast_def save_hard_state_hard hard_state_new_def)
  qed
  have step: "elect_step V cast n (reset_election_timer ?c)"
    by (rule es.rel_trans [OF _ frame_elect_step [OF reset_election_timer_frame]])
      (use q cand in \<open>simp add: elect_step_def\<close>)
  show ?thesis
  proof (cases "is_quorum (node_membership (reset_election_timer ?c)) 1")
    case True
    have "elect_ok V cast (snd (become_leader M (reset_election_timer ?c)))" if "elect_ok V cast n"
    proof (rule become_leader_elect_ok)
      have ok: "elect_ok V cast (reset_election_timer ?c)" using step that by (simp add: elect_step_def)
      then show "member_ok V (reset_election_timer ?c)" by (simp add: elect_ok_def)
      then have "decides V {node_id n}"
        using True core_proj [of "reset_election_timer ?c" ?c]
        by (intro decides_self) (auto simp: member_ok_def static_node_def)
      then show "elected V cast (reset_election_timer ?c)"
        using core_proj [of "reset_election_timer ?c" ?c]
        by (auto simp: elected_def save_hard_state_hard hard_state_new_def)
    qed
    moreover have "quiet V n (snd (become_leader M (reset_election_timer ?c)))"
      using step by (auto simp: elect_step_def intro: qt.rel_trans become_leader_quiet)
    ultimately show ?thesis using True by (simp add: campaign_def Let_def elect_step_def)
  next
    case False
    have ask: "elect_step V cast m (fold (\<lambda>p n. send p (VoteRequest ?t (ml_last_index (log n)) (ml_last_term (log n))) n) ps m)"
      for m :: "'a raft_node" and ps
      by (rule frame_elect_step, rule fold_send_frame) simp_all
    from False show ?thesis
      by (simp add: campaign_def Let_def es.rel_trans [OF step ask])
  qed
qed

lemma campaign_pre_vote_elect_step: "elect_step V cast n (snd (campaign_pre_vote M n))"
proof -
  let ?c = "n\<lparr>node_role := PreCandidate, leader := None, votes := [(node_id n, True)]\<rparr>"
  have "quiet V n ?c" by (rule quiet_update) auto
  moreover have "elect_ok V cast n \<Longrightarrow> elect_ok V cast ?c"
    by (simp add: elect_ok_def member_ok_def static_node_def)
  ultimately have "elect_step V cast n ?c" by (simp add: elect_step_def)
  then have step: "elect_step V cast n (reset_election_timer ?c)"
    by (rule es.rel_trans [OF _ frame_elect_step [OF reset_election_timer_frame]])
  have ask: "elect_step V cast m (fold (\<lambda>p n. send p (PreVoteRequest t (ml_last_index (log n)) (ml_last_term (log n))) n) ps m)"
    for m :: "'a raft_node" and ps t
    by (rule frame_elect_step, rule fold_send_frame) simp_all
  show ?thesis
    by (simp add: campaign_pre_vote_def Let_def es.rel_trans [OF step ask] es.rel_trans [OF step campaign_elect_step])
qed

lemma votes_cast_update:
  assumes "votes_cast V cast n" and "p \<in> set (voters V)"
    and "granted \<Longrightarrow> (p, node_term n, node_id n) \<in> cast"
  shows "votes_cast V cast (n\<lparr>votes := AList.update p granted (votes n)\<rparr>)"
proof -
  have "distinct (map fst (AList.update p granted (votes n)))"
    using assms(1) by (intro distinct_update) (simp add: votes_cast_def)
  moreover have "set (AList.update p granted (votes n)) \<subseteq> insert (p, granted) (set (votes n))"
    by (rule set_alist_update)
  ultimately show ?thesis using assms by (auto simp: votes_cast_def)
qed

lemma votes_cast_elected:
  assumes "votes_cast V cast n" and "hs_voted_for (hard n) = Some (node_id n)"
    and "is_quorum V (length (filter snd (votes n)))"
  shows "elected V cast n"
proof -
  let ?Q = "{p. (p, True) \<in> set (votes n)}"
  have "decides V ?Q"
    using assms(1,3) by (auto simp: decides_def votes_cast_def length_filter_snd)
  with assms(1,2) show ?thesis
    unfolding elected_def votes_cast_def by (intro conjI exI [of _ ?Q]) auto
qed

lemma count_vote_elect_step:
  assumes p: "p \<in> set (voters V)"
    and vote: "\<not> is_pre \<Longrightarrow> granted \<Longrightarrow> node_role n = Candidate \<Longrightarrow> (p, node_term n, node_id n) \<in> cast"
  shows "elect_step V cast n (snd (count_vote M is_pre p granted n))"
proof (cases "node_role n = (if is_pre then PreCandidate else Candidate)")
  case role: True
  let ?n = "n\<lparr>votes := AList.update p granted (votes n)\<rparr>"
  have vc: "votes_cast V cast ?n \<and> hs_voted_for (hard n) = Some (node_id n)" if "elect_ok V cast n" "\<not> is_pre"
    using that role vote p by (auto simp: elect_ok_def intro!: votes_cast_update)
  have step: "elect_step V cast n ?n"
    unfolding elect_step_def
  proof
    show "quiet V n ?n" by (rule quiet_update) auto
    show "elect_ok V cast n \<longrightarrow> elect_ok V cast ?n"
      using vc role by (cases is_pre) (auto simp: elect_ok_def member_ok_def static_node_def)
  qed
  have lead: "elect_step V cast n (snd (become_leader M ?n))"
    if "\<not> is_pre" and "is_quorum (node_membership n) (length (filter snd (votes ?n)))"
    unfolding elect_step_def
  proof
    show "quiet V n (snd (become_leader M ?n))"
      using step by (auto simp: elect_step_def intro: qt.rel_trans become_leader_quiet)
    show "elect_ok V cast n \<longrightarrow> elect_ok V cast (snd (become_leader M ?n))"
    proof
      assume ok: "elect_ok V cast n"
      then have "member_ok V ?n" "node_membership n = V"
        using step by (auto simp: elect_step_def elect_ok_def member_ok_def static_node_def)
      moreover have "elected V cast ?n"
        using vc [OF ok that(1)] that(2) \<open>node_membership n = V\<close> by (intro votes_cast_elected) auto
      ultimately show "elect_ok V cast (snd (become_leader M ?n))"
        by (intro become_leader_elect_ok)
    qed
  qed
  have lost: "elect_step V cast n (reset_election_timer (?n\<lparr>node_role := Follower, votes := []\<rparr>))"
  proof (rule es.rel_trans [OF _ frame_elect_step [OF reset_election_timer_frame]])
    show "elect_step V cast n (?n\<lparr>node_role := Follower, votes := []\<rparr>)"
      unfolding elect_step_def
      by (auto simp: elect_ok_def member_ok_def static_node_def intro: quiet_update)
  qed
  show ?thesis
    using role lead lost step es.rel_trans [OF step campaign_elect_step]
    by (simp add: count_vote_def Let_def split del: if_split) auto
qed (simp add: count_vote_def es.rel_refl)

section \<open>The handlers\<close>

lemma es_send:
  "elect_step V cast s n \<Longrightarrow> \<not> is_vote_grant m \<Longrightarrow> static_msg V m \<Longrightarrow> elect_step V cast s (send p m n)"
  by (rule es.rel_trans [OF _ frame_elect_step [OF frame_send]])

lemma es_update:
  "elect_step V cast s n \<Longrightarrow> elect_step V cast s (n\<lparr>leader := x1\<rparr>)"
  "elect_step V cast s n \<Longrightarrow> elect_step V cast s (n\<lparr>commit_index := x2\<rparr>)"
  "elect_step V cast s n \<Longrightarrow> elect_step V cast s (n\<lparr>node_progress := x3\<rparr>)"
  "elect_step V cast s n \<Longrightarrow> elect_step V cast s (n\<lparr>election_elapsed := x4\<rparr>)"
  "elect_step V cast s n \<Longrightarrow> elect_step V cast s (n\<lparr>heartbeat_elapsed := x5\<rparr>)"
  "elect_step V cast s n \<Longrightarrow> elect_step V cast s (n\<lparr>ticks := x6\<rparr>)"
  "elect_step V cast s n \<Longrightarrow> elect_step V cast s (n\<lparr>machine := x7\<rparr>)"
  "elect_step V cast s n \<Longrightarrow> elect_step V cast s (n\<lparr>last_applied := x8\<rparr>)"
  "elect_step V cast s n \<Longrightarrow> elect_step V cast s (n\<lparr>pending_config := x9\<rparr>)"
  by (erule es.rel_trans, rule frame_elect_step, rule frame_update, simp_all)+

lemmas es_rules =
  es.rel_trans [OF _ frame_elect_step [OF recompute_membership_frame]]
  es.rel_trans [OF _ frame_elect_step [OF apply_committed_frame]]
  es.rel_trans [OF _ frame_elect_step [OF maybe_advance_commit_frame]]
  es.rel_trans [OF _ frame_elect_step [OF send_append_frame]]
  es.rel_trans [OF _ frame_elect_step [OF broadcast_append_frame]]
  es.rel_trans [OF _ frame_elect_step [OF note_contact_frame]]
  es.rel_trans [OF _ frame_elect_step [OF reset_election_timer_frame]]
  es.rel_trans [OF _ become_follower_elect_step]
  es_send es_update es.rel_try_then es.rel_ok es.rel_err es.rel_refl

lemma handle_append_entries_elect_step:
  assumes "static_msg V msg"
  shows "elect_step V cast n (snd (handle_append_entries M p msg n))"
proof (cases msg)
  case (AppendEntries t prev_i prev_t es c)
  then have merge: "elect_step V cast s m \<Longrightarrow> elect_step V cast s (snd (merge_entries es m))" for s m :: "'a raft_node"
    using assms by (auto intro: es.rel_trans frame_elect_step merge_entries_frame)
  show ?thesis
    unfolding AppendEntries handle_append_entries.simps Let_def
    by (auto intro!: es_rules merge)
qed (simp_all add: es.rel_refl)

lemma handle_append_response_elect_step:
  "elect_step V cast n (snd (handle_append_response M p msg n))"
  by (cases msg) (auto simp: Let_def intro!: es_rules split: option.split)

lemma handle_install_snapshot_elect_step:
  assumes "static_msg V msg"
  shows "elect_step V cast n (snd (handle_install_snapshot M p msg n))"
proof (cases msg)
  case (InstallSnapshot t s)
  have inst: "elect_step V cast n (m\<lparr>machine := x, log := ml_install_snapshot s (log m), commit_index := i,
      last_applied := j, node_membership := sm_membership (snap_meta s)\<rparr>)"
    if "elect_step V cast n m" for m :: "'a raft_node" and x i j
  proof (rule es.rel_trans [OF that], rule frame_elect_step)
    show "frame V m (m\<lparr>machine := x, log := ml_install_snapshot s (log m), commit_index := i,
        last_applied := j, node_membership := sm_membership (snap_meta s)\<rparr>)"
      using assms InstallSnapshot
      by (simp add: frame_def static_node_def static_log_def ml_install_snapshot_def)
  qed
  show ?thesis
    unfolding InstallSnapshot handle_install_snapshot.simps Let_def
    by (auto intro!: inst es_rules split: prod.split sum.split)
qed (simp_all add: es.rel_refl)

lemma handle_install_snapshot_response_elect_step:
  "elect_step V cast n (snd (handle_install_snapshot_response M p msg n))"
  by (cases msg) (auto simp: Let_def intro!: es_rules split: option.split)

lemma handle_higher_term_elect_step: "elect_step V cast n (handle_higher_term p msg t n)"
  by (cases "(p, msg, t, n)" rule: handle_higher_term.cases) (auto intro: es_rules)

lemma reject_stale_elect_step: "elect_step V cast n (reject_stale p msg n)"
  by (cases "(p, msg, n)" rule: reject_stale.cases) (auto intro!: es_rules)

lemma tick_elect_step: "elect_step V cast n (snd (tick M n))"
proof -
  have beat: "elect_step V cast s n \<Longrightarrow> elect_step V cast s (snd (tick_leader n))" for s n :: "'a raft_node"
    unfolding tick_leader_def Let_def by (auto intro!: es_rules)
  have camp: "elect_step V cast s n \<Longrightarrow> elect_step V cast s (snd (tick_follower M n))" for s n :: "'a raft_node"
    unfolding tick_follower_def Let_def
    by (auto intro!: es_rules es.rel_trans [OF _ campaign_elect_step] es.rel_trans [OF _ campaign_pre_vote_elect_step])
  show ?thesis
    unfolding tick_def Let_def by (auto intro!: es_rules beat camp)
qed

lemma propose_elect_step: "elect_step V cast n (snd (propose M c n))"
  by (simp add: propose_def frame_elect_step append_local_frame)

section \<open>Granting a vote\<close>

lemma handle_vote_request_elect_ok:
  assumes "elect_ok V cast n"
  shows "elect_ok V cast (handle_vote_request p msg n)"
proof -
  have send: "elect_ok V cast m \<Longrightarrow> elect_ok V cast (send q x m)" for m :: "'a raft_node" and q x
    by (auto simp: send_def elect_ok_def member_ok_def static_node_def elected_def votes_cast_def)
  have grant: "elect_ok V cast (reset_election_timer (save_hard_state (node_term n) (Some p) n))"
    if "can_vote (hard n) \<or> has_voted_for (hard n) p"
  proof (rule frame_elect_ok [OF reset_election_timer_frame])
    show "elect_ok V cast (save_hard_state (node_term n) (Some p) n)"
    proof (cases "hard_state_new (node_term n) (Some p) = hard n")
      case True
      with assms show ?thesis by (simp add: save_hard_state_def)
    next
      case False
      with that have "hs_voted_for (hard n) = None"
        by (auto simp: can_vote_def has_voted_for_def hard_state_new_def)
      with assms have "node_role n \<noteq> Candidate \<and> node_role n \<noteq> Leader"
        by (auto simp: elect_ok_def elected_def)
      with assms save_hard_state_member_ok show ?thesis by (auto simp: elect_ok_def)
    qed
  qed
  show ?thesis
    using assms grant by (cases msg) (auto simp: Let_def intro!: send)
qed

text \<open>The one message a \<^verbatim>\<open>VoteRequest\<close> is answered with; a grant is a vote in force.\<close>

lemma handle_vote_request_outbox:
  "\<exists>ms. outbox (handle_vote_request p msg n) = outbox n @ ms
     \<and> (\<forall>e \<in> set ms. env_from e = node_id n \<and> static_msg V (env_message e)
          \<and> (\<forall>t. env_message e = VoteResponse t True \<longrightarrow>
                hard (handle_vote_request p msg n) = \<lparr>hs_term = t, hs_voted_for = Some (env_to e)\<rparr>))"
proof -
  have out: "outbox (reset_election_timer m) = outbox m" "node_id (reset_election_timer m) = node_id m"
      "hard (reset_election_timer m) = hard m" for m :: "'a raft_node"
    by (auto simp: reset_election_timer_def split: prod.split)
  show ?thesis
    by (cases msg)
      (auto simp: Let_def send_def envelope_new_def out save_hard_state_hard hard_state_new_def)
qed

section \<open>One message\<close>

text \<open>
  What a replica may assume of a message on the network: it comes from a voter, it carries no
  configuration, and a granted vote in it was cast.
\<close>

definition valid_env :: "membership \<Rightarrow> (peer_id \<times> raft_term \<times> peer_id) set \<Rightarrow> envelope \<Rightarrow> bool" where
  "valid_env V cast e \<longleftrightarrow> env_from e \<in> set (voters V) \<and> static_msg V (env_message e)
     \<and> (\<forall>t. env_message e = VoteResponse t True \<longrightarrow> (env_from e, t, env_to e) \<in> cast)"

lemma become_follower_role [simp]: "node_role (become_follower t l n) = Follower"
  by (simp add: become_follower_def Let_def reset_election_timer_def split: prod.split)

text \<open>What one input gives: the discipline is kept, and every vote sent is the vote in force.\<close>

definition node_step :: "membership \<Rightarrow> (peer_id \<times> raft_term \<times> peer_id) set \<Rightarrow> 'm raft_node \<Rightarrow> 'm raft_node \<Rightarrow> bool" where
  "node_step V cast n n' \<longleftrightarrow> vote_mono n n' \<and> elect_ok V cast n'
     \<and> (\<exists>ms. outbox n' = outbox n @ ms
          \<and> (\<forall>e \<in> set ms. env_from e = node_id n \<and> static_msg V (env_message e)
               \<and> (\<forall>t. env_message e = VoteResponse t True \<longrightarrow>
                     hard n' = \<lparr>hs_term = t, hs_voted_for = Some (env_to e)\<rparr>)))"

lemma elect_step_node_step:
  assumes "elect_ok V cast n" and "elect_step V cast n n'" and "vote_mono n n'"
  shows "node_step V cast n n'"
proof -
  have "static_node V n" using assms(1) by (simp add: elect_ok_def member_ok_def)
  with assms show ?thesis
    unfolding node_step_def elect_step_def quiet_def by fastforce
qed

lemma tick_node_step: "elect_ok V cast n \<Longrightarrow> node_step V cast n (snd (tick M n))"
  by (rule elect_step_node_step) (simp_all add: tick_elect_step tick_vote_mono)

lemma propose_node_step: "elect_ok V cast n \<Longrightarrow> node_step V cast n (snd (propose M c n))"
  by (rule elect_step_node_step) (simp_all add: propose_elect_step propose_vote_mono)

lemma dispatch_elect_step:
  assumes "p \<in> set (voters V)" and "static_msg V msg"
    and "\<And>t. msg = VoteResponse t True \<Longrightarrow> node_role n = Candidate \<Longrightarrow> (p, node_term n, node_id n) \<in> cast"
    and "\<nexists>t i pt. msg = VoteRequest t i pt"
  shows "elect_step V cast n (snd (dispatch M p msg n))"
proof (cases msg)
  case (PreVoteRequest t i pt)
  then show ?thesis by (auto simp: dispatch_def Let_def intro!: es_rules)
next
  case (VoteResponse t g)
  with assms show ?thesis by (cases g) (auto simp: dispatch_def intro!: count_vote_elect_step)
qed (use assms handle_append_entries_elect_step [OF assms(2)] handle_install_snapshot_elect_step [OF assms(2)]
    in \<open>auto simp: dispatch_def es.rel_refl handle_append_response_elect_step handle_install_snapshot_response_elect_step
      simp del: handle_append_entries.simps handle_append_response.simps
        handle_install_snapshot.simps handle_install_snapshot_response.simps
      intro!: count_vote_elect_step campaign_elect_step\<close>)

lemma elect_step_node_step_trans:
  assumes ok: "elect_ok V cast n" and es: "elect_step V cast n n1" and vm: "vote_mono n n1"
    and ns: "node_step V cast n1 n2"
  shows "node_step V cast n n2"
proof -
  obtain ms where ms: "outbox n1 = outbox n @ ms"
      "\<forall>e \<in> set ms. env_from e = node_id n \<and> \<not> is_vote_grant (env_message e) \<and> static_msg V (env_message e)"
    and cfg: "config n1 = config n"
    using ok es by (auto simp: elect_step_def quiet_def elect_ok_def member_ok_def)
  obtain ns' where ns': "outbox n2 = outbox n1 @ ns'"
      "\<forall>e \<in> set ns'. env_from e = node_id n1 \<and> static_msg V (env_message e)
        \<and> (\<forall>t. env_message e = VoteResponse t True \<longrightarrow> hard n2 = \<lparr>hs_term = t, hs_voted_for = Some (env_to e)\<rparr>)"
    using ns by (auto simp: node_step_def)
  have "vote_mono n n2" "elect_ok V cast n2"
    using vm ns by (auto simp: node_step_def intro: vm.rel_trans)
  with ms ns' cfg show ?thesis
    unfolding node_step_def by (intro conjI exI [of _ "ms @ ns'"]) auto
qed

lemma vote_request_node_step:
  "elect_ok V cast n \<Longrightarrow> node_step V cast n (handle_vote_request p msg n)"
  using handle_vote_request_outbox [of p msg n V]
  by (simp add: node_step_def handle_vote_request_elect_ok handle_vote_request_vote_mono
      del: handle_vote_request.simps)

lemma dispatch_node_step:
  assumes "elect_ok V cast n" and "p \<in> set (voters V)" and "static_msg V msg"
    and "\<And>t. msg = VoteResponse t True \<Longrightarrow> node_role n = Candidate \<Longrightarrow> (p, node_term n, node_id n) \<in> cast"
    and "node_term n \<le> message_term msg \<or> is_pre_vote msg"
  shows "node_step V cast n (snd (dispatch M p msg n))"
proof (cases "\<exists>t i pt. msg = VoteRequest t i pt")
  case True
  with assms(1) show ?thesis by (auto simp: dispatch_def vote_request_node_step simp del: handle_vote_request.simps)
next
  case False
  with assms show ?thesis
    by (intro elect_step_node_step dispatch_elect_step dispatch_vote_mono) auto
qed

lemma handle_higher_term_role:
  "is_pre_vote msg \<and> handle_higher_term p msg t n = n \<or> node_role (handle_higher_term p msg t n) = Follower"
  by (cases "(p, msg, t, n)" rule: handle_higher_term.cases) auto

lemma step_node_step:
  assumes ok: "elect_ok V cast n" and env: "valid_env V cast env"
  shows "node_step V cast n (snd (step M env n))"
proof -
  let ?m = "env_message env" and ?p = "env_from env"
  let ?h = "handle_higher_term ?p ?m (message_term ?m) n"
  have same: "node_step V cast n n" using ok by (simp add: node_step_def vm.rel_refl)
  have reject: "node_step V cast n (reject_stale ?p ?m n)"
    by (rule elect_step_node_step [OF ok reject_stale_elect_step reject_stale_vote_mono])
  have high: "node_step V cast n (snd (dispatch M ?p ?m ?h))" if lt: "node_term n < message_term ?m"
  proof (rule elect_step_node_step_trans [OF ok handle_higher_term_elect_step])
    show "vote_mono n ?h" using lt by (simp add: handle_higher_term_vote_mono)
    show "node_step V cast ?h (snd (dispatch M ?p ?m ?h))"
    proof (rule dispatch_node_step)
      show "elect_ok V cast ?h" using ok handle_higher_term_elect_step [of V cast n ?p ?m "message_term ?m"]
        by (simp add: elect_step_def)
      show "node_term ?h \<le> message_term ?m \<or> is_pre_vote ?m"
        using handle_higher_term_term [of ?p ?m "message_term ?m" n] by auto
      show "(?p, node_term ?h, node_id ?h) \<in> cast" if "?m = VoteResponse t True" "node_role ?h = Candidate" for t
        using that handle_higher_term_role [of ?m ?p "message_term ?m" n] by simp
    qed (use env in \<open>auto simp: valid_env_def\<close>)
  qed
  have here: "node_step V cast n (snd (dispatch M ?p ?m n))"
    if "node_term n = message_term ?m" "env_to env = node_id n"
    using ok env that by (intro dispatch_node_step) (auto simp: valid_env_def)
  show ?thesis
    using same reject high here
    by (auto simp: step_def Let_def is_stale_against_def rejects_def not_less)
qed

end
