(* ===== verification/Raft_Cluster.thy ===== *)
theory Raft_Cluster
  imports Raft_Election
begin

text \<open>
  Replicas on an unreliable network. The network is the set of every envelope ever sent: it
  never shrinks, so an envelope can be lost (never delivered), delayed, reordered or delivered
  again, which are the faults \<^verbatim>\<open>sim/network.rs\<close> injects. A step is one input of one replica
  (\<^verbatim>\<open>RaftNode::tick\<close>, \<^verbatim>\<open>step\<close>, \<^verbatim>\<open>propose\<close>, or a restart by \<^verbatim>\<open>RaftNode::new\<close> from what is on disk)
  followed by \<^verbatim>\<open>take_messages\<close>; an input that fails leaves the state it had written.

  Two sets are recorded beside the state: \<open>ballots\<close>, every vote a replica has stood by at the
  end of an input, and \<open>reigns\<close>, every leader seen with its term. The configuration is static:
  no step proposes a membership change.
\<close>

section \<open>Steps\<close>

record 'm cluster =
  replicas :: "peer_id \<rightharpoonup> 'm raft_node"
  net :: "envelope set"
  ballots :: "(peer_id \<times> raft_term \<times> peer_id) set"
  reigns :: "(peer_id \<times> raft_term) set"

definition ballot :: "peer_id \<Rightarrow> 'm raft_node \<Rightarrow> (peer_id \<times> raft_term \<times> peer_id) set" where
  "ballot i n = (case hs_voted_for (hard n) of None \<Rightarrow> {} | Some c \<Rightarrow> {(i, node_term n, c)})"

definition reign :: "peer_id \<Rightarrow> 'm raft_node \<Rightarrow> (peer_id \<times> raft_term) set" where
  "reign i n = (if is_leader (node_role n) then {(i, node_term n)} else {})"

definition settle :: "peer_id \<Rightarrow> 'm raft_node \<Rightarrow> 'm cluster \<Rightarrow> 'm cluster" where
  "settle i n c =
     (let (ms, n') = take_messages n in
      \<lparr>replicas = (replicas c)(i \<mapsto> n'), net = net c \<union> set ms,
       ballots = ballots c \<union> ballot i n, reigns = reigns c \<union> reign i n\<rparr>)"

inductive cluster_step :: "'m state_machine \<Rightarrow> 'm cluster \<Rightarrow> 'm cluster \<Rightarrow> bool" for M where
  time: "replicas c i = Some n \<Longrightarrow> cluster_step M c (settle i (snd (tick M n)) c)"
| deliver: "e \<in> net c \<Longrightarrow> replicas c (env_to e) = Some n \<Longrightarrow>
    cluster_step M c (settle (env_to e) (snd (step M e n)) c)"
| client: "replicas c i = Some n \<Longrightarrow> cluster_step M c (settle i (snd (propose M cmd n)) c)"
| restart: "replicas c i = Some n \<Longrightarrow> node_new M (config n) (log n) m = Inr n' \<Longrightarrow>
    cluster_step M c (settle i n' c)"

definition cluster_start :: "'m state_machine \<Rightarrow> membership \<Rightarrow> 'm cluster \<Rightarrow> bool" where
  "cluster_start M V c \<longleftrightarrow> net c = {} \<and> ballots c = {} \<and> reigns c = {}
     \<and> (\<forall>i n. replicas c i = Some n \<longrightarrow> i \<in> set (voters V)
          \<and> (\<exists>cfg m. cfg_id cfg = i \<and> initial_membership cfg = V
               \<and> node_new M cfg memory_log_new m = Inr n))"

inductive reachable :: "'m state_machine \<Rightarrow> membership \<Rightarrow> 'm cluster \<Rightarrow> bool" for M V where
  start: "cluster_start M V c \<Longrightarrow> reachable M V c"
| further: "reachable M V c \<Longrightarrow> cluster_step M c c' \<Longrightarrow> reachable M V c'"

section \<open>Restarting\<close>

text \<open>A restarted replica is a follower with the term and vote that were on disk.\<close>

lemma recompute_membership_fields:
  "recompute_membership n = (r, n') \<Longrightarrow>
     config n' = config n \<and> node_role n' = node_role n \<and> hard n' = hard n \<and> log n' = log n
     \<and> votes n' = votes n \<and> outbox n' = outbox n"
  by (auto simp: recompute_membership_def Let_def err_def ok_def split: sum.splits)

lemma node_new_fields:
  assumes "node_new M cfg l m = Inr n"
  shows "config n = cfg \<and> node_role n = Follower \<and> hard n = ml_hard l \<and> log n = l \<and> outbox n = []"
  using assms
  by (auto simp: node_new_def Let_def split: sum.splits prod.splits option.splits if_splits
      dest!: recompute_membership_fields)

lemma recompute_membership_static:
  assumes "recompute_membership n = (Inr u, n')" and "static_log V (log n)"
    and "initial_membership (config n) = V"
  shows "node_membership n' = V"
  using assms ml_entries_static [OF assms(2)]
  by (auto simp: recompute_membership_def Let_def err_def ok_def static_log_def ml_snapshot_meta_def
      split: sum.splits option.splits intro!: from_entries_static)

lemma node_new_static:
  assumes new: "node_new M cfg l m = Inr n" and "static_log V l" and "initial_membership cfg = V"
  shows "static_node V n"
proof -
  obtain n0 u where n0: "recompute_membership n0 = (Inr u, n)"
    using new by (auto simp: node_new_def Let_def split: sum.splits prod.splits option.splits if_splits)
  have "log n0 = l" "config n0 = cfg"
    using node_new_fields [OF new] recompute_membership_fields [OF n0] by auto
  with n0 assms node_new_fields [OF new] show ?thesis
    by (auto simp: static_node_def intro: recompute_membership_static)
qed

lemma node_new_elect_ok:
  assumes "node_new M cfg l m = Inr n" and "static_log V l" and "initial_membership cfg = V"
    and "cfg_id cfg \<in> set (voters V)"
  shows "elect_ok V cast n"
  using node_new_fields [OF assms(1)] node_new_static [OF assms(1-3)] assms(4)
  by (simp add: elect_ok_def member_ok_def)

lemma node_new_node_step:
  assumes new: "node_new M (config n) (log n) m = Inr n'" and ok: "elect_ok V cast n"
    and "outbox n = []"
  shows "node_step V cast n n'"
proof -
  have "elect_ok V cast n'"
    using ok by (intro node_new_elect_ok [OF new]) (auto simp: elect_ok_def member_ok_def static_node_def)
  moreover have "vote_mono n n'"
    using ok node_new_fields [OF new] by (simp add: vote_mono_def elect_ok_def member_ok_def)
  ultimately show ?thesis
    using node_new_fields [OF new] assms(3) by (simp add: node_step_def)
qed

section \<open>The invariant\<close>

definition cluster_inv :: "membership \<Rightarrow> 'm cluster \<Rightarrow> bool" where
  "cluster_inv V c \<longleftrightarrow>
     (\<forall>i n. replicas c i = Some n \<longrightarrow> node_id n = i \<and> outbox n = [] \<and> elect_ok V (ballots c) n)
     \<and> (\<forall>e \<in> net c. valid_env V (ballots c) e)
     \<and> (\<forall>(i, t, v) \<in> ballots c. t < u64_max \<longrightarrow>
          (\<exists>n. replicas c i = Some n \<and> (t < node_term n \<or> hard n = \<lparr>hs_term = t, hs_voted_for = Some v\<rparr>)))
     \<and> (\<forall>i t v w. (i, t, v) \<in> ballots c \<and> (i, t, w) \<in> ballots c \<and> t < u64_max \<longrightarrow> v = w)
     \<and> (\<forall>(i, t) \<in> reigns c. \<exists>Q. decides V Q \<and> (\<forall>p \<in> Q. (p, t, i) \<in> ballots c))"

lemma cluster_invI:
  assumes "\<And>i n. replicas c i = Some n \<Longrightarrow> node_id n = i \<and> outbox n = [] \<and> elect_ok V (ballots c) n"
    and "\<And>e. e \<in> net c \<Longrightarrow> valid_env V (ballots c) e"
    and "\<And>i t v. (i, t, v) \<in> ballots c \<Longrightarrow> t < u64_max \<Longrightarrow>
          \<exists>n. replicas c i = Some n \<and> (t < node_term n \<or> hard n = \<lparr>hs_term = t, hs_voted_for = Some v\<rparr>)"
    and "\<And>i t v w. (i, t, v) \<in> ballots c \<Longrightarrow> (i, t, w) \<in> ballots c \<Longrightarrow> t < u64_max \<Longrightarrow> v = w"
    and "\<And>i t. (i, t) \<in> reigns c \<Longrightarrow> \<exists>Q. decides V Q \<and> (\<forall>p \<in> Q. (p, t, i) \<in> ballots c)"
  shows "cluster_inv V c"
  using assms unfolding cluster_inv_def by blast

lemma cluster_invD:
  assumes "cluster_inv V c"
  shows "replicas c i = Some n \<Longrightarrow> node_id n = i \<and> outbox n = [] \<and> elect_ok V (ballots c) n"
    and "e \<in> net c \<Longrightarrow> valid_env V (ballots c) e"
    and "(i, t, v) \<in> ballots c \<Longrightarrow> t < u64_max \<Longrightarrow>
          \<exists>n. replicas c i = Some n \<and> (t < node_term n \<or> hard n = \<lparr>hs_term = t, hs_voted_for = Some v\<rparr>)"
    and "(i, t, v) \<in> ballots c \<Longrightarrow> (i, t, w) \<in> ballots c \<Longrightarrow> t < u64_max \<Longrightarrow> v = w"
    and "(i, t) \<in> reigns c \<Longrightarrow> \<exists>Q. decides V Q \<and> (\<forall>p \<in> Q. (p, t, i) \<in> ballots c)"
  using assms unfolding cluster_inv_def by blast+

lemma cluster_start_inv:
  assumes c: "cluster_start M V c"
  shows "cluster_inv V c"
proof (rule cluster_invI)
  fix i n assume "replicas c i = Some n"
  with c obtain cfg m where i: "i \<in> set (voters V)" "cfg_id cfg = i" "initial_membership cfg = V"
      and new: "node_new M cfg memory_log_new m = Inr n"
    unfolding cluster_start_def by blast
  moreover have "static_log V memory_log_new" by (simp add: static_log_def memory_log_new_def)
  ultimately show "node_id n = i \<and> outbox n = [] \<and> elect_ok V (ballots c) n"
    using node_new_fields [OF new] node_new_elect_ok [OF new] by simp
qed (use c in \<open>auto simp: cluster_start_def\<close>)

section \<open>Every step keeps the invariant\<close>

lemma elect_ok_mono: "elect_ok V cast n \<Longrightarrow> cast \<subseteq> cast' \<Longrightarrow> elect_ok V cast' n"
  unfolding elect_ok_def elected_def votes_cast_def by fastforce

lemma elect_ok_outbox [simp]: "elect_ok V cast (n\<lparr>outbox := ms\<rparr>) = elect_ok V cast n"
  by (simp add: elect_ok_def member_ok_def static_node_def elected_def votes_cast_def)

lemma valid_env_mono: "valid_env V cast e \<Longrightarrow> cast \<subseteq> cast' \<Longrightarrow> valid_env V cast' e"
  by (auto simp: valid_env_def)

lemma ballot_iff: "(j, t, v) \<in> ballot i n \<longleftrightarrow> j = i \<and> hard n = \<lparr>hs_term = t, hs_voted_for = Some v\<rparr>"
  by (cases "hard n") (auto simp: ballot_def split: option.splits)

lemma settle_fields:
  "replicas (settle i n c) = (replicas c)(i \<mapsto> n\<lparr>outbox := []\<rparr>)"
  "net (settle i n c) = net c \<union> set (outbox n)"
  "ballots (settle i n c) = ballots c \<union> ballot i n"
  "reigns (settle i n c) = reigns c \<union> reign i n"
  by (simp_all add: settle_def take_messages_def)

lemma vote_stands:
  assumes "vote_mono n n'" and "t < u64_max"
    and "t < node_term n \<or> hard n = \<lparr>hs_term = t, hs_voted_for = Some v\<rparr>"
  shows "t < node_term n' \<or> hard n' = \<lparr>hs_term = t, hs_voted_for = Some v\<rparr>"
proof -
  have "node_term n \<le> node_term n'"
    "node_term n' = node_term n \<and> node_term n < u64_max \<and> hs_voted_for (hard n) \<noteq> None \<Longrightarrow>
      hs_voted_for (hard n') = hs_voted_for (hard n)"
    using assms(1) by (simp_all add: vote_mono_def)
  with assms(2,3) show ?thesis by (cases "hard n'") auto
qed

lemma settle_inv:
  assumes inv: "cluster_inv V c" and n: "replicas c i = Some n" and ns: "node_step V (ballots c) n n'"
  shows "cluster_inv V (settle i n' c)"
proof -
  note old = cluster_invD [OF inv]
  have i: "node_id n = i" and out: "outbox n = []" using old(1) [OF n] by auto
  have vm: "vote_mono n n'" and ok: "elect_ok V (ballots c) n'" using ns by (auto simp: node_step_def)
  have id': "node_id n' = i" using vm i by (simp add: vote_mono_def)
  have iV: "i \<in> set (voters V)" using ok id' by (simp add: elect_ok_def member_ok_def)
  have sent: "valid_env V (ballots c \<union> ballot i n') e" if "e \<in> set (outbox n')" for e
    using ns that out i iV by (auto simp: node_step_def valid_env_def ballot_iff)
  have stands: "\<exists>m. replicas (settle i n' c) j = Some m
      \<and> (t < node_term m \<or> hard m = \<lparr>hs_term = t, hs_voted_for = Some v\<rparr>)"
    if vote: "(j, t, v) \<in> ballots c" and small: "t < u64_max" for j t v
    using old(3) [OF vote small] vote_stands [OF vm small] n
    by (cases "j = i") (auto simp: settle_fields)
  show ?thesis
  proof (rule cluster_invI)
    fix j m assume "replicas (settle i n' c) j = Some m"
    then show "node_id m = j \<and> outbox m = [] \<and> elect_ok V (ballots (settle i n' c)) m"
      using old(1) [of j m] id' ok by (auto simp: settle_fields split: if_splits intro: elect_ok_mono)
  next
    fix e assume "e \<in> net (settle i n' c)"
    then show "valid_env V (ballots (settle i n' c)) e"
      using sent old(2) by (auto simp: settle_fields intro: valid_env_mono)
  next
    fix j t v assume "(j, t, v) \<in> ballots (settle i n' c)" "t < u64_max"
    then show "\<exists>m. replicas (settle i n' c) j = Some m
        \<and> (t < node_term m \<or> hard m = \<lparr>hs_term = t, hs_voted_for = Some v\<rparr>)"
      using stands by (auto simp: settle_fields(3) ballot_iff) (simp add: settle_fields)
  next
    fix j t v w
    assume "(j, t, v) \<in> ballots (settle i n' c)" "(j, t, w) \<in> ballots (settle i n' c)" "t < u64_max"
    then show "v = w"
      using old(4) stands [of j t v] stands [of j t w]
      by (fastforce simp: settle_fields ballot_iff)
  next
    fix j t assume "(j, t) \<in> reigns (settle i n' c)"
    then show "\<exists>Q. decides V Q \<and> (\<forall>p \<in> Q. (p, t, j) \<in> ballots (settle i n' c))"
    proof (cases "(j, t) \<in> reigns c")
      case True
      then show ?thesis using old(5) by (fastforce simp: settle_fields)
    next
      case False
      with \<open>(j, t) \<in> reigns (settle i n' c)\<close>
      have lead: "node_role n' = Leader" "j = i" "t = node_term n'"
        by (auto simp: settle_fields reign_def is_leader_def split: if_splits)
      with ok have "elected V (ballots c) n'" by (simp add: elect_ok_def)
      then obtain Q where Q: "decides V Q" "\<forall>p \<in> Q. p = i \<or> (p, t, i) \<in> ballots c"
        and self: "hs_voted_for (hard n') = Some i"
        using id' lead by (auto simp: elected_def)
      have "(i, t, i) \<in> ballot i n'"
        using self lead by (cases "hard n'") (simp add: ballot_iff)
      with Q lead show ?thesis by (auto simp: settle_fields)
    qed
  qed
qed

lemma cluster_step_inv:
  assumes "cluster_step M c c'" and inv: "cluster_inv V c"
  shows "cluster_inv V c'"
  using assms(1)
proof cases
  case (time i n)
  then show ?thesis using cluster_invD(1) [OF inv] by (auto intro!: settle_inv [OF inv] tick_node_step)
next
  case (deliver e n)
  then show ?thesis
    using cluster_invD(1,2) [OF inv] by (auto intro!: settle_inv [OF inv] step_node_step)
next
  case (client i n cmd)
  then show ?thesis using cluster_invD(1) [OF inv] by (auto intro!: settle_inv [OF inv] propose_node_step)
next
  case (restart i n m n')
  then show ?thesis
    using cluster_invD(1) [OF inv] by (auto intro!: settle_inv [OF inv] node_new_node_step)
qed

lemma reachable_inv: "reachable M V c \<Longrightarrow> cluster_inv V c"
  by (induction rule: reachable.induct) (auto intro: cluster_start_inv cluster_step_inv)

text \<open>Two deciding sets of votes share a voter, and it voted once.\<close>

lemma reigns_unique:
  assumes "cluster_inv V c" and "(i, t) \<in> reigns c" and "(j, t) \<in> reigns c" and "t < u64_max"
  shows "i = j"
proof -
  note inv = cluster_invD [OF assms(1)]
  obtain A where A: "decides V A" "\<And>p. p \<in> A \<Longrightarrow> (p, t, i) \<in> ballots c" using inv(5) assms(2) by blast
  obtain B where B: "decides V B" "\<And>p. p \<in> B \<Longrightarrow> (p, t, j) \<in> ballots c" using inv(5) assms(3) by blast
  show ?thesis
    using majority.one_winner [OF A(1) B(1), where cast = "\<lambda>p v. (p, t, v) \<in> ballots c" and c = i and d = j] A(2) B(2) inv(4) assms(4) by blast
qed

end
