(* ===== verification/Raft_Scenario.thy ===== *)
theory Raft_Scenario
  imports Raft_Cluster Raft_Example
begin

text \<open>
  One concrete run, on which the theorems about clusters are instantiated: three replicas, replica 1
  times out, replica 2 votes for it, and replica 1 leads term 1.
\<close>

section \<open>An election\<close>

definition vote_request :: envelope where
  "vote_request = \<lparr>env_from = 1, env_to = 2, env_message = VoteRequest 1 0 0\<rparr>"

definition vote_response :: envelope where
  "vote_response = \<lparr>env_from = 2, env_to = 1, env_message = VoteResponse 1 True\<rparr>"

definition noop_entry :: log_entry where
  "noop_entry = \<lparr>le_term = 1, le_index = 1, le_payload = Noop\<rparr>"

definition replica1 :: "memory_machine raft_node" where
  "replica1 = demo_node 1"

definition replica2 :: "memory_machine raft_node" where
  "replica2 = demo_node 2"

definition ticked1 :: "memory_machine raft_node" where
  "ticked1 = replica1\<lparr>election_elapsed := 1, ticks := 1\<rparr>"

definition candidate1 :: "memory_machine raft_node" where
  "candidate1 = replica1\<lparr>node_role := Candidate, hard := \<lparr>hs_term = 1, hs_voted_for = Some 1\<rparr>,
     log := memory_log_new\<lparr>ml_hard := \<lparr>hs_term = 1, hs_voted_for = Some 1\<rparr>\<rparr>,
     votes := [(1, True)], node_rng := snd (next_u64 (demo_seed 1)), ticks := 2\<rparr>"

definition voter2 :: "memory_machine raft_node" where
  "voter2 = replica2\<lparr>hard := \<lparr>hs_term = 1, hs_voted_for = Some 1\<rparr>,
     log := memory_log_new\<lparr>ml_hard := \<lparr>hs_term = 1, hs_voted_for = Some 1\<rparr>\<rparr>,
     node_rng := snd (next_u64 (snd (next_u64 (demo_seed 2))))\<rparr>"

definition peer_progress :: "log_index \<Rightarrow> log_index \<Rightarrow> progress" where
  "peer_progress next_idx matched =
     \<lparr>next_index = next_idx, match_index = matched, last_contact = 2, snapshot_in_flight = False\<rparr>"

definition leader1 :: "memory_machine raft_node" where
  "leader1 = candidate1\<lparr>node_role := Leader, leader := Some 1, votes := [],
     log := (log candidate1)\<lparr>ml_held := [noop_entry]\<rparr>,
     node_progress := [3 \<mapsto> peer_progress 1 0, 2 \<mapsto> peer_progress 1 0, 1 \<mapsto> peer_progress 2 1]\<rparr>"

lemma demo_tick1: "tick demo_machine replica1 = ok () ticked1"
  by (simp add: ticked1_def replica1_def demo_evals node_evals)

lemma demo_tick2:
  "tick demo_machine ticked1 =
     ok () (candidate1\<lparr>outbox := map (\<lambda>p. \<lparr>env_from = 1, env_to = p, env_message = VoteRequest 1 0 0\<rparr>) [2, 3]\<rparr>)"
  by (simp add: ticked1_def replica1_def candidate1_def demo_evals node_evals)

lemma demo_vote: "step demo_machine vote_request replica2 = ok () (voter2\<lparr>outbox := [vote_response]\<rparr>)"
  by (simp add: vote_request_def vote_response_def replica2_def voter2_def demo_evals node_evals)

lemma demo_win:
  "step demo_machine vote_response candidate1 =
     ok () (leader1\<lparr>outbox := map (\<lambda>p. \<lparr>env_from = 1, env_to = p, env_message = AppendEntries 1 0 0 [noop_entry] 0\<rparr>) [2, 3]\<rparr>)"
  by (simp add: vote_response_def replica1_def leader1_def candidate1_def peer_progress_def noop_entry_def
      demo_evals node_evals) (simp add: numeral_2_eq_2)

lemma demo_ready [simp]:
  "ticked1\<lparr>outbox := []\<rparr> = ticked1" "candidate1\<lparr>outbox := []\<rparr> = candidate1"
  by (simp_all add: ticked1_def candidate1_def replica1_def demo_node_def)

lemma leader1_lead [simp]: "is_leader (node_role leader1)" "node_term leader1 = 1"
  by (simp_all add: leader1_def candidate1_def is_leader_def)

definition demo0 :: "memory_machine cluster" where
  "demo0 = \<lparr>replicas = [1 \<mapsto> replica1, 2 \<mapsto> replica2, 3 \<mapsto> demo_node 3],
     net = {}, ballots = {}, reigns = {}\<rparr>"

definition demo1 :: "memory_machine cluster" where
  "demo1 = settle 1 (snd (tick demo_machine ticked1))
     (settle 1 (snd (tick demo_machine replica1)) demo0)"

definition demo2 :: "memory_machine cluster" where
  "demo2 = settle 1 (snd (step demo_machine vote_response candidate1))
     (settle 2 (snd (step demo_machine vote_request replica2)) demo1)"

lemma demo0_start: "cluster_start demo_machine demo_voters demo0"
proof -
  have "\<exists>cfg m. cfg_id cfg = i \<and> initial_membership cfg = demo_voters
      \<and> node_new demo_machine cfg memory_log_new m = Inr (demo_node i)" if "i \<in> {1, 2, 3}" for i
    using demo_new [OF that] by (intro exI [of _ "demo_config i"]) auto
  then show ?thesis
    by (auto simp: cluster_start_def demo0_def demo_voters_def replica1_def replica2_def split: if_splits)
qed

lemma demo0_reachable: "reachable demo_machine demo_voters demo0"
  by (rule reachable.start [OF demo0_start])

lemma demo1_reachable: "reachable demo_machine demo_voters demo1"
proof -
  have "cluster_step demo_machine demo0 (settle 1 (snd (tick demo_machine replica1)) demo0)"
    by (rule cluster_step.time) (simp add: demo0_def)
  then have r: "reachable demo_machine demo_voters (settle 1 (snd (tick demo_machine replica1)) demo0)"
    by (rule reachable.further [OF demo0_reachable])
  show ?thesis
    unfolding demo1_def
    by (rule reachable.further [OF r], rule cluster_step.time)
      (simp add: settle_fields demo_tick1)
qed

lemma demo2_reachable: "reachable demo_machine demo_voters demo2"
proof -
  let ?c = "settle 2 (snd (step demo_machine vote_request replica2)) demo1"
  have "cluster_step demo_machine demo1 (settle (env_to vote_request) (snd (step demo_machine vote_request replica2)) demo1)"
    by (rule cluster_step.deliver)
      (simp_all add: demo1_def demo0_def settle_fields demo_tick2 vote_request_def)
  then have r: "reachable demo_machine demo_voters ?c"
    using reachable.further [OF demo1_reachable] by (simp add: vote_request_def)
  have "cluster_step demo_machine ?c (settle (env_to vote_response) (snd (step demo_machine vote_response candidate1)) ?c)"
    by (rule cluster_step.deliver)
      (simp_all add: demo1_def demo0_def settle_fields demo_tick1 demo_tick2 demo_vote vote_response_def)
  then show ?thesis
    using reachable.further [OF r] by (simp add: demo2_def vote_response_def)
qed

lemma demo2_reign: "(1, 1) \<in> reigns demo2"
  by (simp add: demo2_def settle_fields demo_win reign_def)

end
