(* ===== verification/Raft_Safety.thy ===== *)
theory Raft_Safety
  imports Raft_Scenario
begin

text \<open>
  The election properties: at most one leader per term on an unreliable network, leaders that hold
  a majority of votes, a vote that stands until its term ends, and a term and vote that survive a
  crash.
\<close>

lemma feed_vote_mono: "vote_mono n (feed M i n)"
  by (cases i)
    (simp_all add: tick_vote_mono step_vote_mono propose_vote_mono propose_membership_vote_mono)

section \<open>Election safety\<close>

text \<open>
  C4: election safety. In every execution of a cluster with a fixed configuration, over any
  interleaving of ticks, client commands, crashes with restart, and deliveries on a network that
  may lose, delay, reorder and duplicate envelopes, two replicas that led in the same term are the
  same replica. The bound excludes the one term that cannot be incremented.
\<close>

theorem election_safety:
  assumes "reachable M V c" and "(i, t) \<in> reigns c" and "(j, t) \<in> reigns c" and "t < u64_max"
  shows "i = j"
  using reigns_unique [OF reachable_inv] assms by blast

theorem election_safety_witness:
  "reachable demo_machine demo_voters demo2 \<and> {j. (j, 1) \<in> reigns demo2} = {1}"
proof -
  have "j = 1" if "(j, 1) \<in> reigns demo2" for j
    using election_safety [OF demo2_reachable demo2_reign that] by (simp add: u64_max_eq)
  with demo2_reachable demo2_reign show ?thesis by auto
qed

text \<open>
  a leader was elected. Every replica that is seen leading in a term holds the votes of a
  majority of the configuration, each cast in that term for that replica.
\<close>

lemma leader_has_majority:
  assumes "reachable M V c" and "(i, t) \<in> reigns c"
  shows "\<exists>Q \<subseteq> set (voters V). is_quorum V (card Q) \<and> (\<forall>p \<in> Q. (p, t, i) \<in> ballots c)"
  using cluster_invD(5) [OF reachable_inv [OF assms(1)] assms(2)] by (auto simp: decides_def)

lemma leader_has_majority_witness:
  "\<exists>Q. Q \<subseteq> {1, 2, 3} \<and> is_quorum demo_voters (card Q) \<and> Q \<subseteq> {p. (p, 1, 1) \<in> ballots demo2}"
  using leader_has_majority [OF demo2_reachable demo2_reign] by (auto simp: demo_voters_def)

section \<open>Votes\<close>

text \<open>
  C22: one vote per term. No input makes a replica's term go back, and while the term stays, and is
  not the largest one, the vote it has cast in it stays: a second candidate of the term never gets it.
\<close>

theorem one_vote_per_term:
  "node_term n \<le> node_term (feed M i n)
   \<and> (node_term n < u64_max \<and> node_term (feed M i n) = node_term n \<and> hs_voted_for (hard n) = Some v
      \<longrightarrow> hs_voted_for (hard (feed M i n)) = Some v)"
  using feed_vote_mono [of n M i] by (auto simp: vote_mono_def)

theorem one_vote_per_term_witness:
  "hs_voted_for (hard voter2) = Some 1 \<and> node_term voter2 = 1
   \<and> node_term (feed demo_machine InTick voter2) = 1
   \<and> hs_voted_for (hard (feed demo_machine InTick voter2)) = Some 1"
proof -
  have "hs_voted_for (hard voter2) = Some 1" "node_term voter2 = 1"
    "node_term (feed demo_machine InTick voter2) = 1"
    by (simp_all add: voter2_def replica2_def demo_evals node_evals)
  then show ?thesis
    using one_vote_per_term [of voter2 demo_machine InTick 1] by (simp add: u64_max_eq)
qed

text \<open>
  crash safety of the vote. Whatever the last input was, a replica that restarts from its log
  comes back as a follower with exactly the term and the vote it had when it stopped.
\<close>

lemma restart_keeps_vote:
  assumes "hard n = ml_hard (log n)" and "node_new M (config n) (log (feed M i n)) m = Inr n'"
  shows "hard n' = hard (feed M i n) \<and> node_role n' = Follower \<and> log n' = log (feed M i n)"
  using node_new_fields [OF assms(2)] feed_vote_mono [of n M i] assms(1) by (simp add: vote_mono_def)

lemma restart_keeps_vote_witness:
  "\<exists>n'. node_new demo_machine (config replica2) (log (feed demo_machine (InStep vote_request) replica2)) memory_machine_new = Inr n'
     \<and> hard n' = \<lparr>hs_term = 1, hs_voted_for = Some 1\<rparr>"
proof -
  have log: "log (feed demo_machine (InStep vote_request) replica2) = log voter2"
    "hard (feed demo_machine (InStep vote_request) replica2) = \<lparr>hs_term = 1, hs_voted_for = Some 1\<rparr>"
    by (simp_all add: demo_vote ok_def) (simp add: voter2_def)
  have "\<exists>n'. node_new demo_machine (config replica2) (log voter2) memory_machine_new = Inr n'"
    by (simp add: node_new_def demo_config_ok replica2_def voter2_def demo_evals node_evals)
  then obtain n' where new: "node_new demo_machine (config replica2)
      (log (feed demo_machine (InStep vote_request) replica2)) memory_machine_new = Inr n'"
    using log(1) by auto
  have "hard replica2 = ml_hard (log replica2)"
    by (simp add: replica2_def demo_node_def memory_log_new_def)
  from restart_keeps_vote [OF this new] new log(2) show ?thesis by auto
qed

end
