(* ===== verification/Raft_Invariant.thy ===== *)
theory Raft_Invariant
  imports Raft_Apply Raft_Safety
begin

text \<open>
  What holds of a replica after any input whatsoever, well formed or not: its log stays a
  contiguous run of indices that starts right after the snapshot. The argument is one preorder
  carried through every operation by \<open>state_preorder\<close>.
\<close>

section \<open>The log stays contiguous\<close>

definition log_keeps :: "'m raft_node \<Rightarrow> 'm raft_node \<Rightarrow> bool" where
  "log_keeps n n' \<longleftrightarrow> (log_wf (log n) \<longrightarrow> log_wf (log n'))"

interpretation lk: state_preorder log_keeps
  by unfold_locales (auto simp: log_keeps_def)

lemma log_keeps_same: "log_keeps s n \<Longrightarrow> log n' = log n \<Longrightarrow> log_keeps s n'"
  by (simp add: log_keeps_def)

lemma log_wf_hard [simp]: "log_wf (ml_save_hard_state h l) = log_wf l"
  by (simp add: log_wf_def ml_save_hard_state_def ml_first_index_def)

lemma ml_append_wf:
  assumes wf: "log_wf l" and l': "ml_append es l = Inr l'"
  shows "log_wf l'"
proof -
  have es: "\<forall>k < length es. le_index (es ! k) = sat_add (index_next (ml_last_index l)) k"
    and held: "l' = l\<lparr>ml_held := ml_held l @ es\<rparr>"
    using l' by (cases rule: ml_append_cases [of es l]; simp)+
  have next_eq: "index_next (ml_last_index l) = sat_add (ml_first_index l) (length (ml_held l))"
  proof (cases "ml_held l = []")
    case True
    then show ?thesis
      by (auto simp: ml_last_index_def ml_first_index_def index_next_def scalar_defs sat_add_def u64_max_eq
          split: option.splits)
  next
    case False
    then have "le_index (last (ml_held l)) = sat_add (ml_first_index l) (length (ml_held l) - 1)"
      using wf by (simp add: log_wf_def last_conv_nth)
    with False show ?thesis
      by (simp add: ml_last_index_def index_next_def sat_add_assoc)
  qed
  show ?thesis
    unfolding log_wf_def held
  proof (intro allI impI)
    fix k assume "k < length (ml_held (l\<lparr>ml_held := ml_held l @ es\<rparr>))"
    then show "le_index (ml_held (l\<lparr>ml_held := ml_held l @ es\<rparr>) ! k) = sat_add (ml_first_index (l\<lparr>ml_held := ml_held l @ es\<rparr>)) k"
      using wf es by (auto simp: log_wf_def nth_append next_eq sat_add_assoc not_less)
  qed
qed

lemma ml_truncate_wf: "log_wf l \<Longrightarrow> ml_truncate_from i l = Inr l' \<Longrightarrow> log_wf l'"
  by (auto simp: ml_truncate_from_def Let_def log_wf_def split: if_splits option.splits)

lemma log_keeps_lift:
  "log_keeps s n \<Longrightarrow> l = log n \<Longrightarrow> log_keeps s (snd (lift_part (ml_append es l) (\<lambda>l n. n\<lparr>log := l\<rparr>) n))"
  "log_keeps s n \<Longrightarrow> l = log n \<Longrightarrow> log_keeps s (snd (lift_part (ml_truncate_from i l) (\<lambda>l n. n\<lparr>log := l\<rparr>) n))"
  "log_keeps s n \<Longrightarrow> l = log n \<Longrightarrow> log_keeps s (snd (lift_part (ml_save_snapshot sn l) (\<lambda>l n. n\<lparr>log := l\<rparr>) n))"
  by (auto simp: log_keeps_def snd_lift_part split: sum.split
      dest: ml_append_wf ml_truncate_wf ml_save_snapshot_wf)

lemma log_same [simp]:
  "log (reset_election_timer n) = log n" "log (send p m n) = log n" "log (note_contact p n) = log n"
  "log (reset_progress n) = log n" "log (maybe_advance_commit n) = log n"
  "log (send_snapshot p n) = log n" "log (snd (send_append p n)) = log n"
  "log (snd (recompute_membership n)) = log n" "log (fold (\<lambda>p n. send p (f p n) n) ps n) = log n"
proof -
  show send: "log (send p m n) = log n" for p m and n :: "'a raft_node" by (simp add: send_def)
  show "log (reset_election_timer n) = log n" by (simp add: reset_election_timer_def split: prod.split)
  show "log (note_contact p n) = log n" by (simp add: note_contact_def split: option.split)
  show "log (reset_progress n) = log n" by (simp add: reset_progress_def Let_def)
  show "log (maybe_advance_commit n) = log n"
    by (simp add: maybe_advance_commit_def Let_def split: option.split)
  show snap: "log (send_snapshot p n) = log n" for p and n :: "'a raft_node"
    by (simp add: send_snapshot_def send_def Let_def split: option.split)
  show "log (snd (send_append p n)) = log n"
    by (simp add: send_append_def Let_def snap send ok_def err_def split: option.split sum.split)
  show "log (snd (recompute_membership n)) = log n"
    by (simp add: recompute_membership_def Let_def ok_def err_def split: sum.split)
  show "log (fold (\<lambda>p n. send p (f p n) n) ps n) = log n"
    by (induction ps arbitrary: n) (simp_all add: send_def)
qed

interpretation sl: state_preorder "\<lambda>n n'. log n' = log n"
  by unfold_locales auto

lemma log_broadcast [simp]: "log (snd (broadcast_append n)) = log n"
  unfolding broadcast_append_def by (rule sl.rel_for_each) simp_all

lemma log_keeps_strip:
  "log_keeps s n \<Longrightarrow> log_keeps s (reset_election_timer n)" "log_keeps s n \<Longrightarrow> log_keeps s (send p m n)"
  "log_keeps s n \<Longrightarrow> log_keeps s (note_contact p n)" "log_keeps s n \<Longrightarrow> log_keeps s (reset_progress n)"
  "log_keeps s n \<Longrightarrow> log_keeps s (maybe_advance_commit n)" "log_keeps s n \<Longrightarrow> log_keeps s (snd (send_append p n))"
  "log_keeps s n \<Longrightarrow> log_keeps s (snd (broadcast_append n))"
  "log_keeps s n \<Longrightarrow> log_keeps s (snd (recompute_membership n))"
  "log_keeps s n \<Longrightarrow> log_keeps s (fold (\<lambda>p n. send p (f p n) n) ps n)"
  by (erule log_keeps_same, simp)+

lemma log_keeps_strip_update:
  "log_keeps s n \<Longrightarrow> log_keeps s (n\<lparr>node_role := x1\<rparr>)" "log_keeps s n \<Longrightarrow> log_keeps s (n\<lparr>leader := x2\<rparr>)"
  "log_keeps s n \<Longrightarrow> log_keeps s (n\<lparr>machine := x3\<rparr>)" "log_keeps s n \<Longrightarrow> log_keeps s (n\<lparr>commit_index := x4\<rparr>)"
  "log_keeps s n \<Longrightarrow> log_keeps s (n\<lparr>last_applied := x5\<rparr>)" "log_keeps s n \<Longrightarrow> log_keeps s (n\<lparr>node_membership := x6\<rparr>)"
  "log_keeps s n \<Longrightarrow> log_keeps s (n\<lparr>node_progress := x7\<rparr>)" "log_keeps s n \<Longrightarrow> log_keeps s (n\<lparr>votes := x8\<rparr>)"
  "log_keeps s n \<Longrightarrow> log_keeps s (n\<lparr>election_elapsed := x9\<rparr>)" "log_keeps s n \<Longrightarrow> log_keeps s (n\<lparr>heartbeat_elapsed := x10\<rparr>)"
  "log_keeps s n \<Longrightarrow> log_keeps s (n\<lparr>applied := x11\<rparr>)" "log_keeps s n \<Longrightarrow> log_keeps s (n\<lparr>hard := x12\<rparr>)"
  "log_keeps s n \<Longrightarrow> log_keeps s (n\<lparr>pending_config := x15\<rparr>)" "log_keeps s n \<Longrightarrow> log_keeps s (n\<lparr>ticks := x16\<rparr>)"
  by (simp_all add: log_keeps_def)

lemmas lk_rules = log_keeps_strip log_keeps_strip_update lk.rel_try_then lk.rel_ok lk.rel_err lk.rel_refl

lemma save_hard_state_keeps: "log_keeps s n \<Longrightarrow> log_keeps s (save_hard_state t v n)"
  by (simp add: log_keeps_def save_hard_state_def Let_def)

lemma become_follower_keeps: "log_keeps s n \<Longrightarrow> log_keeps s (become_follower t l n)"
  unfolding become_follower_def Let_def by (auto intro!: lk_rules save_hard_state_keeps)

lemma take_snapshot_keeps: "log_keeps s n \<Longrightarrow> log_keeps s (snd (take_snapshot M n))"
  unfolding take_snapshot_def Let_def
  by (auto intro!: lk_rules log_keeps_lift split: option.split sum.split)

lemma apply_committed_keeps: "log_keeps s n \<Longrightarrow> log_keeps s (snd (apply_committed M n))"
proof -
  have one: "log_keeps s n \<Longrightarrow> log_keeps s (snd (apply_one M n))" for s n :: "'a raft_node"
    unfolding apply_one_def Let_def
    by (auto intro!: lk_rules split: option.split entry_payload.split prod.split sum.split)
  have loop: "log_keeps s n \<Longrightarrow> log_keeps s (snd (apply_loop k M n))" for k and s n :: "'a raft_node"
    by (induction k arbitrary: n) (auto intro!: lk_rules one)
  have compact: "log_keeps s n \<Longrightarrow> log_keeps s (snd (maybe_compact M n))" for s n :: "'a raft_node"
    unfolding maybe_compact_def Let_def by (auto intro!: lk_rules take_snapshot_keeps)
  show "log_keeps s n \<Longrightarrow> log_keeps s (snd (apply_committed M n))"
    unfolding apply_committed_def by (auto intro!: lk_rules loop compact)
qed

lemma merge_entries_keeps: "log_keeps s n \<Longrightarrow> log_keeps s (snd (merge_entries es n))"
  unfolding merge_entries_def Let_def
  by (auto intro!: lk_rules log_keeps_lift split: prod.split option.split)

lemma append_local_keeps: "log_keeps s n \<Longrightarrow> log_keeps s (snd (append_local M payload n))"
  unfolding append_local_def Let_def
  by (auto intro!: lk_rules log_keeps_lift apply_committed_keeps split: option.split)

lemma become_leader_keeps: "log_keeps s n \<Longrightarrow> log_keeps s (snd (become_leader M n))"
  unfolding become_leader_def Let_def by (auto intro!: lk_rules append_local_keeps)

lemma campaign_keeps: "log_keeps s n \<Longrightarrow> log_keeps s (snd (campaign M n))"
  unfolding campaign_def Let_def by (auto intro!: lk_rules become_leader_keeps save_hard_state_keeps)

lemma campaign_pre_vote_keeps: "log_keeps s n \<Longrightarrow> log_keeps s (snd (campaign_pre_vote M n))"
  unfolding campaign_pre_vote_def Let_def by (auto intro!: lk_rules campaign_keeps)

lemma count_vote_keeps: "log_keeps s n \<Longrightarrow> log_keeps s (snd (count_vote M pre p granted n))"
  unfolding count_vote_def Let_def by (auto intro!: lk_rules campaign_keeps become_leader_keeps)

lemma handle_vote_request_keeps: "log_keeps s n \<Longrightarrow> log_keeps s (handle_vote_request p msg n)"
  by (cases msg) (auto simp: Let_def intro!: lk_rules save_hard_state_keeps)

lemma handle_append_entries_keeps: "log_keeps s n \<Longrightarrow> log_keeps s (snd (handle_append_entries M p msg n))"
  by (cases msg)
    (auto simp: Let_def intro!: lk_rules merge_entries_keeps apply_committed_keeps become_follower_keeps)

lemma handle_append_response_keeps: "log_keeps s n \<Longrightarrow> log_keeps s (snd (handle_append_response M p msg n))"
  by (cases msg) (auto simp: Let_def intro!: lk_rules apply_committed_keeps split: option.split)

lemma handle_install_snapshot_keeps: "log_keeps s n \<Longrightarrow> log_keeps s (snd (handle_install_snapshot M p msg n))"
proof -
  have inst: "log_keeps s (m\<lparr>machine := x, log := ml_install_snapshot sn l\<rparr>)" for m :: "'a raft_node" and x sn l
    by (simp add: log_keeps_def log_wf_def ml_install_snapshot_def)
  show "log_keeps s n \<Longrightarrow> ?thesis"
    by (cases msg)
      (auto simp: Let_def intro!: lk_rules inst become_follower_keeps split: prod.split sum.split)
qed

lemma handle_install_snapshot_response_keeps:
  "log_keeps s n \<Longrightarrow> log_keeps s (snd (handle_install_snapshot_response M p msg n))"
  by (cases msg) (auto simp: Let_def intro!: lk_rules apply_committed_keeps split: option.split)

lemma handle_higher_term_keeps: "log_keeps s n \<Longrightarrow> log_keeps s (handle_higher_term p msg t n)"
  by (cases "(p, msg, t, n)" rule: handle_higher_term.cases) (auto intro: become_follower_keeps)

lemma reject_stale_keeps: "log_keeps s n \<Longrightarrow> log_keeps s (reject_stale p msg n)"
  by (cases "(p, msg, n)" rule: reject_stale.cases) (auto intro: lk_rules)

lemma dispatch_keeps: "log_keeps s n \<Longrightarrow> log_keeps s (snd (dispatch M p msg n))"
  by (cases msg)
    (auto simp: dispatch_def count_vote_keeps handle_vote_request_keeps handle_append_entries_keeps
      handle_append_response_keeps handle_install_snapshot_keeps handle_install_snapshot_response_keeps campaign_keeps
      simp del: handle_vote_request.simps handle_append_entries.simps handle_append_response.simps
        handle_install_snapshot.simps handle_install_snapshot_response.simps)

lemma feed_keeps: "log_keeps n (feed M i n)"
proof (cases i)
  case InTick
  have ticks: "log_keeps s n \<Longrightarrow> log_keeps s (snd (tick_leader n))" "log_keeps s n \<Longrightarrow> log_keeps s (snd (tick_follower M n))"
    for s n :: "'a raft_node"
    unfolding tick_leader_def tick_follower_def Let_def
    by (auto intro!: lk_rules become_follower_keeps campaign_keeps campaign_pre_vote_keeps)
  from InTick show ?thesis by (auto simp: tick_def Let_def intro!: ticks lk_rules)
next
  case (InStep e)
  then show ?thesis
    by (auto simp: step_def Let_def intro!: lk_rules dispatch_keeps handle_higher_term_keeps reject_stale_keeps)
next
  case (InPropose c)
  then show ?thesis by (simp add: propose_def append_local_keeps lk.rel_refl)
next
  case (InMembership c)
  then show ?thesis
    by (auto simp: propose_membership_def Let_def intro!: lk_rules append_local_keeps split: option.split sum.split)
qed

text \<open>
  C24: the log is always contiguous. No input, not even a message with misnumbered entries or a
  snapshot from nowhere, breaks the representation invariant of a replica's log: the held entries
  are numbered one after the other from the first index after the snapshot.
\<close>

theorem log_always_contiguous:
  assumes "log_wf (log n)"
  shows "log_wf (log (feed M i n))"
  using feed_keeps [of n M i] assms by (simp add: log_keeps_def)

theorem log_always_contiguous_witness:
  "log_wf (log (feed demo_machine (InStep (envelope_new 2 1 (AppendEntries 3 0 0 [entry_new 3 9 Noop] 0)))
     ((demo_node 1)\<lparr>log := sample_log\<rparr>)))"
  by (rule log_always_contiguous) (use sample_log_inv in \<open>simp add: log_inv_def\<close>)

end
