(* ===== verification/Raft_Behaviour.thy ===== *)
theory Raft_Behaviour
  imports Raft_Invariant
begin

text \<open>
  The behaviour of a replica branch by branch: what a vote and a pre-vote are granted for, how an
  append is refused, which proposals are refused, when a silent follower campaigns, and how a
  cluster of one elects itself. The last section holds a behaviour that differs from what a comment
  of the code promises.
\<close>

section \<open>Requests for votes\<close>

lemma reset_election_timer_keeps [simp]:
  "config (reset_election_timer n) = config n" "node_role (reset_election_timer n) = node_role n"
  "hard (reset_election_timer n) = hard n" "outbox (reset_election_timer n) = outbox n"
  "commit_index (reset_election_timer n) = commit_index n" "leader (reset_election_timer n) = leader n"
  "node_membership (reset_election_timer n) = node_membership n"
  by (simp_all add: reset_election_timer_def split: prod.split)

lemma become_follower_log:
  "ml_last_term (log (become_follower t l n)) = ml_last_term (log n)"
  "ml_last_index (log (become_follower t l n)) = ml_last_index (log n)"
  "outbox (become_follower t l n) = outbox n" "config (become_follower t l n) = config n"
  by (simp_all add: become_follower_def Let_def save_hard_state_def ml_save_hard_state_def
      ml_last_term_def ml_last_index_def)

lemma become_follower_hard:
  "hard (become_follower t l n) = (if t = node_term n then hard n else \<lparr>hs_term = t, hs_voted_for = None\<rparr>)"
  by (auto simp: become_follower_def Let_def save_hard_state_def hard_state_new_def)

lemma become_follower_store:
  "log (become_follower t l n) = (log n)\<lparr>ml_hard := (if t = node_term n then ml_hard (log n) else \<lparr>hs_term = t, hs_voted_for = None\<rparr>)\<rparr>"
  by (simp add: become_follower_def Let_def save_hard_state_def ml_save_hard_state_def hard_state_new_def
      reset_election_timer_def split: prod.split) (metis hard_state.select_convs(1))

lemma save_hard_state_store:
  "hard n = ml_hard (log n) \<Longrightarrow> log (save_hard_state t v n) = (log n)\<lparr>ml_hard := \<lparr>hs_term = t, hs_voted_for = v\<rparr>\<rparr>"
  by (auto simp: save_hard_state_def Let_def ml_save_hard_state_def hard_state_new_def)

text \<open>
  C25: what a vote is granted for. A request of the current or a later term is always answered in
  the request's term. It is granted exactly when the candidate's last entry is of a later term than
  the replica's, or of the same term with an index at least as large, and the replica has no other
  vote in that term. The vote, or the new term alone when it is refused, is in the log store in the
  very state whose outbox holds the answer, so a crash after the answer is taken from the outbox
  cannot forget it; nothing but a grant records a vote, and the entries of the log stay.
\<close>

theorem vote_rule:
  assumes "env_to e = node_id n" and "env_message e = VoteRequest t i lt" and "node_term n \<le> t"
    and "hard n = ml_hard (log n)"
  shows "let grant = (ml_last_term (log n) < lt \<or> ml_last_term (log n) = lt \<and> ml_last_index (log n) \<le> i)
               \<and> (node_term n < t \<or> hs_voted_for (hard n) = None \<or> hs_voted_for (hard n) = Some (env_from e));
             h = (if grant then \<lparr>hs_term = t, hs_voted_for = Some (env_from e)\<rparr>
                  else if node_term n < t then \<lparr>hs_term = t, hs_voted_for = None\<rparr> else hard n)
         in \<exists>n'. step M e n = ok () n'
              \<and> outbox n' = outbox n @ [\<lparr>env_from = node_id n, env_to = env_from e, env_message = VoteResponse t grant\<rparr>]
              \<and> hard n' = h \<and> log n' = (log n)\<lparr>ml_hard := h\<rparr>"
proof -
  have up: "is_log_up_to_date n i lt \<longleftrightarrow>
      ml_last_term (log n) < lt \<or> ml_last_term (log n) = lt \<and> ml_last_index (log n) \<le> i"
    by (auto simp: is_log_up_to_date_def Let_def)
  have same: "log n = (log n)\<lparr>ml_hard := hard n\<rparr>" using assms(4) by simp
  show ?thesis
  proof (cases "node_term n < t")
    case True
    let ?f = "become_follower t None n"
    have f: "hard ?f = \<lparr>hs_term = t, hs_voted_for = None\<rparr>" "log ?f = (log n)\<lparr>ml_hard := \<lparr>hs_term = t, hs_voted_for = None\<rparr>\<rparr>"
        "is_log_up_to_date ?f i lt = is_log_up_to_date n i lt"
      using True by (simp_all add: become_follower_hard become_follower_store is_log_up_to_date_def
          ml_last_term_def ml_last_index_def)
    show ?thesis
      using assms(1-3) True f save_hard_state_store [of ?f]
      by (auto simp: step_def Let_def is_stale_against_def dispatch_def send_def envelope_new_def up [symmetric]
          become_follower_log can_vote_def has_voted_for_def save_hard_state_hard hard_state_new_def)
  next
    case False
    with assms(3) have "t = node_term n" by simp
    with assms same save_hard_state_store [OF assms(4)] show ?thesis
      by (auto simp: step_def Let_def is_stale_against_def rejects_def dispatch_def send_def envelope_new_def up [symmetric]
          can_vote_def has_voted_for_def save_hard_state_hard hard_state_new_def)
  qed
qed

theorem vote_rule_witness:
  "\<exists>n'. step demo_machine vote_request replica2 = ok () n' \<and> outbox n' = [vote_response]
     \<and> hard n' = \<lparr>hs_term = 1, hs_voted_for = Some 1\<rparr> \<and> ml_hard (log n') = \<lparr>hs_term = 1, hs_voted_for = Some 1\<rparr>"
proof -
  have "node_id replica2 = 2" "node_term replica2 = 0" "hard replica2 = ml_hard (log replica2)" "outbox replica2 = []"
      "ml_last_term (log replica2) = 0" "ml_last_index (log replica2) = 0"
    by (simp_all add: replica2_def demo_node_def memory_log_new_def node_evals)
  with vote_rule [of vote_request replica2 1 0 0 demo_machine] show ?thesis
    by (auto simp: vote_request_def vote_response_def Let_def)
qed

text \<open>
  a pre-vote disturbs nobody. Whatever term a pre-vote request names, the replica that gets it
  only sends one answer: term, vote, role, log, leader and timers are as before. It is granted only
  for a later term, an up-to-date log, and when no leader has been heard from within the timeout.
\<close>

lemma pre_vote_inert:
  assumes "env_to e = node_id n" and "env_message e = PreVoteRequest t i lt"
  shows "step M e n = ok () (n\<lparr>outbox := outbox n @ [envelope_new (node_id n) (env_from e)
    (PreVoteResponse (node_term n) (node_term n < t \<and> is_log_up_to_date n i lt
       \<and> (leader n = None \<or> election_timeout_ticks (config n) \<le> election_elapsed n)))]\<rparr>)"
  using assms
  by (auto simp: step_def Let_def is_stale_against_def rejects_def dispatch_def send_def)

lemma pre_vote_inert_witness:
  "step demo_machine \<lparr>env_from = 3, env_to = 2, env_message = PreVoteRequest 9 0 0\<rparr> replica2 =
     ok () (replica2\<lparr>outbox := [envelope_new 2 3 (PreVoteResponse 0 True)]\<rparr>)"
proof -
  have "is_log_up_to_date replica2 0 0" "node_id replica2 = 2" "node_term replica2 = 0" "outbox replica2 = []"
    "leader replica2 = None"
    by (simp_all add: replica2_def demo_node_def is_log_up_to_date_def memory_log_new_def node_evals)
  with pre_vote_inert [of "\<lparr>env_from = 3, env_to = 2, env_message = PreVoteRequest 9 0 0\<rparr>" replica2 9 0 0 demo_machine]
  show ?thesis by simp
qed

section \<open>Refusals\<close>

text \<open>
  a refused append changes no entry. A leader whose predecessor is past the end of the
  follower's log, or has another term there, is refused with a hint, and the follower's log and
  commit index stay as they are.
\<close>

lemma append_refused:
  assumes "ml_first_index (log n) \<le> Suc prev" and "\<not> is_campaigning (node_role n)"
    and "ml_last_index (log n) < prev \<or> (\<exists>h. ml_term_at (log n) prev = Some h \<and> h \<noteq> prev_term)"
  shows "\<exists>n' hint hint_term. handle_append_entries M p (AppendEntries t prev prev_term es c) n = ok () n'
    \<and> log n' = log n \<and> commit_index n' = commit_index n
    \<and> outbox n' = outbox n @ [envelope_new (node_id n) p
        (AppendEntriesResponse (node_term n) False index_zero hint hint_term)]
    \<and> (ml_last_index (log n) < prev \<longrightarrow> hint = index_next (ml_last_index (log n)))
    \<and> (prev \<le> ml_last_index (log n) \<longrightarrow> ml_term_at (log n) prev = Some hint_term
         \<and> hint = first_index_of_term (log n) prev hint_term)"
proof -
  have "\<not> prev < index_previous (ml_first_index (log n))"
    using assms(1) by (simp add: index_previous_def sat_sub_def)
  then have gap: "handle_append_entries M p (AppendEntries t prev prev_term es c) n =
      ok () (send p (AppendEntriesResponse (node_term n) False index_zero
        (index_next (ml_last_index (log n))) term_initial) (reset_election_timer (n\<lparr>leader := Some p\<rparr>)))"
    if "ml_last_index (log n) < prev"
    using assms(2) that by (simp add: Let_def)
  have clash: "handle_append_entries M p (AppendEntries t prev prev_term es c) n =
      ok () (send p (AppendEntriesResponse (node_term n) False index_zero
        (first_index_of_term (log n) prev h) h) (reset_election_timer (n\<lparr>leader := Some p\<rparr>)))"
    if "\<not> ml_last_index (log n) < prev" "ml_term_at (log n) prev = Some h" "h \<noteq> prev_term" for h
    using assms(2) that \<open>\<not> prev < index_previous (ml_first_index (log n))\<close> by (simp add: Let_def)
  show ?thesis
  proof (cases "ml_last_index (log n) < prev")
    case True
    show ?thesis unfolding gap [OF True]
      using True by (simp add: ok_def send_def envelope_new_def)
  next
    case False
    with assms(3) obtain h where h: "ml_term_at (log n) prev = Some h" "h \<noteq> prev_term" by blast
    show ?thesis unfolding clash [OF False h]
      using False h by (simp add: ok_def send_def envelope_new_def)
  qed
qed

lemma append_refused_witness:
  "\<exists>n'. handle_append_entries demo_machine 2 (AppendEntries 3 7 3 [] 0) ((demo_node 1)\<lparr>log := sample_log\<rparr>) = ok () n'
     \<and> log n' = sample_log
     \<and> outbox n' = [envelope_new 1 2 (AppendEntriesResponse 0 False 0 6 0)]"
proof -
  let ?n = "(demo_node 1)\<lparr>log := sample_log\<rparr>"
  have n: "ml_first_index (log ?n) = 1" "ml_last_index (log ?n) = 5" "\<not> is_campaigning (node_role ?n)"
    "node_term ?n = 0" "outbox ?n = []" "node_id ?n = 1"
    by (simp_all add: sample_log_def demo_node_def node_evals)
  have "handle_append_entries demo_machine 2 (AppendEntries 3 7 3 [] 0) ?n =
      ok () (send 2 (AppendEntriesResponse 0 False 0 6 0) (reset_election_timer (?n\<lparr>leader := Some 2\<rparr>)))"
    using n by (simp add: Let_def index_previous_def sat_sub_def index_zero_def index_next_def sat_add_def
        u64_max_eq term_initial_def)
  with append_refused [of ?n 7 3 demo_machine 2 3 "[]" 0] n show ?thesis
    by (auto simp: index_zero_def send_def)
qed

text \<open>
  refused proposals leave no trace. A replica that does not lead names the leader it knows;
  a leader with a configuration change in flight names its index; a change that is a no-op or
  would empty the cluster is refused. In each case the replica is unchanged.
\<close>

lemma proposals_refused:
  "(\<not> is_leader (node_role n) \<longrightarrow> propose M c n = err (NotLeader (leader n)) n
      \<and> propose_membership M ch n = err (NotLeader (leader n)) n)
   \<and> (is_leader (node_role n) \<and> pending_config n = Some i \<and> commit_index n < i \<longrightarrow>
      propose_membership M ch n = err (ConfigChangeInFlight i) n)
   \<and> (is_leader (node_role n) \<and> pending_config n = None \<and> membership_apply (node_membership n) ch = Inl r \<longrightarrow>
      propose_membership M ch n = err r n)"
  by (simp add: propose_def append_local_def propose_membership_def)

lemma proposals_refused_witness:
  "propose demo_machine [7] replica2 = err (NotLeader None) replica2"
proof -
  have "\<not> is_leader (node_role replica2)" "leader replica2 = None"
    by (simp_all add: replica2_def demo_node_def is_leader_def)
  with proposals_refused [of replica2 demo_machine "[7]" "Add 4"] show ?thesis by simp
qed

section \<open>Campaigns\<close>

lemma become_leader_role:
  "node_role (snd (become_leader M n)) = Leader \<and> hard (snd (become_leader M n)) = hard n"
proof -
  let ?n = "n\<lparr>node_role := Leader, leader := Some (node_id n), votes := [],
      election_elapsed := 0, heartbeat_elapsed := 0, node_progress := Map.empty\<rparr>"
  have "frame V ?n (snd (append_local M Noop (reset_progress ?n)))" for V
    by (rule frm.rel_trans [OF reset_progress_frame append_local_frame]) simp
  then show ?thesis by (simp add: become_leader_def Let_def frame_def)
qed

lemma campaign_outcome:
  "node_term (snd (campaign M n)) = term_next (node_term n)
   \<and> hs_voted_for (hard (snd (campaign M n))) = Some (node_id n)
   \<and> node_role (snd (campaign M n)) = (if is_quorum (node_membership n) 1 then Leader else Candidate)"
proof -
  have sent: "hard (fold (\<lambda>p n. send p (VoteRequest t (ml_last_index (log n)) (ml_last_term (log n))) n) ps m) = hard m"
      "node_role (fold (\<lambda>p n. send p (VoteRequest t (ml_last_index (log n)) (ml_last_term (log n))) n) ps m) = node_role m"
    for t ps and m :: "'a raft_node"
    using fold_send_fields [of "\<lambda>n. VoteRequest t (ml_last_index (log n)) (ml_last_term (log n))" ps m] by simp_all
  show ?thesis
    by (simp add: campaign_def Let_def become_leader_role sent save_hard_state_hard hard_state_new_def)
qed

lemma campaign_pre_vote_role: "node_role (snd (campaign_pre_vote M n)) \<noteq> Follower"
proof -
  have "node_role (fold (\<lambda>p n. send p (PreVoteRequest t (ml_last_index (log n)) (ml_last_term (log n))) n) ps m) = node_role m"
    for t ps and m :: "'a raft_node"
    using fold_send_fields [of "\<lambda>n. PreVoteRequest t (ml_last_index (log n)) (ml_last_term (log n))" ps m] by simp
  then show ?thesis by (simp add: campaign_pre_vote_def Let_def campaign_outcome)
qed

lemma lone_quorum: "voters m = [p] \<Longrightarrow> is_quorum m 1"
  by (simp add: is_quorum_def quorum_def)

text \<open>
  a cluster of one needs nobody. When its election timeout runs out, a replica that is the
  only voter leads the next term, with its own vote on record, whether or not pre-votes are used.
\<close>

lemma lone_replica_leads:
  assumes "voters (node_membership n) = [node_id n]" and "\<not> is_leader (node_role n)"
    and "election_elapsed n < u64_max" and "randomized_timeout n \<le> Suc (election_elapsed n)"
  shows "node_role (snd (tick M n)) = Leader \<and> node_term (snd (tick M n)) = term_next (node_term n)
    \<and> hs_voted_for (hard (snd (tick M n))) = Some (node_id n)"
proof -
  have q: "is_quorum (node_membership n) 1" using lone_quorum [OF assms(1)] .
  have "snd (tick M n) = snd (if pre_vote (config n)
      then campaign_pre_vote M (n\<lparr>ticks := sat_add (ticks n) 1, election_elapsed := Suc (election_elapsed n)\<rparr>)
      else campaign M (n\<lparr>ticks := sat_add (ticks n) 1, election_elapsed := Suc (election_elapsed n)\<rparr>))"
    using assms by (simp add: tick_def tick_follower_def Let_def sat_add_1 membership_contains_def)
  then show ?thesis
    using q by (simp add: campaign_pre_vote_def Let_def campaign_outcome)
qed

lemma lone_replica_leads_witness:
  "node_role (snd (tick demo_machine ((demo_node 1)\<lparr>node_membership := Membership [1], election_elapsed := 1\<rparr>))) = Leader"
  using lone_replica_leads [of "(demo_node 1)\<lparr>node_membership := Membership [1], election_elapsed := 1\<rparr>" demo_machine]
  by (simp add: demo_node_def is_leader_def u64_max_eq)

lemma tick_follower_waits:
  assumes "\<not> is_leader (node_role n)" and "election_elapsed n < u64_max"
    and "Suc (election_elapsed n) < randomized_timeout n"
  shows "snd (tick M n) = n\<lparr>ticks := sat_add (ticks n) 1, election_elapsed := Suc (election_elapsed n)\<rparr>"
  using assms by (simp add: tick_def tick_follower_def Let_def sat_add_1)

text \<open>
  a silent leader is replaced. A follower that belongs to the configuration and gets no
  message stops being a follower within as many ticks as its timeout has left.
\<close>

lemma silent_follower_campaigns:
  assumes "node_role n = Follower" and "membership_contains (node_membership n) (node_id n)"
    and "randomized_timeout n \<le> election_elapsed n + k" and "0 < k" and "election_elapsed n + k \<le> u64_max"
  shows "\<exists>j \<le> k. node_role (((\<lambda>n. snd (tick M n)) ^^ j) n) \<noteq> Follower"
  using assms
proof (induction k arbitrary: n)
  case 0
  then show ?case by simp
next
  case (Suc k)
  show ?case
  proof (cases "Suc (election_elapsed n) < randomized_timeout n")
    case True
    let ?n = "snd (tick M n)"
    have n: "?n = n\<lparr>ticks := sat_add (ticks n) 1, election_elapsed := Suc (election_elapsed n)\<rparr>"
      using True Suc.prems by (intro tick_follower_waits) (auto simp: is_leader_def)
    have "\<exists>j \<le> k. node_role (((\<lambda>n. snd (tick M n)) ^^ j) ?n) \<noteq> Follower"
      by (rule Suc.IH) (use True Suc.prems in \<open>auto simp: n\<close>)
    then obtain j where "j \<le> k" "node_role (((\<lambda>n. snd (tick M n)) ^^ Suc j) n) \<noteq> Follower"
      by (auto simp del: funpow.simps simp add: funpow_Suc_right)
    then show ?thesis by (intro exI [of _ "Suc j"]) simp
  next
    case False
    have "node_role (snd (tick M n)) \<noteq> Follower"
      using False Suc.prems
      by (auto simp: tick_def tick_follower_def Let_def is_leader_def sat_add_1 campaign_outcome campaign_pre_vote_role
          split: if_splits)
    then show ?thesis by (intro exI [of _ 1]) simp
  qed
qed

lemma silent_follower_campaigns_witness:
  "\<exists>j \<le> 2. node_role (((\<lambda>n. snd (tick demo_machine n)) ^^ j) replica1) \<noteq> Follower"
  by (rule silent_follower_campaigns)
    (simp_all add: replica1_def demo_node_def demo_voters_def membership_contains_def u64_max_eq)

section \<open>Timers and leases\<close>

text \<open>
  the randomised timeout. When the timeout and its jitter do not overflow a 64-bit counter,
  every reset draws a timeout of at least the configured ticks and at most the jitter above it, and
  restarts the count; the generator never reaches its stuck state.
\<close>

lemma randomized_timeout_bounds:
  assumes "election_timeout_ticks (config n) + election_jitter_ticks (config n) < u64_max"
  shows "election_timeout_ticks (config n) \<le> randomized_timeout (reset_election_timer n)
    \<and> randomized_timeout (reset_election_timer n) \<le> election_timeout_ticks (config n) + election_jitter_ticks (config n)
    \<and> election_elapsed (reset_election_timer n) = 0
    \<and> (node_rng n \<noteq> 0 \<longrightarrow> node_rng (reset_election_timer n) \<noteq> 0)"
proof -
  let ?j = "election_jitter_ticks (config n)"
  obtain v s where d: "in_range (node_rng n) 0 (sat_add ?j (Suc 0)) = (v, s)" by fastforce
  have up: "sat_add ?j (Suc 0) = Suc ?j" using assms by (simp add: sat_add_1)
  have v: "v \<le> ?j" using in_range_bounds [of 0 "Suc ?j" "node_rng n"] d up by simp
  have s: "node_rng n \<noteq> 0 \<longrightarrow> s \<noteq> 0" using in_range_state_nonzero [of "node_rng n" 0 "Suc ?j"] d up by simp
  have "wrap_add (election_timeout_ticks (config n)) v = election_timeout_ticks (config n) + v"
    using assms v by (simp add: wrap_add_def u64_max_def)
  with d v s show ?thesis by (simp add: reset_election_timer_def)
qed

lemma randomized_timeout_bounds_witness:
  "randomized_timeout (reset_election_timer replica1) = 2"
  using randomized_timeout_bounds [of replica1]
  by (simp add: replica1_def demo_node_def u64_max_eq)

text \<open>
  a lease is recent contact with a majority. While a replica reports a lease it leads, and the
  voters it has heard from within the election timeout, together with itself, are a majority.
\<close>

lemma lease_means_quorum:
  assumes "has_lease n" and "membership_wf (node_membership n)"
  shows "node_role n = Leader
    \<and> decides (node_membership n) {v \<in> set (voters (node_membership n)). v = node_id n
        \<or> (\<exists>p. node_progress n v = Some p \<and> ticks n \<le> last_contact p + election_timeout_ticks (config n))}"
proof -
  let ?vs = "voters (node_membership n)"
  let ?P = "\<lambda>v. v = node_id n \<or> (case node_progress n v of
      Some p \<Rightarrow> last_contact p \<ge> sat_sub (ticks n) (election_timeout_ticks (config n)) | None \<Rightarrow> False)"
  have lead: "node_role n = Leader" using assms(1) by (simp add: has_lease_def is_leader_def)
  have q: "is_quorum (node_membership n) (length (filter ?P ?vs))"
    using assms(1) by (simp add: has_lease_def has_quorum_contact_def lease_ticks_def Let_def)
  have "card (set (filter ?P ?vs)) = length (filter ?P ?vs)"
    using assms(2) by (intro distinct_card distinct_filter) (simp add: membership_wf_def btree_set_def)
  moreover have "{v \<in> set ?vs. v = node_id n \<or> (\<exists>p. node_progress n v = Some p
      \<and> ticks n \<le> last_contact p + election_timeout_ticks (config n))} = set (filter ?P ?vs)"
    by (auto simp: sat_sub_def split: option.splits)
  ultimately show ?thesis using lead q by (auto simp: decides_def)
qed

lemma lease_means_quorum_witness:
  "has_lease leader1 \<and> decides (node_membership leader1) {v \<in> {1, 2, 3}. v = 1
     \<or> (\<exists>p. node_progress leader1 v = Some p \<and> ticks leader1 \<le> last_contact p + 2)}"
proof -
  have l: "has_lease leader1" "membership_wf (node_membership leader1)"
    "set (voters (node_membership leader1)) = {1, 2, 3}" "node_id leader1 = 1"
    "election_timeout_ticks (config leader1) = 2"
    by (simp_all add: leader1_def candidate1_def replica1_def peer_progress_def membership_wf_def btree_set_def
        demo_evals node_evals)
  with lease_means_quorum [OF l(1,2)] show ?thesis by simp
qed

section \<open>The in-memory application\<close>

text \<open>
  snapshots of the in-memory application. If the codec decodes what it encoded, restoring a
  snapshot on any machine gives back exactly the machine that was captured.
\<close>

lemma memory_snapshot_roundtrip:
  assumes codec: "\<And>x b. encode x = Inr b \<Longrightarrow> decode b = Inr x"
    and "sm_snapshot (memory_state_machine encode decode) m = Inr b"
  shows "sm_restore (memory_state_machine encode decode) b other = ok () m"
proof -
  have "decode b = Inr (mm_last_applied m, mm_commands m)"
    using assms by (simp add: memory_state_machine_def mm_snapshot_def)
  then show ?thesis by (cases m, cases other) (simp add: memory_state_machine_def mm_restore_def)
qed

lemma memory_snapshot_roundtrip_witness:
  "sm_restore (memory_state_machine (\<lambda>x. if x = (3, [[7]]) then Inr [1] else Inl ''refused'') (\<lambda>b. Inr (3, [[7]])))
     [1] memory_machine_new = ok () \<lparr>mm_commands = [[7]], mm_last_applied = 3\<rparr>"
  by (rule memory_snapshot_roundtrip)
    (auto simp: memory_state_machine_def mm_snapshot_def split: if_splits)

section \<open>A change of configuration that comes too early\<close>

text \<open>
  a leader changes the configuration before it has committed anything. The comment in
  \<^verbatim>\<open>propose_membership\<close> requires an entry of the leader's own term to be committed first; a leader
  that has just been elected, with commit index 0, adds a voter all the same.
\<close>

lemma unready_leader_changes_membership:
  "\<not> is_ready leader1 \<and> fst (propose_membership demo_machine (Add 4) leader1) = Inr 2
   \<and> node_membership (snd (propose_membership demo_machine (Add 4) leader1)) = Membership [1, 2, 3, 4]"
proof -
  have "\<not> is_ready leader1"
    by (simp add: leader1_def candidate1_def replica1_def noop_entry_def demo_evals node_evals)
  moreover have "fst (propose_membership demo_machine (Add 4) leader1) = Inr 2
      \<and> node_membership (snd (propose_membership demo_machine (Add 4) leader1)) = Membership [1, 2, 3, 4]"
    by (simp add: leader1_def candidate1_def replica1_def noop_entry_def peer_progress_def demo_evals node_evals
        insort_insert_key_def)
  ultimately show ?thesis by blast
qed

end
