(* ===== verification/Rust_Std.thy ===== *)
theory Rust_Std
  imports Astrs_Prelude
begin

text \<open>
  The parts of the Rust standard library that the clock, timer and duration code calls:
  strings as lists of Unicode scalar values with the splitting and trimming methods, decimal
  printing and parsing of unsigned integers, \<^verbatim>\<open>std::time::Duration\<close> and
  \<^verbatim>\<open>std::time::Instant\<close>.

  A \<^verbatim>\<open>Duration\<close> is its number of nanoseconds. An \<^verbatim>\<open>Instant\<close> is a number of nanoseconds
  since the earliest instant of the platform; the latest one is an argument of the
  operations that add to an instant, so that nothing depends on its value.
\<close>

section \<open>Strings\<close>

type_synonym rstr = "nat list"

definition str :: "string \<Rightarrow> rstr" where
  "str s = map of_char s"

text \<open>\<^verbatim>\<open>char::is_ascii_digit\<close> and \<^verbatim>\<open>char::is_whitespace\<close>.\<close>

definition is_ascii_digit :: "nat \<Rightarrow> bool" where
  "is_ascii_digit c \<longleftrightarrow> 48 \<le> c \<and> c \<le> 57"

definition is_whitespace :: "nat \<Rightarrow> bool" where
  "is_whitespace c \<longleftrightarrow> 9 \<le> c \<and> c \<le> 13 \<or> c = 32 \<or> c = 133 \<or> c = 160 \<or> c = 5760
     \<or> 8192 \<le> c \<and> c \<le> 8202 \<or> c = 8232 \<or> c = 8233 \<or> c = 8239 \<or> c = 8287 \<or> c = 12288"

definition trim :: "rstr \<Rightarrow> rstr" where
  "trim s = rev (dropWhile is_whitespace (rev (dropWhile is_whitespace s)))"

fun strip_prefix :: "rstr \<Rightarrow> rstr \<Rightarrow> rstr option" where
  "strip_prefix [] s = Some s"
| "strip_prefix (p # ps) [] = None"
| "strip_prefix (p # ps) (c # cs) = (if p = c then strip_prefix ps cs else None)"

definition split_once :: "nat \<Rightarrow> rstr \<Rightarrow> (rstr \<times> rstr) option" where
  "split_once c s = (case dropWhile (\<lambda>x. x \<noteq> c) s of [] \<Rightarrow> None
     | _ # rest \<Rightarrow> Some (takeWhile (\<lambda>x. x \<noteq> c) s, rest))"

fun split_on :: "nat \<Rightarrow> rstr \<Rightarrow> rstr list" where
  "split_on c [] = [[]]"
| "split_on c (x # xs) =
    (if x = c then [] # split_on c xs
     else case split_on c xs of [] \<Rightarrow> [[x]] | seg # segs \<Rightarrow> (x # seg) # segs)"

section \<open>Unsigned integers\<close>

definition u32_max :: nat where
  "u32_max = 2 ^ 32 - 1"

definition u128_max :: nat where
  "u128_max = 2 ^ 128 - 1"

definition checked_add :: "nat \<Rightarrow> nat \<Rightarrow> nat \<Rightarrow> nat option" where
  "checked_add bound a b = (if a + b \<le> bound then Some (a + b) else None)"

definition checked_mul :: "nat \<Rightarrow> nat \<Rightarrow> nat \<Rightarrow> nat option" where
  "checked_mul bound a b = (if a * b \<le> bound then Some (a * b) else None)"

definition checked_pow :: "nat \<Rightarrow> nat \<Rightarrow> nat \<Rightarrow> nat option" where
  "checked_pow bound a b = (if a ^ b \<le> bound then Some (a ^ b) else None)"

text \<open>\<^verbatim>\<open>Display\<close> for an unsigned integer.\<close>

fun show_dec :: "nat \<Rightarrow> rstr" where
  "show_dec n = (if n < 10 then [48 + n] else show_dec (n div 10) @ [48 + n mod 10])"

declare show_dec.simps [simp del]

text \<open>
  \<^verbatim>\<open>FromStr\<close> for an unsigned integer with largest value \<open>bound\<close>: an optional \<open>+\<close>, then at
  least one digit; a character that is no digit is reported before an overflow at it.
\<close>

datatype parse_int_error = PieEmpty | PieInvalidDigit | PiePosOverflow

fun parse_digits :: "nat \<Rightarrow> nat \<Rightarrow> rstr \<Rightarrow> parse_int_error + nat" where
  "parse_digits bound acc [] = Inr acc"
| "parse_digits bound acc (c # cs) =
    (if \<not> is_ascii_digit c then Inl PieInvalidDigit
     else if bound < acc * 10 + (c - 48) then Inl PiePosOverflow
     else parse_digits bound (acc * 10 + (c - 48)) cs)"

definition parse_uint :: "nat \<Rightarrow> rstr \<Rightarrow> parse_int_error + nat" where
  "parse_uint bound s = (case s of
      [] \<Rightarrow> Inl PieEmpty
    | c # cs \<Rightarrow>
        if cs = [] \<and> (c = 43 \<or> c = 45) then Inl PieInvalidDigit
        else if c = 43 then parse_digits bound 0 cs
        else parse_digits bound 0 s)"

section \<open>Durations and instants\<close>

type_synonym duration = nat
type_synonym instant = nat

definition nanos_per_sec :: nat where
  "nanos_per_sec = 1000000000"

definition duration_max :: duration where
  "duration_max = u64_max * nanos_per_sec + (nanos_per_sec - 1)"

text \<open>\<^verbatim>\<open>Duration::new(secs, nanos)\<close> for a part below one second.\<close>

definition duration_new :: "nat \<Rightarrow> nat \<Rightarrow> duration" where
  "duration_new secs nanos = secs * nanos_per_sec + nanos"

text \<open>\<^verbatim>\<open>u64::try_from(d.as_nanos()).unwrap_or(u64::MAX)\<close>.\<close>

definition as_nanos_u64 :: "duration \<Rightarrow> nat" where
  "as_nanos_u64 d = (if d \<le> u64_max then d else u64_max)"

definition instant_checked_add :: "instant \<Rightarrow> instant \<Rightarrow> duration \<Rightarrow> instant option" where
  "instant_checked_add latest t d = checked_add latest t d"

definition instant_checked_sub :: "instant \<Rightarrow> duration \<Rightarrow> instant option" where
  "instant_checked_sub t d = (if d \<le> t then Some (t - d) else None)"

definition checked_duration_since :: "instant \<Rightarrow> instant \<Rightarrow> duration option" where
  "checked_duration_since t earlier = (if earlier \<le> t then Some (t - earlier) else None)"

section \<open>Facts\<close>

lemma u32_max_eq [code]: "u32_max = 4294967295"
  by (simp add: u32_max_def)

lemma u128_max_eq [code]: "u128_max = 340282366920938463463374607431768211455"
  by (simp add: u128_max_def)

lemma show_dec_not_Nil [simp]: "show_dec n \<noteq> []"
  by (subst show_dec.simps) simp

lemma show_dec_digits: "c \<in> set (show_dec n) \<Longrightarrow> is_ascii_digit c"
proof (induction n rule: show_dec.induct)
  case (1 n)
  then show ?case
    by (subst (asm) (2) show_dec.simps) (auto simp: is_ascii_digit_def split: if_splits)
qed

lemma show_dec_hd: "is_ascii_digit (hd (show_dec n))"
  by (rule show_dec_digits [OF hd_in_set]) simp

lemma parse_digits_show_dec_append:
  "n \<le> bound \<Longrightarrow> parse_digits bound 0 (show_dec n @ cs) = parse_digits bound n cs"
proof (induction n arbitrary: cs rule: show_dec.induct)
  case (1 n)
  show ?case
  proof (cases "n < 10")
    case True
    with "1.prems" show ?thesis
      by (subst show_dec.simps) (simp add: is_ascii_digit_def)
  next
    case False
    have "parse_digits bound 0 (show_dec (n div 10) @ (48 + n mod 10) # cs) =
        parse_digits bound (n div 10) ((48 + n mod 10) # cs)"
      using "1.IH" [OF False, of "(48 + n mod 10) # cs"] "1.prems" by simp
    also have "\<dots> = parse_digits bound n cs"
      using "1.prems" less_Suc_eq_le [of "n mod 10" 9] by (simp add: is_ascii_digit_def)
    finally show ?thesis
      using False by (subst show_dec.simps) simp
  qed
qed

text \<open>Printing and parsing an unsigned integer gives it back.\<close>

lemma parse_uint_show_dec: "n \<le> bound \<Longrightarrow> parse_uint bound (show_dec n) = Inr n"
  using parse_digits_show_dec_append [of n bound "[]"] show_dec_hd [of n]
  by (cases "show_dec n") (auto simp: parse_uint_def is_ascii_digit_def)

lemma parse_digits_le: "acc \<le> bound \<Longrightarrow> parse_digits bound acc s = Inr n \<Longrightarrow> n \<le> bound"
  by (induction bound acc s rule: parse_digits.induct) (auto split: if_splits)

lemma parse_uint_le: "parse_uint bound s = Inr n \<Longrightarrow> n \<le> bound"
  by (auto simp: parse_uint_def simp del: parse_digits.simps split: list.splits if_splits
      intro: parse_digits_le [of 0])

lemma takeWhile_show_dec:
  "(\<And>c. is_ascii_digit c \<Longrightarrow> P c) \<Longrightarrow> s = [] \<or> \<not> P (hd s) \<Longrightarrow>
    takeWhile P (show_dec n @ s) = show_dec n"
  by (subst takeWhile_append2) (auto intro: show_dec_digits simp: takeWhile_eq_Nil_iff)

lemma dropWhile_show_dec:
  "(\<And>c. is_ascii_digit c \<Longrightarrow> P c) \<Longrightarrow> s = [] \<or> \<not> P (hd s) \<Longrightarrow>
    dropWhile P (show_dec n @ s) = s"
  by (subst dropWhile_append2) (auto intro: show_dec_digits simp: dropWhile_eq_self_iff)

lemma split_once_show_dec:
  assumes "\<not> is_ascii_digit c"
  shows "split_once c (show_dec n @ c # s) = Some (show_dec n, s)"
proof -
  have "\<And>x. is_ascii_digit x \<Longrightarrow> x \<noteq> c" using assms by auto
  then show ?thesis
    by (simp add: split_once_def takeWhile_show_dec dropWhile_show_dec)
qed

lemma strip_prefix_append [simp]: "strip_prefix p (p @ s) = Some s"
  by (induction p) auto

lemma strip_prefix_SomeD: "strip_prefix p s = Some r \<Longrightarrow> s = p @ r"
  by (induction p s rule: strip_prefix.induct) (auto split: if_splits)

lemma duration_new_div_mod [simp]: "duration_new (d div nanos_per_sec) (d mod nanos_per_sec) = d"
  by (simp add: duration_new_def)

lemma duration_max_secs: "d \<le> duration_max \<longleftrightarrow> d div nanos_per_sec \<le> u64_max"
  by (auto simp: duration_max_def nanos_per_sec_def)

end
