(* ===== verification/Time_Hlc.thy ===== *)
theory Time_Hlc
  imports Rust_Std
begin

unbundle bit_operations_syntax

text \<open>
  The hybrid logical clock of \<^verbatim>\<open>crates/astrs-time/src\<close>: \<^verbatim>\<open>timestamp.rs\<close> (the timestamp,
  its packed form and its text form), \<^verbatim>\<open>stamped.rs\<close> and \<^verbatim>\<open>hlc.rs\<close> (the clock).

  The two counters of a timestamp keep their machine width. The time source of a clock is an
  arbitrary type with a function that reads it; nothing is assumed of the readings, which may
  stand still or run backward. The clock's mutex makes each call one step, so concurrent
  callers are the interleavings of such steps, and a run is any list of them.
\<close>

section \<open>Timestamps\<close>

datatype hlc_timestamp = HlcTimestamp (physical_ns: u64) (logical: u32)

definition ts_epoch :: hlc_timestamp where
  "ts_epoch = HlcTimestamp 0 0"

definition ts_max :: hlc_timestamp where
  "ts_max = HlcTimestamp (- 1) (- 1)"

text \<open>The derived order compares the fields in the order of their declaration.\<close>

instantiation hlc_timestamp :: linorder
begin

definition less_eq_hlc_timestamp :: "hlc_timestamp \<Rightarrow> hlc_timestamp \<Rightarrow> bool" where
  "a \<le> b \<longleftrightarrow> physical_ns a < physical_ns b \<or> physical_ns a = physical_ns b \<and> logical a \<le> logical b"

definition less_hlc_timestamp :: "hlc_timestamp \<Rightarrow> hlc_timestamp \<Rightarrow> bool" where
  "a < b \<longleftrightarrow> physical_ns a < physical_ns b \<or> physical_ns a = physical_ns b \<and> logical a < logical b"

instance
  by standard (auto simp: less_eq_hlc_timestamp_def less_hlc_timestamp_def hlc_timestamp.expand)

end

definition as_u128 :: "hlc_timestamp \<Rightarrow> 128 word" where
  "as_u128 t = push_bit 32 (ucast (physical_ns t)) OR ucast (logical t)"

definition from_u128 :: "128 word \<Rightarrow> hlc_timestamp" where
  "from_u128 packed = HlcTimestamp (ucast (drop_bit 32 packed)) (ucast (packed AND 0xFFFFFFFF))"

definition physical_duration_since :: "hlc_timestamp \<Rightarrow> hlc_timestamp \<Rightarrow> duration option" where
  "physical_duration_since t earlier =
    (if unat (physical_ns earlier) \<le> unat (physical_ns t)
     then Some (unat (physical_ns t) - unat (physical_ns earlier)) else None)"

definition ts_to_string :: "hlc_timestamp \<Rightarrow> rstr" where
  "ts_to_string t = show_dec (unat (physical_ns t)) @ 45 # show_dec (unat (logical t))"

datatype ts_parse_error =
    MissingSeparator rstr
  | InvalidPhysical rstr parse_int_error
  | InvalidLogical rstr parse_int_error

definition ts_from_str :: "rstr \<Rightarrow> ts_parse_error + hlc_timestamp" where
  "ts_from_str s = (case split_once 45 s of
      None \<Rightarrow> Inl (MissingSeparator s)
    | Some (phys_str, logical_str) \<Rightarrow>
        (case parse_uint u64_max phys_str of
          Inl e \<Rightarrow> Inl (InvalidPhysical phys_str e)
        | Inr p \<Rightarrow>
            (case parse_uint u32_max logical_str of
              Inl e \<Rightarrow> Inl (InvalidLogical logical_str e)
            | Inr l \<Rightarrow> Inr (HlcTimestamp (of_nat p) (of_nat l)))))"

section \<open>Stamped values\<close>

record 'a stamped =
  st_ts :: hlc_timestamp
  st_inner :: 'a

definition stamped_new :: "hlc_timestamp \<Rightarrow> 'a \<Rightarrow> 'a stamped" where
  "stamped_new t x = \<lparr> st_ts = t, st_inner = x \<rparr>"

definition stamped_into_inner :: "'a stamped \<Rightarrow> 'a" where
  "stamped_into_inner s = st_inner s"

definition stamped_map :: "('a \<Rightarrow> 'b) \<Rightarrow> 'a stamped \<Rightarrow> 'b stamped" where
  "stamped_map f s = \<lparr> st_ts = st_ts s, st_inner = f (st_inner s) \<rparr>"

definition stamped_with_ts :: "hlc_timestamp \<Rightarrow> 'a stamped \<Rightarrow> 'a stamped" where
  "stamped_with_ts t s = \<lparr> st_ts = t, st_inner = st_inner s \<rparr>"

section \<open>The clock\<close>

definition default_max_clock_drift :: duration where
  "default_max_clock_drift = 500 * 1000000"

record hlc_drift_error =
  local_wall_ns :: u64
  remote_physical_ns :: u64
  drift :: duration
  drift_allowed :: duration

datatype hlc_error = DriftExceeded hlc_drift_error

definition successor :: "u64 \<Rightarrow> u32 \<Rightarrow> hlc_timestamp" where
  "successor p l =
    (if l \<noteq> - 1 then HlcTimestamp p (l + 1)
     else if p \<noteq> - 1 then HlcTimestamp (p + 1) 0
     else ts_max)"

record 'c hlc_clock =
  time_source :: 'c
  hlc_state :: hlc_timestamp
  max_drift :: duration

definition hlc_with_max_drift :: "'c \<Rightarrow> duration \<Rightarrow> 'c hlc_clock" where
  "hlc_with_max_drift c d = \<lparr> time_source = c, hlc_state = ts_epoch, max_drift = d \<rparr>"

definition hlc_new :: "'c \<Rightarrow> 'c hlc_clock" where
  "hlc_new c = hlc_with_max_drift c default_max_clock_drift"

definition set_max_drift :: "duration \<Rightarrow> 'c hlc_clock \<Rightarrow> 'c hlc_clock" where
  "set_max_drift d h = h \<lparr> max_drift := d \<rparr>"

definition hlc_last :: "'c hlc_clock \<Rightarrow> hlc_timestamp" where
  "hlc_last h = hlc_state h"

definition hlc_now :: "('c \<Rightarrow> u64) \<Rightarrow> 'c hlc_clock \<Rightarrow> hlc_timestamp \<times> 'c hlc_clock" where
  "hlc_now now_wall_ns h =
    (let wall_ns = now_wall_ns (time_source h); guard = hlc_state h;
         new = (if physical_ns guard < wall_ns then HlcTimestamp wall_ns 0
                else successor (physical_ns guard) (logical guard))
     in (new, h \<lparr> hlc_state := new \<rparr>))"

definition merge_timestamps :: "u64 \<Rightarrow> hlc_timestamp \<Rightarrow> hlc_timestamp \<Rightarrow> hlc_timestamp" where
  "merge_timestamps wall_ns here remote =
    (let l_new = max (max wall_ns (physical_ns here)) (physical_ns remote)
     in if l_new = physical_ns here \<and> l_new = physical_ns remote
        then successor l_new (max (logical here) (logical remote))
        else if l_new = physical_ns here then successor l_new (logical here)
        else if l_new = physical_ns remote then successor l_new (logical remote)
        else HlcTimestamp l_new 0)"

definition update_with ::
    "('c \<Rightarrow> u64) \<Rightarrow> hlc_timestamp \<Rightarrow> 'c hlc_clock \<Rightarrow> (hlc_error, hlc_timestamp, 'c hlc_clock) outcome" where
  "update_with now_wall_ns remote h =
    (let wall_ns = now_wall_ns (time_source h);
         drift_ns = unat (physical_ns remote) - unat wall_ns
     in if as_nanos_u64 (max_drift h) < drift_ns
        then err (DriftExceeded \<lparr> local_wall_ns = wall_ns, remote_physical_ns = physical_ns remote,
                    drift = drift_ns, drift_allowed = max_drift h \<rparr>) h
        else (let new = merge_timestamps wall_ns (hlc_state h) remote
              in ok new (h \<lparr> hlc_state := new \<rparr>)))"

definition stamp :: "('c \<Rightarrow> u64) \<Rightarrow> 'a \<Rightarrow> 'c hlc_clock \<Rightarrow> 'a stamped \<times> 'c hlc_clock" where
  "stamp now_wall_ns x h = (let (t, h') = hlc_now now_wall_ns h in (stamped_new t x, h'))"

section \<open>Runs\<close>

text \<open>
  One step of a clock shared by any number of callers: the time source takes any other value,
  a caller asks for a timestamp, or a caller merges one that a peer sent.
\<close>

datatype 'c hlc_event = TimeSource 'c | CallNow | CallUpdate hlc_timestamp

definition hlc_step :: "('c \<Rightarrow> u64) \<Rightarrow> 'c hlc_event \<Rightarrow> 'c hlc_clock \<Rightarrow> hlc_timestamp list \<times> 'c hlc_clock" where
  "hlc_step now_wall_ns e h = (case e of
      TimeSource c \<Rightarrow> ([], h \<lparr> time_source := c \<rparr>)
    | CallNow \<Rightarrow> (let (t, h') = hlc_now now_wall_ns h in ([t], h'))
    | CallUpdate remote \<Rightarrow> (case update_with now_wall_ns remote h of
          (Inl _, h') \<Rightarrow> ([], h')
        | (Inr t, h') \<Rightarrow> ([t], h')))"

primrec hlc_run :: "('c \<Rightarrow> u64) \<Rightarrow> 'c hlc_event list \<Rightarrow> 'c hlc_clock \<Rightarrow> hlc_timestamp list \<times> 'c hlc_clock" where
  "hlc_run now_wall_ns [] h = ([], h)"
| "hlc_run now_wall_ns (e # es) h =
    (let (ts, h') = hlc_step now_wall_ns e h; (us, h'') = hlc_run now_wall_ns es h' in (ts @ us, h''))"

section \<open>The packed form\<close>

text \<open>The number a timestamp packs to, on which the order and the successor are arithmetic.\<close>

definition ts_rank :: "hlc_timestamp \<Rightarrow> nat" where
  "ts_rank t = unat (physical_ns t) * 2 ^ 32 + unat (logical t)"

lemma unat_u64_bound: "unat (p :: u64) < 2 ^ 64"
  using unsigned_less [of p] by simp

lemma unat_u32_bound: "unat (l :: u32) < 2 ^ 32"
  using unsigned_less [of l] by simp

lemma unat_u64_minus_1 [simp]: "unat (- 1 :: u64) = 2 ^ 64 - 1"
  by (simp add: unsigned_minus_1_eq_mask mask_eq_exp_minus_1)

lemma unat_u32_minus_1 [simp]: "unat (- 1 :: u32) = 2 ^ 32 - 1"
  by (simp add: unsigned_minus_1_eq_mask mask_eq_exp_minus_1)

lemma as_u128_plus: "as_u128 t = push_bit 32 (ucast (physical_ns t)) + ucast (logical t)"
  unfolding as_u128_def
  by (rule disjunctive_add [symmetric]) (auto simp: bit_simps dest: bit_imp_le_length)

lemma unat_as_u128: "unat (as_u128 t) = ts_rank t"
proof -
  have "unat (physical_ns t) * 2 ^ 32 + unat (logical t) < 2 ^ 128"
    using unat_u64_bound [of "physical_ns t"] unat_u32_bound [of "logical t"] by simp
  then show ?thesis
    by (simp add: as_u128_plus ts_rank_def push_bit_eq_mult unat_word_ariths unsigned_ucast_eq
        take_bit_eq_mod unat_u64_bound unat_u32_bound)
qed

lemma ts_less_rank: "a < b \<longleftrightarrow> ts_rank a < ts_rank b"
  using unat_u32_bound [of "logical a"] unat_u32_bound [of "logical b"]
  by (auto simp: less_hlc_timestamp_def ts_rank_def word_less_nat_alt word_unat_eq_iff)

lemma ts_le_rank: "a \<le> b \<longleftrightarrow> ts_rank a \<le> ts_rank b"
  using ts_less_rank [of b a] by (simp add: not_less [symmetric])

lemma ts_rank_inject: "ts_rank a = ts_rank b \<longleftrightarrow> a = b"
  using ts_le_rank [of a b] ts_le_rank [of b a] by auto

lemma ts_rank_max: "ts_rank t \<le> ts_rank ts_max"
  using unat_u64_bound [of "physical_ns t"] unat_u32_bound [of "logical t"]
  by (simp add: ts_rank_def ts_max_def)

lemma ts_le_max [simp]: "t \<le> ts_max"
  by (simp add: ts_le_rank ts_rank_max)

lemma from_u128_as_u128: "from_u128 (as_u128 t) = t"
proof (rule hlc_timestamp.expand, intro conjI)
  show "physical_ns (from_u128 (as_u128 t)) = physical_ns t"
    by (rule bit_word_eqI) (auto simp: from_u128_def as_u128_def bit_simps dest: bit_imp_le_length)
  have "0xFFFFFFFF = (mask 32 :: 128 word)"
    by (simp add: mask_eq_exp_minus_1)
  then have "from_u128 (as_u128 t) = HlcTimestamp (ucast (drop_bit 32 (as_u128 t))) (ucast (as_u128 t AND mask 32))"
    by (simp add: from_u128_def)
  then show "logical (from_u128 (as_u128 t)) = logical t"
    by (intro bit_word_eqI) (auto simp: as_u128_def bit_simps)
qed

section \<open>The successor\<close>

lemma ts_rank_successor:
  "ts_rank (successor p l) = min (ts_rank (HlcTimestamp p l) + 1) (ts_rank ts_max)"
proof -
  have "l \<noteq> - 1 \<Longrightarrow> unat (l + 1) = unat l + 1" for l :: u32
    by (metis Suc_eq_plus1 add.commute add_eq_0_iff unatSuc)
  moreover have "p \<noteq> - 1 \<Longrightarrow> unat (p + 1) = unat p + 1" for p :: u64
    by (metis Suc_eq_plus1 add.commute add_eq_0_iff unatSuc)
  ultimately show ?thesis
    using ts_rank_max [of "HlcTimestamp p l"] ts_rank_max [of "HlcTimestamp p (l + 1)"]
      ts_rank_max [of "HlcTimestamp (p + 1) 0"]
    by (auto simp: successor_def ts_rank_def ts_max_def)
qed

text \<open>
  A timestamp lies above another when it is strictly greater, or when both are the largest
  timestamp, where the code pins the clock.
\<close>

definition ts_above :: "hlc_timestamp \<Rightarrow> hlc_timestamp \<Rightarrow> bool" where
  "ts_above a b \<longleftrightarrow> a < b \<or> a = ts_max \<and> b = ts_max"

lemma ts_above_rank: "ts_above a b \<longleftrightarrow> min (ts_rank a + 1) (ts_rank ts_max) \<le> ts_rank b"
  using ts_rank_max [of a] ts_rank_max [of b] ts_rank_inject [of a ts_max] ts_rank_inject [of b ts_max]
  by (auto simp: ts_above_def ts_less_rank)

lemma ts_above_trans: "ts_above a b \<Longrightarrow> ts_above b c \<Longrightarrow> ts_above a c"
  by (auto simp: ts_above_def intro: order.strict_trans)

lemma ts_above_trans1: "a \<le> b \<Longrightarrow> ts_above b c \<Longrightarrow> ts_above a c"
  by (auto simp: ts_above_def intro: order.strict_trans1 order.not_eq_order_implies_strict)

lemma ts_above_le: "ts_above a b \<Longrightarrow> a \<le> b"
  by (auto simp: ts_above_def)

lemma ts_above_strict: "ts_above a b \<Longrightarrow> b \<noteq> ts_max \<Longrightarrow> a < b"
  by (auto simp: ts_above_def)

lemma successor_above: "t \<le> HlcTimestamp p l \<Longrightarrow> ts_above t (successor p l)"
  by (simp add: ts_above_rank ts_rank_successor ts_le_rank)

section \<open>Single calls\<close>

text \<open>The receive rule lies above both timestamps; the send rule is the receive rule with the clock's own state.\<close>

lemma ts_le_cases:
  "t \<le> HlcTimestamp p l \<longleftrightarrow> physical_ns t < p \<or> physical_ns t = p \<and> logical t \<le> l"
  by (simp add: less_eq_hlc_timestamp_def)

lemma ts_above_later: "physical_ns t < physical_ns u \<Longrightarrow> ts_above t u"
  by (simp add: ts_above_def less_hlc_timestamp_def)

lemma successor_above_earlier: "physical_ns t < p \<Longrightarrow> ts_above t (successor p l)"
  by (rule successor_above) (simp add: ts_le_cases)

lemma successor_above_tie: "physical_ns t = p \<Longrightarrow> logical t \<le> l \<Longrightarrow> ts_above t (successor p l)"
  by (rule successor_above) (simp add: ts_le_cases)

lemmas successor_aboves = ts_above_later successor_above_earlier successor_above_tie

lemma max3:
  fixes a b c :: "'a :: linorder"
  shows "b < a \<Longrightarrow> c < a \<Longrightarrow> max (max a b) c = a"
    and "a \<le> b \<Longrightarrow> c \<le> b \<Longrightarrow> max (max a b) c = b"
    and "a \<le> c \<Longrightarrow> b \<le> c \<Longrightarrow> max (max a b) c = c"
  by (simp_all add: max_absorb1 max_absorb2)

lemma merge_cases:
  obtains (both) "physical_ns remote = physical_ns here"
      "merge_timestamps wall here remote = successor (physical_ns here) (max (logical here) (logical remote))"
  | (here) "physical_ns remote < physical_ns here"
      "merge_timestamps wall here remote = successor (physical_ns here) (logical here)"
  | (remote) "physical_ns here < physical_ns remote"
      "merge_timestamps wall here remote = successor (physical_ns remote) (logical remote)"
  | (wall) "physical_ns here < wall" "physical_ns remote < wall"
      "merge_timestamps wall here remote = HlcTimestamp wall 0"
proof -
  let ?a = "physical_ns here" and ?b = "physical_ns remote"
  consider "?a < wall" "?b < wall" | "wall \<le> ?a" "?b < ?a" | "wall \<le> ?b" "?a < ?b" | "wall \<le> ?a" "?b = ?a"
    by force
  then show thesis
  proof cases
    case 1
    then have "max (max wall ?a) ?b = wall" by (simp add: max3)
    moreover have "wall \<noteq> ?a" "wall \<noteq> ?b" using 1 by auto
    ultimately show thesis using 1 wall by (simp add: merge_timestamps_def Let_def)
  next
    case 2
    then have "max (max wall ?a) ?b = ?a" by (simp add: max3)
    moreover have "?a \<noteq> ?b" using 2 by auto
    ultimately show thesis using 2 here by (simp add: merge_timestamps_def Let_def)
  next
    case 3
    then have "max (max wall ?a) ?b = ?b" by (simp add: max3)
    moreover have "?b \<noteq> ?a" using 3 by auto
    ultimately show thesis using 3 remote by (simp add: merge_timestamps_def Let_def)
  next
    case 4
    then have "max (max wall ?a) ?b = ?a" by (simp add: max3)
    with 4 both show thesis by (simp add: merge_timestamps_def Let_def)
  qed
qed

lemma merge_above:
  shows "ts_above here (merge_timestamps wall here remote)"
    and "ts_above remote (merge_timestamps wall here remote)"
  by (rule merge_cases [of remote here wall]; simp add: successor_aboves)+

lemma successor_rank_le: "HlcTimestamp p l \<le> t \<Longrightarrow> ts_rank (successor p l) \<le> ts_rank t + 1"
  unfolding ts_rank_successor ts_le_rank by linarith

lemma merge_rank_le:
  "ts_rank (merge_timestamps wall here remote) \<le>
    max (max (ts_rank here) (ts_rank remote) + 1) (unat wall * 2 ^ 32)"
proof (rule merge_cases [of remote here wall])
  assume tie: "physical_ns remote = physical_ns here"
    and eq: "merge_timestamps wall here remote =
      successor (physical_ns here) (max (logical here) (logical remote))"
  have "HlcTimestamp (physical_ns here) (max (logical here) (logical remote)) \<le> max here remote"
    using tie by (auto simp: max_def less_eq_hlc_timestamp_def)
  then have "ts_rank (merge_timestamps wall here remote) \<le> ts_rank (max here remote) + 1"
    unfolding eq by (rule successor_rank_le)
  also have "\<dots> = max (ts_rank here) (ts_rank remote) + 1"
    by (simp add: max_def ts_le_rank)
  finally show ?thesis by simp
next
  assume "merge_timestamps wall here remote = successor (physical_ns here) (logical here)"
  then show ?thesis
    using successor_rank_le [of "physical_ns here" "logical here" here] by simp
next
  assume "merge_timestamps wall here remote = successor (physical_ns remote) (logical remote)"
  then show ?thesis
    using successor_rank_le [of "physical_ns remote" "logical remote" remote] by simp
next
  assume "merge_timestamps wall here remote = HlcTimestamp wall 0"
  then show ?thesis by (simp add: ts_rank_def)
qed

lemma hlc_now_merge:
  "hlc_now w h = (let t = merge_timestamps (w (time_source h)) (hlc_state h) (hlc_state h)
     in (t, h \<lparr> hlc_state := t \<rparr>))"
proof (cases "physical_ns (hlc_state h) < w (time_source h)")
  case True
  then have "max (max (w (time_source h)) (physical_ns (hlc_state h))) (physical_ns (hlc_state h)) = w (time_source h)"
    by (simp add: max3)
  moreover have "w (time_source h) \<noteq> physical_ns (hlc_state h)" using True by auto
  ultimately show ?thesis
    using True by (simp add: hlc_now_def merge_timestamps_def Let_def)
next
  case False
  then have "max (max (w (time_source h)) (physical_ns (hlc_state h))) (physical_ns (hlc_state h))
      = physical_ns (hlc_state h)"
    by (simp add: max3 not_less)
  with False show ?thesis
    by (simp add: hlc_now_def merge_timestamps_def Let_def)
qed

section \<open>Runs of calls\<close>

lemma update_with_cases:
  obtains (refused) e where "update_with w remote h = err (DriftExceeded e) h"
      "as_nanos_u64 (max_drift h) < unat (physical_ns remote) - unat (w (time_source h))"
  | (merged) "update_with w remote h =
        ok (merge_timestamps (w (time_source h)) (hlc_state h) remote)
          (h \<lparr> hlc_state := merge_timestamps (w (time_source h)) (hlc_state h) remote \<rparr>)"
      "unat (physical_ns remote) - unat (w (time_source h)) \<le> as_nanos_u64 (max_drift h)"
  by (cases "as_nanos_u64 (max_drift h) < unat (physical_ns remote) - unat (w (time_source h))")
    (simp_all add: update_with_def Let_def not_less)

lemma hlc_step_cases:
  obtains (silent) "fst (hlc_step w e h) = []" "hlc_state (snd (hlc_step w e h)) = hlc_state h"
  | (issued) "fst (hlc_step w e h) = [hlc_state (snd (hlc_step w e h))]"
      "ts_above (hlc_state h) (hlc_state (snd (hlc_step w e h)))"
proof (cases e)
  case (TimeSource c)
  then show thesis using silent by (simp add: hlc_step_def)
next
  case CallNow
  then show thesis using issued merge_above(1) by (simp add: hlc_step_def hlc_now_merge Let_def)
next
  case (CallUpdate remote)
  show thesis
  proof (cases rule: update_with_cases [of w remote h])
    case (refused e)
    then show thesis using CallUpdate silent by (simp add: hlc_step_def err_def)
  next
    case merged
    then show thesis using CallUpdate issued merge_above(1) by (simp add: hlc_step_def ok_def)
  qed
qed

lemma hlc_run_state_le: "hlc_state h \<le> hlc_state (snd (hlc_run w es h))"
proof (induction es arbitrary: h)
  case (Cons e es)
  have "hlc_state h \<le> hlc_state (snd (hlc_step w e h))"
    by (cases rule: hlc_step_cases [of w e h]) (auto intro: ts_above_le)
  also have "\<dots> \<le> hlc_state (snd (hlc_run w es (snd (hlc_step w e h))))"
    by (rule Cons.IH)
  finally show ?case by (simp add: case_prod_beta)
qed simp

lemma hlc_run_sorted: "sorted_wrt ts_above (hlc_state h # fst (hlc_run w es h))"
proof (induction es arbitrary: h)
  case (Cons e es)
  let ?h' = "snd (hlc_step w e h)"
  have IH: "sorted_wrt ts_above (hlc_state ?h' # fst (hlc_run w es ?h'))" by (rule Cons.IH)
  show ?case
  proof (cases rule: hlc_step_cases [of w e h])
    case silent
    then show ?thesis using IH by (simp add: case_prod_beta)
  next
    case issued
    then have "\<forall>t \<in> set (fst (hlc_run w es ?h')). ts_above (hlc_state h) t"
      using IH ts_above_trans by auto
    with issued IH show ?thesis by (simp add: case_prod_beta)
  qed
qed simp

lemma hlc_run_issued_le: "t \<in> set (fst (hlc_run w es h)) \<Longrightarrow> t \<le> hlc_state (snd (hlc_run w es h))"
proof (induction es arbitrary: h)
  case (Cons e es)
  let ?h' = "snd (hlc_step w e h)"
  from Cons.prems consider "t \<in> set (fst (hlc_step w e h))" | "t \<in> set (fst (hlc_run w es ?h'))"
    by (auto simp: case_prod_beta)
  then show ?case
  proof cases
    case 1
    then have "t = hlc_state ?h'" by (cases rule: hlc_step_cases [of w e h]) auto
    then show ?thesis using hlc_run_state_le [of ?h' w es] by (simp add: case_prod_beta)
  next
    case 2
    then show ?thesis using Cons.IH by (simp add: case_prod_beta)
  qed
qed simp

lemma hlc_run_above: "t \<in> set (fst (hlc_run w es h)) \<Longrightarrow> ts_above (hlc_state h) t"
  using hlc_run_sorted [of h w es] by simp

lemma hlc_step_drift [simp]: "max_drift (snd (hlc_step w e h)) = max_drift h"
  by (cases e) (auto simp: hlc_step_def hlc_now_def update_with_def Let_def ok_def err_def)

lemma hlc_step_rank_le:
  assumes "unat (w (time_source h)) \<le> W" and "ts_rank (hlc_state h) \<le> B"
    and "(W + as_nanos_u64 (max_drift h) + 1) * 2 ^ 32 \<le> B + 1"
  shows "ts_rank (hlc_state (snd (hlc_step w e h))) \<le> B + 1"
proof (cases e)
  case (TimeSource c)
  then show ?thesis using assms by (simp add: hlc_step_def)
next
  case CallNow
  then show ?thesis
    using assms merge_rank_le [of "w (time_source h)" "hlc_state h" "hlc_state h"]
    by (simp add: hlc_step_def hlc_now_merge Let_def)
next
  case (CallUpdate remote)
  show ?thesis
  proof (cases rule: update_with_cases [of w remote h])
    case (refused e)
    then show ?thesis using CallUpdate assms by (simp add: hlc_step_def err_def)
  next
    case merged
    then have "unat (physical_ns remote) \<le> W + as_nanos_u64 (max_drift h)" using assms(1) by simp
    then have "ts_rank remote \<le> B"
      using assms(3) unat_u32_bound [of "logical remote"] by (simp add: ts_rank_def)
    then show ?thesis
      using CallUpdate merged assms merge_rank_le [of "w (time_source h)" "hlc_state h" remote]
      by (simp add: hlc_step_def ok_def)
  qed
qed

text \<open>Every reading of the wall clock in the run is at most \<open>W\<close>.\<close>

definition readings_le :: "('c \<Rightarrow> u64) \<Rightarrow> nat \<Rightarrow> 'c hlc_event list \<Rightarrow> bool" where
  "readings_le w W es \<longleftrightarrow> list_all (\<lambda>e. case e of TimeSource c \<Rightarrow> unat (w c) \<le> W | _ \<Rightarrow> True) es"

lemma hlc_step_source:
  "unat (w (time_source h)) \<le> W \<Longrightarrow> readings_le w W [e] \<Longrightarrow>
    unat (w (time_source (snd (hlc_step w e h)))) \<le> W"
  by (cases e) (auto simp: hlc_step_def hlc_now_def update_with_def readings_le_def Let_def ok_def err_def)

lemma hlc_run_rank_le:
  "unat (w (time_source h)) \<le> W \<Longrightarrow> readings_le w W es \<Longrightarrow> ts_rank (hlc_state h) \<le> B \<Longrightarrow>
    (W + as_nanos_u64 (max_drift h) + 1) * 2 ^ 32 \<le> B + 1 \<Longrightarrow>
    ts_rank (hlc_state (snd (hlc_run w es h))) \<le> B + length es"
proof (induction es arbitrary: h B)
  case (Cons e es)
  let ?h' = "snd (hlc_step w e h)"
  have "readings_le w W [e]" "readings_le w W es"
    using Cons.prems(2) by (simp_all add: readings_le_def)
  moreover have "ts_rank (hlc_state ?h') \<le> B + 1"
    using hlc_step_rank_le Cons.prems(1,3,4) .
  ultimately have "ts_rank (hlc_state (snd (hlc_run w es ?h'))) \<le> B + 1 + length es"
    using Cons.prems(1,4) hlc_step_source [of w h W e] by (intro Cons.IH) simp_all
  then show ?case by (simp add: case_prod_beta)
qed simp

lemmas hlc_evals = hlc_step_def hlc_now_def update_with_def merge_timestamps_def successor_def
  hlc_new_def hlc_with_max_drift_def default_max_clock_drift_def hlc_last_def as_nanos_u64_def
  u64_max_eq ts_max_def ts_epoch_def less_hlc_timestamp_def ok_def Let_def

section \<open>Properties of the clock\<close>

text \<open>
  C10: However the time source behaves - standing still, repeating a reading, stepping
  backward - and whatever timestamps peers send, the timestamps a clock issues in a run of
  calls are strictly increasing and start above its state, as long as the clock has not
  reached the largest timestamp.
\<close>

theorem hlc_strictly_increasing:
  assumes "hlc_last (snd (hlc_run w es h)) \<noteq> ts_max"
  shows "sorted_wrt (<) (hlc_last h # fst (hlc_run w es h))"
proof -
  have "a \<noteq> ts_max" if "a \<in> set (fst (hlc_run w es h))" for a
    using hlc_run_issued_le [OF that] assms by (auto simp: hlc_last_def order.antisym)
  then have "\<And>a b. b \<in> set (fst (hlc_run w es h)) \<Longrightarrow> ts_above a b \<Longrightarrow> a < b"
    by (auto intro: ts_above_strict)
  then show ?thesis
    using hlc_run_sorted [of h w es] unfolding hlc_last_def
    by (auto intro!: sorted_wrt_mono_rel [of _ ts_above "(<)"])
qed

theorem hlc_strictly_increasing_witness:
  "hlc_last (snd (hlc_run id [CallNow, TimeSource 3, CallUpdate (HlcTimestamp 9 4), CallNow] (hlc_new 7))) \<noteq> ts_max
   \<and> sorted_wrt (<) [ts_epoch, HlcTimestamp 7 0, HlcTimestamp 9 5, HlcTimestamp 9 6]"
proof -
  let ?r = "hlc_run id [CallNow, TimeSource 3, CallUpdate (HlcTimestamp 9 4), CallNow] (hlc_new 7)"
  have last: "hlc_last (snd ?r) \<noteq> ts_max" by (simp add: hlc_evals)
  have "hlc_last (hlc_new (7 :: u64)) = ts_epoch" by (simp add: hlc_evals)
  moreover have "fst ?r = [HlcTimestamp 7 0, HlcTimestamp 9 5, HlcTimestamp 9 6]" by (simp add: hlc_evals)
  ultimately show ?thesis
    using last hlc_strictly_increasing [OF last] by simp
qed

text \<open>
  C29: Causality across clocks. When one clock merges a timestamp that another one issued, the
  result and everything it issues afterwards is strictly above that timestamp and above its
  own earlier state, until the largest timestamp is reached.
\<close>

theorem hlc_merge_causal:
  assumes "update_with w remote h = ok t h'" and "t \<noteq> ts_max"
  shows "remote < t \<and> hlc_last h < t \<and> hlc_last h' = t \<and>
    set (fst (hlc_run w es h')) \<subseteq> {u. remote < u}"
proof (cases rule: update_with_cases [of w remote h])
  case (refused e)
  then show ?thesis using assms by (simp add: ok_def err_def)
next
  case merged
  then have t: "t = merge_timestamps (w (time_source h)) (hlc_state h) remote" and h': "hlc_state h' = t"
    using assms by (simp_all add: ok_def)
  have *: "remote < t" "hlc_state h < t"
    unfolding t using assms(2) [unfolded t] by (simp_all add: ts_above_strict merge_above)
  moreover have "set (fst (hlc_run w es h')) \<subseteq> {u. remote < u}"
    using *(1) h' hlc_run_above [of _ w es h'] 
    by (auto dest!: ts_above_le intro: order.strict_trans2)
  ultimately show ?thesis using h' by (simp add: hlc_last_def)
qed

theorem hlc_merge_causal_witness:
  "HlcTimestamp 9 4 < HlcTimestamp 9 5 \<and>
   set (fst (hlc_run id [CallNow, CallNow] \<lparr> time_source = 7, hlc_state = HlcTimestamp 9 5, max_drift = 10 \<rparr>))
     \<subseteq> {u. HlcTimestamp 9 4 < u}"
proof -
  have up: "update_with id (HlcTimestamp 9 4) (hlc_with_max_drift 7 10) =
      ok (HlcTimestamp 9 5) \<lparr> time_source = 7, hlc_state = HlcTimestamp 9 5, max_drift = 10 \<rparr>"
    by (simp add: hlc_evals)
  have "HlcTimestamp 9 5 \<noteq> ts_max" by (simp add: hlc_evals)
  from hlc_merge_causal [OF up this, of "[CallNow, CallNow]"] show ?thesis by simp
qed

text \<open>
  C28: No peer drags the clock away from its wall clock. If every reading of the wall clock in a
  run is at most \<open>W\<close> and the clock starts within the allowed drift of \<open>W\<close>, then
  whatever the peers send the packed clock value stays below the first value past that drift,
  up to one per call.
\<close>

theorem hlc_drift_bounded:
  assumes "unat (w (time_source h)) \<le> W" and "readings_le w W es"
    and "unat (physical_ns (hlc_last h)) \<le> W + as_nanos_u64 (max_drift h)"
  shows "unat (as_u128 (hlc_last (snd (hlc_run w es h)))) <
    (W + as_nanos_u64 (max_drift h) + 1) * 2 ^ 32 + length es"
proof -
  let ?B = "(W + as_nanos_u64 (max_drift h) + 1) * 2 ^ 32 - 1"
  have "ts_rank (hlc_state h) \<le> ?B"
    using assms(3) unat_u32_bound [of "logical (hlc_state h)"] by (simp add: ts_rank_def hlc_last_def)
  then have "ts_rank (hlc_state (snd (hlc_run w es h))) \<le> ?B + length es"
    using assms(1,2) by (intro hlc_run_rank_le [where W = W]) simp_all
  then show ?thesis by (simp add: unat_as_u128 hlc_last_def)
qed

theorem hlc_drift_bounded_witness:
  "unat (as_u128 (hlc_last (snd (hlc_run id [CallUpdate (HlcTimestamp 99 4), CallNow, CallNow]
      (hlc_with_max_drift (7 :: u64) 10))))) < (7 + 10 + 1) * 2 ^ 32 + 3"
  using hlc_drift_bounded [of id "hlc_with_max_drift (7 :: u64) 10" 7
      "[CallUpdate (HlcTimestamp 99 4), CallNow, CallNow]"]
  by (simp add: readings_le_def hlc_with_max_drift_def hlc_last_def ts_epoch_def as_nanos_u64_def u64_max_eq)

text \<open>
  The packed 128-bit form orders timestamps exactly as the derived field-by-field order
  does, and unpacking gives the timestamp back.
\<close>

lemma packed_order_equivalent:
  "(as_u128 a < as_u128 b \<longleftrightarrow> a < b) \<and> (as_u128 a = as_u128 b \<longleftrightarrow> a = b) \<and> from_u128 (as_u128 a) = a"
proof (intro conjI)
  show "as_u128 a < as_u128 b \<longleftrightarrow> a < b"
    by (simp add: word_less_nat_alt unat_as_u128 ts_less_rank)
  show "as_u128 a = as_u128 b \<longleftrightarrow> a = b"
    by (simp add: word_unat_eq_iff unat_as_u128 ts_rank_inject)
  show "from_u128 (as_u128 a) = a"
    by (rule from_u128_as_u128)
qed

text \<open>
  The text form of a timestamp parses back to it.
\<close>

lemma timestamp_text_roundtrip: "ts_from_str (ts_to_string t) = Inr t"
proof -
  have "unat (physical_ns t) \<le> u64_max" "unat (logical t) \<le> u32_max"
    using unat_u64_bound [of "physical_ns t"] unat_u32_bound [of "logical t"]
    by (simp_all add: u64_max_eq u32_max_eq)
  then show ?thesis
    by (simp add: ts_from_str_def ts_to_string_def split_once_show_dec is_ascii_digit_def parse_uint_show_dec)
qed

end
