(* ===== verification/Time_Duration.thy ===== *)
theory Time_Duration
  imports Rust_Std
begin

text \<open>
  Human-readable durations, \<^verbatim>\<open>crates/astrs-time/src/duration.rs\<close>: the parser of
  \<^verbatim>\<open>"1h 30m 5s"\<close> and the printer. All arithmetic of the parser is checked 128-bit integer
  arithmetic; each \<^verbatim>\<open>checked_*\<close> call of the source is one here, with its error.
\<close>

section \<open>Parsing\<close>

datatype duration_parse_error =
    DurEmpty
  | DurNegative rstr
  | DurInvalidNumber rstr
  | DurUnknownUnit rstr
  | DurOverflow rstr

text \<open>The optional fraction after the integer digits: its digits and the rest.\<close>

definition parse_fraction :: "rstr \<Rightarrow> rstr \<Rightarrow> duration_parse_error + (rstr \<times> rstr)" where
  "parse_fraction input s = (case strip_prefix (str ''.'') s of
      Some after_dot \<Rightarrow>
        if takeWhile is_ascii_digit after_dot = [] then Inl (DurInvalidNumber input)
        else Inr (takeWhile is_ascii_digit after_dot, dropWhile is_ascii_digit after_dot)
    | None \<Rightarrow> Inr ([], s))"

definition parse_unit :: "rstr \<Rightarrow> duration_parse_error + (nat \<times> rstr)" where
  "parse_unit s = (case strip_prefix (str ''ns'') s of Some r \<Rightarrow> Inr (1, r) | None \<Rightarrow>
    (case strip_prefix (str ''us'') s of Some r \<Rightarrow> Inr (1000, r) | None \<Rightarrow>
    (case strip_prefix [181, 115] s of Some r \<Rightarrow> Inr (1000, r) | None \<Rightarrow>
    (case strip_prefix [956, 115] s of Some r \<Rightarrow> Inr (1000, r) | None \<Rightarrow>
    (case strip_prefix (str ''ms'') s of Some r \<Rightarrow> Inr (1000000, r) | None \<Rightarrow>
    (case strip_prefix (str ''s'') s of Some r \<Rightarrow> Inr (1000000000, r) | None \<Rightarrow>
    (case strip_prefix (str ''m'') s of Some r \<Rightarrow> Inr (60000000000, r) | None \<Rightarrow>
    (case strip_prefix (str ''h'') s of Some r \<Rightarrow> Inr (3600000000000, r) | None \<Rightarrow>
    (case strip_prefix (str ''d'') s of Some r \<Rightarrow> Inr (86400000000000, r) | None \<Rightarrow>
      Inl (DurUnknownUnit (takeWhile (\<lambda>c. \<not> (is_ascii_digit c \<or> is_whitespace c)) s)))))))))))"

text \<open>
  The nanoseconds of the fraction, rounded half up: \<^const>\<open>None\<close> where one of the checked
  operations overflows.
\<close>

definition fraction_ns :: "rstr \<Rightarrow> nat \<Rightarrow> nat option" where
  "fraction_ns frac_str unit_ns = (case parse_uint u128_max frac_str of Inl _ \<Rightarrow> None | Inr frac_value \<Rightarrow>
    if u32_max < length frac_str then None
    else case checked_pow u128_max 10 (length frac_str) of None \<Rightarrow> None | Some divisor \<Rightarrow>
      (case checked_mul u128_max frac_value unit_ns of None \<Rightarrow> None | Some numerator \<Rightarrow>
        (case checked_add u128_max numerator (divisor div 2) of None \<Rightarrow> None
         | Some rounded_numerator \<Rightarrow> Some (rounded_numerator div divisor))))"

definition token_ns :: "rstr \<Rightarrow> rstr \<Rightarrow> nat \<Rightarrow> nat option" where
  "token_ns int_str frac_str unit_ns = (case parse_uint u128_max int_str of Inl _ \<Rightarrow> None | Inr int_part \<Rightarrow>
    (case checked_mul u128_max int_part unit_ns of None \<Rightarrow> None | Some int_ns \<Rightarrow>
      if frac_str = [] then Some int_ns
      else case fraction_ns frac_str unit_ns of None \<Rightarrow> None
        | Some frac_ns \<Rightarrow> checked_add u128_max int_ns frac_ns))"

definition parse_token :: "rstr \<Rightarrow> duration_parse_error + (nat \<times> rstr)" where
  "parse_token input =
    (if strip_prefix (str ''-'') input \<noteq> None then Inl (DurNegative input)
     else
       let s = (case strip_prefix (str ''+'') input of Some r \<Rightarrow> r | None \<Rightarrow> input);
           int_str = takeWhile is_ascii_digit s
       in if int_str = [] then Inl (DurInvalidNumber input)
          else case parse_fraction input (dropWhile is_ascii_digit s) of Inl e \<Rightarrow> Inl e
            | Inr (frac_str, s') \<Rightarrow>
              (case parse_unit (case strip_prefix (str '' '') s' of Some r \<Rightarrow> r | None \<Rightarrow> s') of
                Inl e \<Rightarrow> Inl e
              | Inr (unit_ns, remainder) \<Rightarrow>
                (case token_ns int_str frac_str unit_ns of
                  None \<Rightarrow> Inl (DurOverflow input)
                | Some total_ns \<Rightarrow> Inr (total_ns, remainder))))"

text \<open>Every token consumes at least its first digit, so the loop over the tokens ends.\<close>

lemma strip_prefix_length: "strip_prefix p s = Some r \<Longrightarrow> length r \<le> length s"
  by (drule strip_prefix_SomeD) simp

lemma length_dropWhile_less: "takeWhile P s \<noteq> [] \<Longrightarrow> length (dropWhile P s) < length s"
  by (cases s) (auto simp: le_imp_less_Suc length_dropWhile_le split: if_splits)

lemma parse_fraction_length: "parse_fraction input s = Inr (f, r) \<Longrightarrow> length r \<le> length s"
  by (auto simp: parse_fraction_def dest!: strip_prefix_length
      intro: order_trans [OF length_dropWhile_le] split: option.splits if_splits)

lemma parse_unit_length: "parse_unit s = Inr (u, r) \<Longrightarrow> length r \<le> length s"
  by (auto simp: parse_unit_def dest!: strip_prefix_length split: option.splits)

lemma parse_token_length:
  assumes "parse_token input = Inr (n, rest)"
  shows "length rest < length input"
proof -
  let ?s = "case strip_prefix (str ''+'') input of Some r \<Rightarrow> r | None \<Rightarrow> input"
  from assms obtain f r u where *: "takeWhile is_ascii_digit ?s \<noteq> []"
      "parse_fraction input (dropWhile is_ascii_digit ?s) = Inr (f, r)"
      "parse_unit (case strip_prefix (str '' '') r of Some r' \<Rightarrow> r' | None \<Rightarrow> r) = Inr (u, rest)"
    by (auto simp: parse_token_def Let_def split: if_splits sum.splits prod.splits option.splits)
  have "length rest \<le> length (case strip_prefix (str '' '') r of Some r' \<Rightarrow> r' | None \<Rightarrow> r)"
    using parse_unit_length [OF *(3)] .
  also have "\<dots> \<le> length r"
    by (auto split: option.split dest: strip_prefix_length)
  also have "\<dots> \<le> length (dropWhile is_ascii_digit ?s)"
    by (rule parse_fraction_length [OF *(2)])
  also have "\<dots> < length ?s"
    by (rule length_dropWhile_less [OF *(1)])
  also have "\<dots> \<le> length input"
    by (auto split: option.split dest: strip_prefix_length)
  finally show ?thesis .
qed

text \<open>The \<^verbatim>\<open>while\<close> loop of \<^verbatim>\<open>parse_duration\<close>; \<open>s\<close> is the text that errors quote.\<close>

function parse_tokens :: "rstr \<Rightarrow> rstr \<Rightarrow> nat \<Rightarrow> duration_parse_error + nat" where
  "parse_tokens s remaining total_ns =
    (if remaining = [] then Inr total_ns
     else case parse_token remaining of Inl e \<Rightarrow> Inl e
       | Inr (token, rest) \<Rightarrow>
         (case checked_add u128_max total_ns token of None \<Rightarrow> Inl (DurOverflow s)
          | Some total_ns' \<Rightarrow> parse_tokens s (dropWhile (\<lambda>c. c = 32) rest) total_ns'))"
  by pat_completeness auto

termination
  by (relation "measure (\<lambda>(s, remaining, total_ns). length remaining)")
    (auto dest!: parse_token_length intro: le_less_trans length_dropWhile_le)

declare parse_tokens.simps [simp del]

definition parse_duration :: "rstr \<Rightarrow> duration_parse_error + duration" where
  "parse_duration s =
    (if trim s = [] then Inl DurEmpty
     else case parse_tokens s (trim s) 0 of Inl e \<Rightarrow> Inl e
       | Inr total_ns \<Rightarrow>
         if u64_max < total_ns div nanos_per_sec then Inl (DurOverflow s)
         else Inr (duration_new (total_ns div nanos_per_sec) (total_ns mod nanos_per_sec)))"

section \<open>Printing\<close>

definition coarse_units :: "(rstr \<times> nat) list" where
  "coarse_units =
    [(str ''d'', 86400000000000), (str ''h'', 3600000000000), (str ''m'', 60000000000),
     (str ''s'', 1000000000), (str ''ms'', 1000000), (str ''us'', 1000)]"

definition format_duration :: "duration \<Rightarrow> rstr" where
  "format_duration total_ns =
    (if total_ns = 0 then str ''0ns''
     else case find (\<lambda>(suffix, unit_ns). total_ns mod unit_ns = 0) coarse_units of
         Some (suffix, unit_ns) \<Rightarrow> show_dec (total_ns div unit_ns) @ suffix
       | None \<Rightarrow> show_dec total_ns @ str ''ns'')"

section \<open>Facts\<close>

text \<open>The units the printer uses, with the suffix of nanoseconds.\<close>

definition printed_units :: "(rstr \<times> nat) list" where
  "printed_units = (str ''ns'', 1) # coarse_units"

lemma printed_units_pos: "(suffix, u) \<in> set printed_units \<Longrightarrow> 0 < u \<and> suffix \<noteq> []"
  by (auto simp: printed_units_def coarse_units_def str_def)

lemma printed_units_hd:
  "(suffix, u) \<in> set printed_units \<Longrightarrow>
    \<not> is_ascii_digit (hd suffix) \<and> hd suffix \<noteq> 46 \<and> hd suffix \<noteq> 32 \<and> \<not> is_whitespace (last suffix)"
  by (auto simp: printed_units_def coarse_units_def str_def is_ascii_digit_def is_whitespace_def)

text \<open>Each printed suffix is read back, also before the digits of a further token.\<close>

lemma parse_unit_printed:
  "(suffix, u) \<in> set printed_units \<Longrightarrow> rest = [] \<or> is_ascii_digit (hd rest) \<Longrightarrow>
    parse_unit (suffix @ rest) = Inr (u, rest)"
  by (cases rest) (auto simp: printed_units_def coarse_units_def str_def parse_unit_def is_ascii_digit_def)

lemma strip_prefix_char: "strip_prefix [c] s = (if s \<noteq> [] \<and> hd s = c then Some (tl s) else None)"
  by (cases s) auto

lemma parse_token_printed:
  assumes unit_in: "(suffix, u) \<in> set printed_units" and rest: "rest = [] \<or> is_ascii_digit (hd rest)"
    and fits: "q * u \<le> u128_max"
  shows "parse_token (show_dec q @ suffix @ rest) = Inr (q * u, rest)"
proof -
  note hd = printed_units_hd [OF unit_in] printed_units_pos [OF unit_in]
  have digit: "is_ascii_digit (hd (show_dec q))" by (rule show_dec_hd)
  have sign: "strip_prefix (str ''-'') (show_dec q @ suffix @ rest) = None"
      "strip_prefix (str ''+'') (show_dec q @ suffix @ rest) = None"
    using digit by (auto simp: strip_prefix_char str_def is_ascii_digit_def)
  have digits: "takeWhile is_ascii_digit (show_dec q @ suffix @ rest) = show_dec q"
      "dropWhile is_ascii_digit (show_dec q @ suffix @ rest) = suffix @ rest"
    using hd by (simp_all add: takeWhile_show_dec dropWhile_show_dec)
  have "strip_prefix (str ''.'') (suffix @ rest) = None" "strip_prefix (str '' '') (suffix @ rest) = None"
    using hd by (auto simp: strip_prefix_char str_def)
  moreover have "q \<le> u128_max"
    using fits hd mult_le_mono2 [of 1 u q] by linarith
  ultimately show ?thesis
    using fits by (simp add: parse_token_def sign digits parse_fraction_def parse_unit_printed [OF unit_in rest]
        token_ns_def parse_uint_show_dec checked_mul_def)
qed

lemma format_duration_cases:
  obtains q suffix u where "(suffix, u) \<in> set printed_units" "format_duration d = show_dec q @ suffix" "d = q * u"
proof (cases "d = 0")
  case True
  have "show_dec 0 = [48]" by (simp add: show_dec.simps)
  with True show thesis
    using that [of "str ''ns''" 1 0] by (simp add: printed_units_def format_duration_def str_def)
next
  case False
  show thesis
  proof (cases "find (\<lambda>(suffix, unit_ns). d mod unit_ns = 0) coarse_units")
    case None
    with False show thesis
      using that [of "str ''ns''" 1 d] by (simp add: printed_units_def format_duration_def)
  next
    case (Some p)
    then have "p \<in> set coarse_units" "d mod snd p = 0"
      by (auto simp: find_Some_iff case_prod_beta)
    then obtain suffix u where p: "p = (suffix, u)" "(suffix, u) \<in> set coarse_units" "d mod u = 0"
      by (metis prod.collapse)
    moreover have "d = d div u * u"
      using p(3) by auto
    ultimately show thesis
      using that [of suffix u "d div u"] False Some by (simp add: printed_units_def format_duration_def)
  qed
qed

lemma format_duration_hd: "format_duration d \<noteq> [] \<and> is_ascii_digit (hd (format_duration d))"
  by (rule format_duration_cases [of d]) (simp add: show_dec_hd)

lemma format_duration_last: "\<not> is_whitespace (last (format_duration d))"
  by (rule format_duration_cases [of d]) (use printed_units_hd printed_units_pos in auto)

lemma parse_tokens_format:
  assumes "t + d \<le> u128_max" and "rest = [] \<or> is_ascii_digit (hd rest)"
  shows "parse_tokens s (format_duration d @ rest) t = parse_tokens s rest (t + d)"
proof (rule format_duration_cases [of d])
  fix suffix u q
  assume *: "(suffix, u) \<in> set printed_units" "format_duration d = show_dec q @ suffix" "d = q * u"
  then have "parse_token (format_duration d @ rest) = Inr (d, rest)"
    using parse_token_printed [OF *(1) assms(2), of q] assms(1) by simp
  moreover have "dropWhile (\<lambda>c. c = 32) rest = rest"
    using assms(2) by (cases rest) (auto simp: is_ascii_digit_def)
  ultimately show ?thesis
    using assms(1) format_duration_hd [of d]
    by (subst parse_tokens.simps) (simp add: checked_add_def)
qed

lemma parse_tokens_formats:
  "t + sum_list ds \<le> u128_max \<Longrightarrow>
    parse_tokens s (concat (map format_duration ds)) t = Inr (t + sum_list ds)"
proof (induction ds arbitrary: t)
  case Nil
  then show ?case by (simp add: parse_tokens.simps)
next
  case (Cons d ds)
  have "concat (map format_duration ds) = [] \<or> is_ascii_digit (hd (concat (map format_duration ds)))"
    by (cases ds) (use format_duration_hd in auto)
  then show ?case
    using Cons by (simp add: parse_tokens_format add.assoc)
qed

lemma trim_id: "s \<noteq> [] \<Longrightarrow> \<not> is_whitespace (hd s) \<Longrightarrow> \<not> is_whitespace (last s) \<Longrightarrow> trim s = s"
  by (simp add: trim_def dropWhile_eq_self_iff [THEN iffD2] hd_rev)

lemma trim_formats:
  assumes "ds \<noteq> []"
  shows "trim (concat (map format_duration ds)) = concat (map format_duration ds)"
proof (rule trim_id)
  have "\<not> is_whitespace c" if "is_ascii_digit c" for c
    using that by (auto simp: is_ascii_digit_def is_whitespace_def)
  then show "\<not> is_whitespace (hd (concat (map format_duration ds)))"
    using assms format_duration_hd by (cases ds) auto
  show "\<not> is_whitespace (last (concat (map format_duration ds)))"
    using assms format_duration_last format_duration_hd by (cases ds rule: rev_cases) auto
  show "concat (map format_duration ds) \<noteq> []"
    using assms format_duration_hd by (cases ds) auto
qed

lemma duration_max_u128: "d \<le> duration_max \<Longrightarrow> d \<le> u128_max"
  by (simp add: duration_max_def u64_max_eq u128_max_eq nanos_per_sec_def)

section \<open>Properties\<close>

text \<open>
  C32: Parsing what the printer writes gives the duration back exactly, and printed durations
  written one after the other, such as \<^verbatim>\<open>"90m5s"\<close>, parse to their sum: no unit is
  misread as another, and nothing is rounded or lost, for every sum that fits a duration.
\<close>

theorem duration_roundtrip:
  assumes "ds \<noteq> []" and "sum_list ds \<le> duration_max"
  shows "parse_duration (concat (map format_duration ds)) = Inr (sum_list ds)"
proof -
  have "concat (map format_duration ds) \<noteq> []"
    using assms(1) format_duration_hd by (cases ds) auto
  moreover have "sum_list ds div nanos_per_sec \<le> u64_max"
    using assms(2) by (simp add: duration_max_secs)
  ultimately show ?thesis
    using parse_tokens_formats [of 0 ds] duration_max_u128 [OF assms(2)]
    by (simp add: parse_duration_def trim_formats [OF assms(1)])
qed

theorem duration_roundtrip_witness:
  "parse_duration (concat (map format_duration [5400000000000, 5000000000])) = Inr 5405000000000"
  using duration_roundtrip [of "[5400000000000, 5000000000]"]
  by (simp add: duration_max_def u64_max_eq nanos_per_sec_def)

end
