(* ===== verification/Time_Interval.thy ===== *)
theory Time_Interval
  imports Rust_Std
begin

text \<open>
  Local time of \<^verbatim>\<open>crates/astrs-time/src\<close>: the controllable clock of \<^verbatim>\<open>clock.rs\<close>, the
  deadlines of \<^verbatim>\<open>deadline.rs\<close> and the periodic schedules of \<^verbatim>\<open>interval.rs\<close>.

  What the operating system's clocks read is an argument (\<open>now\<close>, \<open>real_now\<close>), as is the
  latest instant of the platform. A rate in hertz is a floating-point number: its parser, its
  tests and its reciprocal are the record \<open>f64_ops\<close>.
\<close>

section \<open>Clocks\<close>

text \<open>\<^verbatim>\<open>SystemClock::now_wall_ns\<close>: \<^const>\<open>None\<close> is a host clock before the UNIX epoch.\<close>

definition system_now_wall_ns :: "duration option \<Rightarrow> nat" where
  "system_now_wall_ns since_epoch = (case since_epoch of Some elapsed \<Rightarrow> as_nanos_u64 elapsed | None \<Rightarrow> 0)"

record manual_clock =
  mc_wall_ns :: nat
  mc_base :: instant
  mc_offset_ns :: nat

definition manual_new :: "instant \<Rightarrow> nat \<Rightarrow> manual_clock" where
  "manual_new now start_wall_ns = \<lparr> mc_wall_ns = start_wall_ns, mc_base = now, mc_offset_ns = 0 \<rparr>"

definition set_wall_ns :: "nat \<Rightarrow> manual_clock \<Rightarrow> manual_clock" where
  "set_wall_ns wall_ns c = c \<lparr> mc_wall_ns := wall_ns \<rparr>"

definition manual_advance :: "duration \<Rightarrow> manual_clock \<Rightarrow> manual_clock" where
  "manual_advance dur c =
    (let ns = as_nanos_u64 dur
     in c \<lparr> mc_wall_ns := sat_add (mc_wall_ns c) ns, mc_offset_ns := sat_add (mc_offset_ns c) ns \<rparr>)"

definition rewind_wall :: "duration \<Rightarrow> manual_clock \<Rightarrow> manual_clock" where
  "rewind_wall dur c = c \<lparr> mc_wall_ns := sat_sub (mc_wall_ns c) (as_nanos_u64 dur) \<rparr>"

definition manual_now_wall_ns :: "manual_clock \<Rightarrow> nat" where
  "manual_now_wall_ns c = mc_wall_ns c"

definition manual_now_instant :: "instant \<Rightarrow> instant \<Rightarrow> manual_clock \<Rightarrow> instant" where
  "manual_now_instant latest real_now c =
    (case instant_checked_add latest (mc_base c) (mc_offset_ns c) of Some t \<Rightarrow> t | None \<Rightarrow> real_now)"

section \<open>Deadlines\<close>

datatype deadline = Deadline (target: instant)

definition deadline_after :: "instant \<Rightarrow> instant \<Rightarrow> duration \<Rightarrow> deadline option" where
  "deadline_after latest start timeout = map_option Deadline (instant_checked_add latest start timeout)"

definition remaining :: "deadline \<Rightarrow> instant \<Rightarrow> duration" where
  "remaining d now = (case checked_duration_since (target d) now of Some t \<Rightarrow> t | None \<Rightarrow> 0)"

definition is_expired :: "deadline \<Rightarrow> instant \<Rightarrow> bool" where
  "is_expired d now \<longleftrightarrow> target d \<le> now"

definition checked_extend :: "instant \<Rightarrow> deadline \<Rightarrow> duration \<Rightarrow> deadline option" where
  "checked_extend latest d extra = map_option Deadline (instant_checked_add latest (target d) extra)"

definition checked_shorten :: "deadline \<Rightarrow> duration \<Rightarrow> deadline option" where
  "checked_shorten d delta = map_option Deadline (instant_checked_sub (target d) delta)"

section \<open>Periodic schedules\<close>

definition duration_from_nanos_u128 :: "nat \<Rightarrow> duration" where
  "duration_from_nanos_u128 nanos =
    (if nanos div nanos_per_sec \<le> u64_max
     then duration_new (nanos div nanos_per_sec) (nanos mod nanos_per_sec)
     else duration_max)"

record timer_interval =
  period :: duration
  anchor :: instant

datatype 'f timer_interval_error = ZeroPeriod | InvalidHz 'f

datatype value_error = IntValue parse_int_error | FloatValue

datatype 'f timer_path_error =
    NotATimerPath rstr
  | UnknownUnit rstr rstr
  | MissingValue rstr
  | TrailingSegments rstr
  | InvalidValue rstr rstr value_error
  | IntervalError "'f timer_interval_error"

record 'f f64_ops =
  f64_parse :: "rstr \<Rightarrow> 'f option"
  f64_is_finite :: "'f \<Rightarrow> bool"
  f64_is_positive :: "'f \<Rightarrow> bool"
  f64_recip_secs :: "'f \<Rightarrow> duration option"

definition with_anchor :: "duration \<Rightarrow> instant \<Rightarrow> 'f timer_interval_error + timer_interval" where
  "with_anchor p a = (if p = 0 then Inl ZeroPeriod else Inr \<lparr> period = p, anchor = a \<rparr>)"

definition from_period :: "instant \<Rightarrow> duration \<Rightarrow> 'f timer_interval_error + timer_interval" where
  "from_period now p = with_anchor p now"

definition from_millis :: "instant \<Rightarrow> nat \<Rightarrow> 'f timer_interval_error + timer_interval" where
  "from_millis now ms = from_period now (ms * 1000000)"

definition from_secs :: "instant \<Rightarrow> nat \<Rightarrow> 'f timer_interval_error + timer_interval" where
  "from_secs now secs = from_period now (secs * nanos_per_sec)"

definition from_hz :: "'f f64_ops \<Rightarrow> instant \<Rightarrow> 'f \<Rightarrow> 'f timer_interval_error + timer_interval" where
  "from_hz ops now hz =
    (if \<not> f64_is_finite ops hz \<or> \<not> f64_is_positive ops hz then Inl (InvalidHz hz)
     else case f64_recip_secs ops hz of None \<Rightarrow> Inl (InvalidHz hz) | Some p \<Rightarrow> from_period now p)"

definition interval_result :: "'f timer_interval_error + timer_interval \<Rightarrow> 'f timer_path_error + timer_interval" where
  "interval_result r = (case r of Inl e \<Rightarrow> Inl (IntervalError e) | Inr t \<Rightarrow> Inr t)"

text \<open>One segment of the path: missing and empty segments are the same error.\<close>

definition segment :: "nat \<Rightarrow> rstr list \<Rightarrow> rstr option" where
  "segment i segs = (if i < length segs \<and> segs ! i \<noteq> [] then Some (segs ! i) else None)"

definition from_virtual_source_path ::
    "'f f64_ops \<Rightarrow> instant \<Rightarrow> rstr \<Rightarrow> 'f timer_path_error + timer_interval" where
  "from_virtual_source_path ops now path =
    (case strip_prefix (str ''astrs/timer/'') path of None \<Rightarrow> Inl (NotATimerPath path) | Some rest \<Rightarrow>
      let segs = split_on 47 rest in
      (case segment 0 segs of None \<Rightarrow> Inl (MissingValue path) | Some unit_seg \<Rightarrow>
      (case segment 1 segs of None \<Rightarrow> Inl (MissingValue path) | Some value_seg \<Rightarrow>
        if 2 < length segs then Inl (TrailingSegments path)
        else if unit_seg = str ''millis'' then
          (case parse_uint u64_max value_seg of
            Inl e \<Rightarrow> Inl (InvalidValue path value_seg (IntValue e))
          | Inr ms \<Rightarrow> interval_result (from_millis now ms))
        else if unit_seg = str ''secs'' then
          (case parse_uint u64_max value_seg of
            Inl e \<Rightarrow> Inl (InvalidValue path value_seg (IntValue e))
          | Inr secs \<Rightarrow> interval_result (from_secs now secs))
        else if unit_seg = str ''hz'' then
          (case f64_parse ops value_seg of
            None \<Rightarrow> Inl (InvalidValue path value_seg FloatValue)
          | Some hz \<Rightarrow> interval_result (from_hz ops now hz))
        else Inl (UnknownUnit path unit_seg))))"

definition rebase :: "instant \<Rightarrow> timer_interval \<Rightarrow> timer_interval" where
  "rebase a t = \<lparr> period = period t, anchor = a \<rparr>"

definition next_tick :: "instant \<Rightarrow> timer_interval \<Rightarrow> instant \<Rightarrow> instant" where
  "next_tick latest t after = (case checked_duration_since after (anchor t) of
      None \<Rightarrow> anchor t
    | Some elapsed \<Rightarrow>
        let period_ns = max (period t) 1;
            next_index = min (elapsed div period_ns + 1) u128_max;
            offset = duration_from_nanos_u128 (min (next_index * period_ns) u128_max)
        in (case instant_checked_add latest (anchor t) offset of
              Some tick \<Rightarrow> tick
            | None \<Rightarrow> (case instant_checked_add latest after (period t) of Some tick \<Rightarrow> tick | None \<Rightarrow> after)))"

definition ticks_elapsed :: "timer_interval \<Rightarrow> instant \<Rightarrow> nat" where
  "ticks_elapsed t at = (case checked_duration_since at (anchor t) of
      Some elapsed \<Rightarrow> as_nanos_u64 (elapsed div max (period t) 1)
    | None \<Rightarrow> 0)"

definition ticks_between :: "timer_interval \<Rightarrow> instant \<Rightarrow> instant \<Rightarrow> nat" where
  "ticks_between t from_i to_i =
    (if to_i \<le> from_i then 0 else sat_sub (ticks_elapsed t to_i) (ticks_elapsed t from_i))"

lemma as_nanos_u64_mono: "a \<le> b \<Longrightarrow> as_nanos_u64 a \<le> as_nanos_u64 b"
  by (simp add: as_nanos_u64_def)

section \<open>The contract of a clock\<close>

text \<open>
  \<^verbatim>\<open>Clock::now_instant\<close> ``must never move backward between two calls on the same clock''.
  The locale states it for a relation \<open>passes\<close> of what may happen to a clock between two
  calls; deadlines and schedules rest on nothing else.
\<close>

locale monotonic_clock =
  fixes now_instant :: "'c \<Rightarrow> instant" and passes :: "'c \<Rightarrow> 'c \<Rightarrow> bool"
  assumes now_instant_step: "passes c c' \<Longrightarrow> now_instant c \<le> now_instant c'"
begin

lemma now_instant_mono: "passes\<^sup>*\<^sup>* c c' \<Longrightarrow> now_instant c \<le> now_instant c'"
  by (induction rule: rtranclp_induct) (auto dest: now_instant_step)

lemma stays_expired: "passes\<^sup>*\<^sup>* c c' \<Longrightarrow> is_expired d (now_instant c) \<Longrightarrow> is_expired d (now_instant c')"
  using now_instant_mono [of c c'] by (simp add: is_expired_def)

lemma remaining_antimono: "passes\<^sup>*\<^sup>* c c' \<Longrightarrow> remaining d (now_instant c') \<le> remaining d (now_instant c)"
  using now_instant_mono [of c c'] by (auto simp: remaining_def checked_duration_since_def)

lemma ticks_mono: "passes\<^sup>*\<^sup>* c c' \<Longrightarrow> ticks_elapsed t (now_instant c) \<le> ticks_elapsed t (now_instant c')"
  using now_instant_mono [of c c']
  by (auto simp: ticks_elapsed_def checked_duration_since_def intro!: as_nanos_u64_mono div_le_mono diff_le_mono)

end

text \<open>
  The manual clock keeps the contract under each of its three mutators while the platform can
  represent its base plus the largest offset.
\<close>

inductive manual_step :: "instant \<Rightarrow> manual_clock \<Rightarrow> manual_clock \<Rightarrow> bool" for latest where
  step_set_wall: "mc_base c + u64_max \<le> latest \<Longrightarrow> mc_offset_ns c \<le> u64_max \<Longrightarrow>
    manual_step latest c (set_wall_ns wall c)"
| step_advance: "mc_base c + u64_max \<le> latest \<Longrightarrow> mc_offset_ns c \<le> u64_max \<Longrightarrow>
    manual_step latest c (manual_advance dur c)"
| step_rewind: "mc_base c + u64_max \<le> latest \<Longrightarrow> mc_offset_ns c \<le> u64_max \<Longrightarrow>
    manual_step latest c (rewind_wall dur c)"

lemma manual_now_instant_fits:
  "mc_base c + u64_max \<le> latest \<Longrightarrow> mc_offset_ns c \<le> u64_max \<Longrightarrow>
    manual_now_instant latest real_now c = mc_base c + mc_offset_ns c"
  by (simp add: manual_now_instant_def instant_checked_add_def checked_add_def)

interpretation mclk: monotonic_clock "manual_now_instant latest real_now" "manual_step latest"
proof
  fix c c'
  assume "manual_step latest c c'"
  then show "manual_now_instant latest real_now c \<le> manual_now_instant latest real_now c'"
    by (cases rule: manual_step.cases)
      (simp_all add: manual_now_instant_fits set_wall_ns_def manual_advance_def rewind_wall_def Let_def)
qed

section \<open>The grid of a schedule\<close>

text \<open>The index of the first grid point after \<open>elapsed\<close> nanoseconds.\<close>

lemma grid_next_greater: "0 < p \<Longrightarrow> e < (e div p + 1) * p" for e p :: nat
  using dividend_less_times_div [of p e] by (simp add: mult.commute)

lemma grid_next_least: "0 < p \<Longrightarrow> e < k * p \<Longrightarrow> e div p + 1 \<le> k" for e p k :: nat
  by (simp add: Suc_le_eq less_mult_imp_div_less)

lemma grid_index_le: "0 < p \<Longrightarrow> k \<le> k * p" for p k :: nat
  by simp

lemma grid_next_le: "0 < p \<Longrightarrow> (e div p + 1) * p \<le> e + p" for e p :: nat
  by (simp add: distrib_right)

lemma next_tick_grid:
  assumes "0 < period t" and "after + period t \<le> latest" and "latest \<le> duration_max" and "anchor t \<le> after"
  shows "next_tick latest t after = anchor t + ((after - anchor t) div period t + 1) * period t"
proof -
  let ?i = "(after - anchor t) div period t + 1"
  have le: "?i * period t \<le> after - anchor t + period t"
    by (rule grid_next_le [OF assms(1)])
  then have fits: "anchor t + ?i * period t \<le> latest" "?i * period t \<le> duration_max"
    using assms by linarith+
  have u128: "duration_max \<le> u128_max"
    by (simp add: duration_max_def u128_max_eq u64_max_eq nanos_per_sec_def)
  have "?i \<le> ?i * period t"
    by (rule grid_index_le [OF assms(1)])
  then have idx: "min ?i u128_max = ?i" "min (?i * period t) u128_max = ?i * period t"
    using fits(2) u128 by linarith+
  have "duration_from_nanos_u128 (?i * period t) = ?i * period t"
    using fits(2) by (simp add: duration_from_nanos_u128_def duration_max_secs)
  then show ?thesis
    using assms(1,4) fits(1) idx
    by (simp add: next_tick_def checked_duration_since_def Let_def instant_checked_add_def checked_add_def max_absorb1)
qed

lemma next_tick_before_anchor: "after < anchor t \<Longrightarrow> next_tick latest t after = anchor t"
  by (simp add: next_tick_def checked_duration_since_def)

lemma ticks_elapsed_grid:
  assumes "0 < period t" and "(at - anchor t) div period t \<le> u64_max"
  shows "ticks_elapsed t at = card {k. 0 < k \<and> anchor t + k * period t \<le> at}"
proof -
  have "anchor t + k * period t \<le> at \<longleftrightarrow> k \<le> (at - anchor t) div period t" if "0 < k" for k
  proof -
    have "0 < k * period t" using that assms(1) by simp
    then show ?thesis unfolding less_eq_div_iff_mult_less_eq [OF assms(1)] by linarith
  qed
  then have "{k. 0 < k \<and> anchor t + k * period t \<le> at} = {0 <.. (at - anchor t) div period t}"
    by auto
  then show ?thesis
    using assms by (auto simp: ticks_elapsed_def checked_duration_since_def as_nanos_u64_def max_absorb1)
qed

section \<open>Properties\<close>

text \<open>
  A schedule never drifts: the next tick is the least point of the grid anchored at
  \<open>anchor\<close> that lies strictly after the given instant, however late the caller asks, as
  long as that point is an instant of the platform.
\<close>

lemma next_tick_least:
  assumes "0 < period t" and "after + period t \<le> latest" and "latest \<le> duration_max"
  shows "next_tick latest t after = (LEAST g. after < g \<and> (\<exists>k. g = anchor t + k * period t))"
proof (cases "after < anchor t")
  case True
  then show ?thesis
    by (auto simp: next_tick_before_anchor intro!: Least_equality [symmetric] exI [of _ 0])
next
  case False
  let ?i = "(after - anchor t) div period t + 1"
  have "(LEAST g. after < g \<and> (\<exists>k. g = anchor t + k * period t)) = anchor t + ?i * period t"
  proof (rule Least_equality)
    show "after < anchor t + ?i * period t \<and> (\<exists>k. anchor t + ?i * period t = anchor t + k * period t)"
      using grid_next_greater [OF assms(1), of "after - anchor t"] False
      by (intro conjI exI [of _ ?i]) linarith+
  next
    fix g
    assume "after < g \<and> (\<exists>k. g = anchor t + k * period t)"
    then obtain k where g: "g = anchor t + k * period t" "after < g" by auto
    then have k: "after - anchor t < k * period t" using False by linarith
    then show "anchor t + ?i * period t \<le> g"
      unfolding g(1) using grid_next_least [OF assms(1) k] by (simp add: mult_le_mono1 del: mult_Suc)
  qed
  then show ?thesis
    using next_tick_grid [OF assms] False by simp
qed

lemma next_tick_least_witness:
  "next_tick 100000 \<lparr> period = 100, anchor = 1000 \<rparr> 1250 =
    (LEAST g. 1250 < g \<and> (\<exists>k. g = 1000 + k * (100 :: nat)))"
  using next_tick_least [of "\<lparr> period = 100, anchor = 1000 \<rparr>" 1250 100000]
  by (simp add: duration_max_def u64_max_eq nanos_per_sec_def)

text \<open>
  Waiting for one tick after the other from the anchor, the \<open>n\<close>-th tick falls exactly
  \<open>n\<close> periods after the anchor.
\<close>

theorem ticks_walk_grid:
  "0 < period t \<Longrightarrow> anchor t + n * period t \<le> latest \<Longrightarrow> latest \<le> duration_max \<Longrightarrow>
    (next_tick latest t ^^ n) (anchor t) = anchor t + n * period t"
proof (induction n)
  case (Suc n)
  have "(next_tick latest t ^^ Suc n) (anchor t) = next_tick latest t (anchor t + n * period t)"
    using Suc by simp
  also have "\<dots> = anchor t + Suc n * period t"
    using Suc.prems next_tick_grid [of t "anchor t + n * period t" latest] by (simp add: add.assoc add.commute)
  finally show ?case .
qed simp

theorem ticks_walk_grid_witness:
  "(next_tick 100000 \<lparr> period = 100, anchor = 1000 \<rparr> ^^ 7) 1000 = 1700"
  using ticks_walk_grid [of "\<lparr> period = 100, anchor = 1000 \<rparr>" 7 100000]
  by (simp add: duration_max_def u64_max_eq nanos_per_sec_def)

text \<open>
  \<^verbatim>\<open>ticks_between\<close> counts the grid points after the anchor in the half-open window from
  \<open>from_i\<close> to \<open>to_i\<close>. The anchor itself, which \<^verbatim>\<open>next_tick\<close> schedules as the first tick
  for a caller that asks before it, is not counted.
\<close>

lemma ticks_between_counts:
  assumes "0 < period t" and "(to_i - anchor t) div period t \<le> u64_max"
  shows "ticks_between t from_i to_i =
    card {k. 0 < k \<and> from_i < anchor t + k * period t \<and> anchor t + k * period t \<le> to_i}"
proof (cases "from_i < to_i")
  case False
  then have none: "{k. 0 < k \<and> from_i < anchor t + k * period t \<and> anchor t + k * period t \<le> to_i} = {}"
    by auto
  show ?thesis unfolding none using False by (simp add: ticks_between_def)
next
  case True
  let ?upto = "\<lambda>x. {k. 0 < k \<and> anchor t + k * period t \<le> x}"
  have fin: "finite (?upto x)" for x
    by (rule finite_subset [of _ "{.. x}"])
      (auto intro: order_trans [OF grid_index_le [OF assms(1)]] add_leD2)
  have "(from_i - anchor t) div period t \<le> u64_max"
    using True assms(2) by (meson diff_le_mono div_le_mono le_trans less_imp_le)
  then have "ticks_between t from_i to_i = card (?upto to_i) - card (?upto from_i)"
    using True assms by (simp add: ticks_between_def ticks_elapsed_grid sat_sub_def)
  also have "\<dots> = card (?upto to_i - ?upto from_i)"
    using True fin by (subst card_Diff_subset) auto
  also have "?upto to_i - ?upto from_i =
      {k. 0 < k \<and> from_i < anchor t + k * period t \<and> anchor t + k * period t \<le> to_i}"
    by auto
  finally show ?thesis .
qed

lemma ticks_between_counts_witness:
  "ticks_between \<lparr> period = 100, anchor = 1000 \<rparr> 900 1350 =
     card {k. 0 < k \<and> 900 < 1000 + k * 100 \<and> 1000 + k * 100 \<le> (1350 :: nat)} \<and>
   next_tick 100000 \<lparr> period = 100, anchor = 1000 \<rparr> 900 = 1000"
  using ticks_between_counts [of "\<lparr> period = 100, anchor = 1000 \<rparr>" 1350 900]
  by (simp add: u64_max_eq next_tick_before_anchor)

text \<open>
  On the manual clock a deadline that has expired stays expired and the time remaining
  never grows, through any sequence of advancing, setting and rewinding, as long as the
  platform can represent the clock's base plus the largest offset.
\<close>

lemma deadline_stays_expired:
  assumes "(manual_step latest)\<^sup>*\<^sup>* c c'"
  shows "{d. is_expired d (manual_now_instant latest real_now c)}
      \<subseteq> {d. is_expired d (manual_now_instant latest real_now c')}
    \<and> remaining d (manual_now_instant latest real_now c') \<le> remaining d (manual_now_instant latest real_now c)"
  using mclk.stays_expired [OF assms] mclk.remaining_antimono [OF assms] by blast

lemma deadline_stays_expired_witness:
  "remaining (Deadline 70)
      (manual_now_instant (50 + u64_max) 0 (rewind_wall 30 (manual_advance 15 (manual_new 50 1000))))
    \<le> remaining (Deadline 70) (manual_now_instant (50 + u64_max) 0 (manual_new 50 1000))"
proof -
  let ?c = "manual_new 50 1000"
  have "manual_step (50 + u64_max) ?c (manual_advance 15 ?c)"
    by (rule step_advance) (simp_all add: manual_new_def)
  moreover have "manual_step (50 + u64_max) (manual_advance 15 ?c) (rewind_wall 30 (manual_advance 15 ?c))"
    by (rule step_rewind) (simp_all add: manual_new_def manual_advance_def Let_def)
  ultimately have "(manual_step (50 + u64_max))\<^sup>*\<^sup>* ?c (rewind_wall 30 (manual_advance 15 ?c))"
    by (meson converse_rtranclp_into_rtranclp rtranclp.rtrancl_refl)
  from deadline_stays_expired [OF this, where real_now = 0 and d = "Deadline 70"] show ?thesis by blast
qed

end
