(* ===== verification/Wire_Metadata.thy ===== *)
theory Wire_Metadata
  imports Time_Hlc
begin

text \<open>
  Identifiers and message metadata of \<^verbatim>\<open>crates/astrs-wire/src\<close>: \<^verbatim>\<open>ids/name.rs\<close> (the name
  grammar), \<^verbatim>\<open>metadata/keys.rs\<close> (well-known keys and the goal state machine),
  \<^verbatim>\<open>metadata/parameter.rs\<close> and \<^verbatim>\<open>metadata/mod.rs\<close>, with the errors of \<^verbatim>\<open>error.rs\<close> they
  raise.

  A floating-point value is its 64 bits. The parameter map is a finite map from keys; the
  byte encoding comes from a third-party codec and is left out.
\<close>

section \<open>Names\<close>

text \<open>\<^verbatim>\<open>char::len_utf8\<close> and \<^verbatim>\<open>str::len\<close>.\<close>

definition len_utf8 :: "nat \<Rightarrow> nat" where
  "len_utf8 c = (if c < 128 then 1 else if c < 2048 then 2 else if c < 65536 then 3 else 4)"

definition str_len :: "rstr \<Rightarrow> nat" where
  "str_len s = sum_list (map len_utf8 s)"

datatype id_kind = KindNode | KindData | KindOperator | KindMachine | KindParam | KindTypeUrn | KindName

datatype id_error =
    IdEmpty id_kind
  | IdTooLong id_kind nat nat
  | IdInvalidChar id_kind rstr nat nat
  | IdMalformed id_kind rstr rstr

fun id_error_kind :: "id_error \<Rightarrow> id_kind" where
  "id_error_kind (IdEmpty k) = k"
| "id_error_kind (IdTooLong k _ _) = k"
| "id_error_kind (IdInvalidChar k _ _ _) = k"
| "id_error_kind (IdMalformed k _ _) = k"

definition error_value_preview_len :: nat where
  "error_value_preview_len = 48"

definition preview :: "rstr \<Rightarrow> rstr" where
  "preview s = (if error_value_preview_len < length s then take error_value_preview_len s @ [8230] else s)"

definition max_name_len :: nat where
  "max_name_len = 255"

definition is_name_char :: "nat \<Rightarrow> bool" where
  "is_name_char c \<longleftrightarrow> 48 \<le> c \<and> c \<le> 57 \<or> 65 \<le> c \<and> c \<le> 90 \<or> 97 \<le> c \<and> c \<le> 122
     \<or> c = 95 \<or> c = 46 \<or> c = 45"

text \<open>The loop of \<^verbatim>\<open>validate_name\<close> over the characters and their byte offsets.\<close>

fun find_bad_char :: "nat \<Rightarrow> rstr \<Rightarrow> (nat \<times> nat) option" where
  "find_bad_char index [] = None"
| "find_bad_char index (c # cs) =
    (if \<not> is_name_char c then Some (c, index) else find_bad_char (index + len_utf8 c) cs)"

definition validate_name :: "id_kind \<Rightarrow> rstr \<Rightarrow> nat \<Rightarrow> id_error + unit" where
  "validate_name kind s limit =
    (if s = [] then Inl (IdEmpty kind)
     else if limit < str_len s then Inl (IdTooLong kind (str_len s) limit)
     else case find_bad_char 0 s of
         Some (c, index) \<Rightarrow> Inl (IdInvalidChar kind (preview s) c index)
       | None \<Rightarrow> Inr ())"

definition name_new :: "id_kind \<Rightarrow> rstr \<Rightarrow> id_error + rstr" where
  "name_new kind s = (case validate_name kind s max_name_len of Inl e \<Rightarrow> Inl e | Inr _ \<Rightarrow> Inr s)"

text \<open>The loop of \<^verbatim>\<open>sanitized\<close>; \<open>repaired\<close> is what has been pushed so far.\<close>

fun sanitize_from :: "rstr \<Rightarrow> rstr \<Rightarrow> rstr" where
  "sanitize_from repaired [] = repaired"
| "sanitize_from repaired (c # cs) =
    (let c' = (if is_name_char c then c else 95)
     in if max_name_len < str_len repaired + len_utf8 c' then repaired
        else sanitize_from (repaired @ [c']) cs)"

definition sanitized :: "rstr \<Rightarrow> rstr" where
  "sanitized s = (let repaired = sanitize_from [] s in if repaired = [] then [95] else repaired)"

definition is_internal :: "rstr \<Rightarrow> bool" where
  "is_internal k \<longleftrightarrow> strip_prefix (str ''_'') k \<noteq> None"

section \<open>Well-known keys\<close>

definition correlation_keys :: "rstr list" where
  "correlation_keys = [str ''request_id'', str ''goal_id'', str ''goal_status'']"

definition stream_keys :: "rstr list" where
  "stream_keys = [str ''session_id'', str ''segment_id'', str ''seq'', str ''fin'', str ''flush'']"

definition well_known_keys :: "rstr list" where
  "well_known_keys = correlation_keys @ stream_keys @ [str ''_schema_hash'']"

definition is_internal_key :: "rstr \<Rightarrow> bool" where
  "is_internal_key k \<longleftrightarrow> strip_prefix (str ''_'') k \<noteq> None"

definition is_correlation_key :: "rstr \<Rightarrow> bool" where
  "is_correlation_key k \<longleftrightarrow> k \<in> set correlation_keys"

definition is_stream_key :: "rstr \<Rightarrow> bool" where
  "is_stream_key k \<longleftrightarrow> k \<in> set stream_keys"

definition is_reserved_key :: "rstr \<Rightarrow> bool" where
  "is_reserved_key k \<longleftrightarrow> is_internal_key k \<or> k \<in> set well_known_keys"

section \<open>Goals\<close>

datatype goal_status = GsUnknown | GsAccepted | GsExecuting | GsCanceling | GsSucceeded | GsCanceled | GsAborted

fun goal_as_i64 :: "goal_status \<Rightarrow> int" where
  "goal_as_i64 GsUnknown = 0"
| "goal_as_i64 GsAccepted = 1"
| "goal_as_i64 GsExecuting = 2"
| "goal_as_i64 GsCanceling = 3"
| "goal_as_i64 GsSucceeded = 4"
| "goal_as_i64 GsCanceled = 5"
| "goal_as_i64 GsAborted = 6"

definition goal_from_i64 :: "int \<Rightarrow> goal_status option" where
  "goal_from_i64 code =
    (if code = 0 then Some GsUnknown else if code = 1 then Some GsAccepted
     else if code = 2 then Some GsExecuting else if code = 3 then Some GsCanceling
     else if code = 4 then Some GsSucceeded else if code = 5 then Some GsCanceled
     else if code = 6 then Some GsAborted else None)"

definition goal_is_terminal :: "goal_status \<Rightarrow> bool" where
  "goal_is_terminal s \<longleftrightarrow> s \<in> {GsSucceeded, GsCanceled, GsAborted}"

definition goal_is_active :: "goal_status \<Rightarrow> bool" where
  "goal_is_active s \<longleftrightarrow> s \<in> {GsAccepted, GsExecuting, GsCanceling}"

fun can_transition_to :: "goal_status \<Rightarrow> goal_status \<Rightarrow> bool" where
  "can_transition_to GsUnknown t \<longleftrightarrow> t = GsAccepted"
| "can_transition_to GsAccepted t \<longleftrightarrow> t \<in> {GsExecuting, GsCanceling, GsSucceeded, GsCanceled, GsAborted}"
| "can_transition_to GsExecuting t \<longleftrightarrow> t \<in> {GsCanceling, GsSucceeded, GsCanceled, GsAborted}"
| "can_transition_to GsCanceling t \<longleftrightarrow> t \<in> {GsCanceled, GsSucceeded, GsAborted}"
| "can_transition_to GsSucceeded t \<longleftrightarrow> False"
| "can_transition_to GsCanceled t \<longleftrightarrow> False"
| "can_transition_to GsAborted t \<longleftrightarrow> False"

section \<open>Parameters\<close>

datatype parameter =
    PBool bool
  | PInteger int
  | PFloat u64
  | PString rstr
  | PListInt "int list"
  | PListFloat "u64 list"
  | PListString "rstr list"
  | PTimestamp hlc_timestamp

fun type_name :: "parameter \<Rightarrow> rstr" where
  "type_name (PBool _) = str ''bool''"
| "type_name (PInteger _) = str ''integer''"
| "type_name (PFloat _) = str ''float''"
| "type_name (PString _) = str ''string''"
| "type_name (PListInt _) = str ''list_int''"
| "type_name (PListFloat _) = str ''list_float''"
| "type_name (PListString _) = str ''list_string''"
| "type_name (PTimestamp _) = str ''timestamp''"

fun param_is_list :: "parameter \<Rightarrow> bool" where
  "param_is_list (PListInt _) = True"
| "param_is_list (PListFloat _) = True"
| "param_is_list (PListString _) = True"
| "param_is_list _ = False"

fun param_len :: "parameter \<Rightarrow> nat" where
  "param_len (PListInt vs) = length vs"
| "param_len (PListFloat vs) = length vs"
| "param_len (PListString vs) = length vs"
| "param_len _ = 1"

fun as_bool :: "parameter \<Rightarrow> bool option" where
  "as_bool (PBool b) = Some b"
| "as_bool _ = None"

fun as_integer :: "parameter \<Rightarrow> int option" where
  "as_integer (PInteger i) = Some i"
| "as_integer _ = None"

fun as_str :: "parameter \<Rightarrow> rstr option" where
  "as_str (PString s) = Some s"
| "as_str _ = None"

fun as_float :: "parameter \<Rightarrow> u64 option" where
  "as_float (PFloat f) = Some f"
| "as_float _ = None"

fun as_list_int :: "parameter \<Rightarrow> int list option" where
  "as_list_int (PListInt vs) = Some vs"
| "as_list_int _ = None"

fun as_list_float :: "parameter \<Rightarrow> u64 list option" where
  "as_list_float (PListFloat vs) = Some vs"
| "as_list_float _ = None"

fun as_list_string :: "parameter \<Rightarrow> rstr list option" where
  "as_list_string (PListString vs) = Some vs"
| "as_list_string _ = None"

fun as_timestamp :: "parameter \<Rightarrow> hlc_timestamp option" where
  "as_timestamp (PTimestamp t) = Some t"
| "as_timestamp _ = None"

section \<open>Metadata\<close>

record metadata =
  md_version :: nat
  md_timestamp :: hlc_timestamp
  md_parameters :: "rstr \<rightharpoonup> parameter"

definition metadata_version :: nat where
  "metadata_version = 1"

definition metadata_new :: "hlc_timestamp \<Rightarrow> metadata" where
  "metadata_new t = \<lparr> md_version = metadata_version, md_timestamp = t, md_parameters = Map.empty \<rparr>"

definition md_insert :: "rstr \<Rightarrow> parameter \<Rightarrow> metadata \<Rightarrow> (id_error, parameter option, metadata) outcome" where
  "md_insert key v m = (case name_new KindParam key of
      Inl e \<Rightarrow> err e m
    | Inr k \<Rightarrow> ok (md_parameters m k) (m \<lparr> md_parameters := (md_parameters m)(k \<mapsto> v) \<rparr>))"

definition md_with :: "rstr \<Rightarrow> parameter \<Rightarrow> metadata \<Rightarrow> id_error + metadata" where
  "md_with key v m = (case md_insert key v m of
      (Inl e, _) \<Rightarrow> Inl e
    | (Inr _, m') \<Rightarrow> Inr m')"

definition md_insert_key :: "rstr \<Rightarrow> parameter \<Rightarrow> metadata \<Rightarrow> parameter option \<times> metadata" where
  "md_insert_key k v m = (md_parameters m k, m \<lparr> md_parameters := (md_parameters m)(k \<mapsto> v) \<rparr>)"

definition md_get :: "metadata \<Rightarrow> rstr \<Rightarrow> parameter option" where
  "md_get m k = md_parameters m k"

definition md_remove :: "rstr \<Rightarrow> metadata \<Rightarrow> parameter option \<times> metadata" where
  "md_remove k m = (md_parameters m k, m \<lparr> md_parameters := (md_parameters m)(k := None) \<rparr>)"

definition md_contains_key :: "metadata \<Rightarrow> rstr \<Rightarrow> bool" where
  "md_contains_key m k \<longleftrightarrow> md_parameters m k \<noteq> None"

definition md_len :: "metadata \<Rightarrow> nat" where
  "md_len m = card (dom (md_parameters m))"

definition strip_internal :: "metadata \<Rightarrow> nat \<times> metadata" where
  "strip_internal m =
    (let m' = m \<lparr> md_parameters := (\<lambda>k. if is_internal k then None else md_parameters m k) \<rparr>
     in (md_len m - md_len m', m'))"

definition stripped :: "metadata \<Rightarrow> metadata" where
  "stripped m = snd (strip_internal m)"

definition is_correlated :: "metadata \<Rightarrow> bool" where
  "is_correlated m \<longleftrightarrow> list_ex (md_contains_key m) correlation_keys"

definition is_stream_chunk :: "metadata \<Rightarrow> bool" where
  "is_stream_chunk m \<longleftrightarrow> md_contains_key m (str ''session_id'')"

definition follow :: "metadata \<Rightarrow> metadata" where
  "follow m = \<lparr> md_version = metadata_version, md_timestamp = md_timestamp m,
     md_parameters = (\<lambda>k. if is_correlation_key k \<or> is_stream_key k then md_parameters m k else None) \<rparr>"

definition set_known :: "rstr \<Rightarrow> parameter \<Rightarrow> metadata \<Rightarrow> metadata" where
  "set_known key v m = (case name_new KindParam key of
      Inr k \<Rightarrow> m \<lparr> md_parameters := (md_parameters m)(k \<mapsto> v) \<rparr>
    | Inl _ \<Rightarrow> m)"

definition request_id :: "metadata \<Rightarrow> rstr option" where
  "request_id m = Option.bind (md_get m (str ''request_id'')) as_str"

definition set_request_id :: "rstr \<Rightarrow> metadata \<Rightarrow> metadata" where
  "set_request_id v = set_known (str ''request_id'') (PString v)"

definition goal_id :: "metadata \<Rightarrow> rstr option" where
  "goal_id m = Option.bind (md_get m (str ''goal_id'')) as_str"

definition set_goal_id :: "rstr \<Rightarrow> metadata \<Rightarrow> metadata" where
  "set_goal_id v = set_known (str ''goal_id'') (PString v)"

definition goal_status_of :: "metadata \<Rightarrow> goal_status option" where
  "goal_status_of m = Option.bind (Option.bind (md_get m (str ''goal_status'')) as_integer) goal_from_i64"

definition set_goal_status :: "goal_status \<Rightarrow> metadata \<Rightarrow> metadata" where
  "set_goal_status s = set_known (str ''goal_status'') (PInteger (goal_as_i64 s))"

definition seq_of :: "metadata \<Rightarrow> int option" where
  "seq_of m = Option.bind (md_get m (str ''seq'')) as_integer"

definition set_seq :: "int \<Rightarrow> metadata \<Rightarrow> metadata" where
  "set_seq v = set_known (str ''seq'') (PInteger v)"

definition fin_of :: "metadata \<Rightarrow> bool option" where
  "fin_of m = Option.bind (md_get m (str ''fin'')) as_bool"

definition set_fin :: "bool \<Rightarrow> metadata \<Rightarrow> metadata" where
  "set_fin v = set_known (str ''fin'') (PBool v)"

definition session_id :: "metadata \<Rightarrow> rstr option" where
  "session_id m = Option.bind (md_get m (str ''session_id'')) as_str"

definition set_session_id :: "rstr \<Rightarrow> metadata \<Rightarrow> metadata" where
  "set_session_id v = set_known (str ''session_id'') (PString v)"

definition segment_id :: "metadata \<Rightarrow> int option" where
  "segment_id m = Option.bind (md_get m (str ''segment_id'')) as_integer"

definition set_segment_id :: "int \<Rightarrow> metadata \<Rightarrow> metadata" where
  "set_segment_id v = set_known (str ''segment_id'') (PInteger v)"

definition flush_of :: "metadata \<Rightarrow> bool option" where
  "flush_of m = Option.bind (md_get m (str ''flush'')) as_bool"

definition set_flush :: "bool \<Rightarrow> metadata \<Rightarrow> metadata" where
  "set_flush v = set_known (str ''flush'') (PBool v)"

definition schema_hash :: "metadata \<Rightarrow> rstr option" where
  "schema_hash m = Option.bind (md_get m (str ''_schema_hash'')) as_str"

definition insert_schema_hash :: "rstr \<Rightarrow> metadata \<Rightarrow> metadata" where
  "insert_schema_hash v = set_known (str ''_schema_hash'') (PString v)"

section \<open>Facts on names\<close>

lemma len_utf8_name_char: "is_name_char c \<Longrightarrow> len_utf8 c = 1"
  by (auto simp: is_name_char_def len_utf8_def)

lemma find_bad_char_None: "find_bad_char i s = None \<longleftrightarrow> list_all is_name_char s"
  by (induction i s rule: find_bad_char.induct) auto

lemma str_len_name: "list_all is_name_char s \<Longrightarrow> str_len s = length s"
  by (induction s) (auto simp: str_len_def len_utf8_name_char)

lemma name_new_valid:
  "name_new kind s = Inr s \<longleftrightarrow> s \<noteq> [] \<and> length s \<le> max_name_len \<and> list_all is_name_char s"
proof (cases "list_all is_name_char s")
  case True
  then show ?thesis
    by (auto simp: name_new_def validate_name_def str_len_name find_bad_char_None [THEN iffD2])
next
  case False
  then have "find_bad_char 0 s \<noteq> None" by (simp add: find_bad_char_None)
  with False show ?thesis
    by (auto simp: name_new_def validate_name_def)
qed

lemma name_new_cases: "name_new kind s = Inr t \<Longrightarrow> t = s"
  by (auto simp: name_new_def split: sum.splits)

lemma sanitize_from_eq:
  "list_all is_name_char r \<Longrightarrow> length r \<le> max_name_len \<Longrightarrow>
    sanitize_from r s = take max_name_len (r @ map (\<lambda>c. if is_name_char c then c else 95) s)"
proof (induction r s rule: sanitize_from.induct)
  case (2 r c cs)
  let ?c = "if is_name_char c then c else 95"
  have name: "is_name_char ?c" by (simp add: is_name_char_def)
  then have len: "str_len r + len_utf8 ?c = length r + 1"
    using "2.prems"(1) by (simp add: str_len_name len_utf8_name_char del: if_split_asm split del: if_split)
  show ?case
  proof (cases "length r + 1 \<le> max_name_len")
    case True
    then show ?thesis
      using "2.IH" [of ?c] "2.prems" name len by (simp add: Let_def del: if_split_asm split del: if_split)
  next
    case False
    then have "length r = max_name_len" using "2.prems"(2) by simp
    then show ?thesis
      using False len by (simp add: Let_def del: if_split_asm split del: if_split)
  qed
qed simp

lemma sanitized_eq:
  "sanitized s = (if s = [] then [95] else take max_name_len (map (\<lambda>c. if is_name_char c then c else 95) s))"
  using sanitize_from_eq [of "[]" s] by (auto simp: sanitized_def Let_def max_name_len_def)

lemma name_chars_map: "list_all is_name_char (map (\<lambda>c. if is_name_char c then c else 95) s)"
  by (induction s) (auto simp: is_name_char_def)

lemma name_chars_sanitized: "list_all is_name_char (sanitized s)"
  using list_all_append [of is_name_char "take max_name_len (map (\<lambda>c. if is_name_char c then c else 95) s)"
      "drop max_name_len (map (\<lambda>c. if is_name_char c then c else 95) s)"] name_chars_map [of s]
  by (auto simp: sanitized_eq is_name_char_def)

lemma sanitized_id: "s \<noteq> [] \<Longrightarrow> length s \<le> max_name_len \<Longrightarrow> list_all is_name_char s \<Longrightarrow> sanitized s = s"
  by (simp add: sanitized_eq list_all_iff map_idI)

lemma sanitized_shape: "sanitized s \<noteq> [] \<and> length (sanitized s) \<le> max_name_len"
  by (auto simp: sanitized_eq max_name_len_def)

section \<open>Facts on metadata\<close>

lemma str_inject [simp]: "str a = str b \<longleftrightarrow> a = b"
  by (simp add: str_def inj_map_eq_map [OF inj_of_char])

lemma internal_iff: "is_internal k \<longleftrightarrow> k \<noteq> [] \<and> hd k = 95"
  by (cases k) (auto simp: is_internal_def str_def)

lemma correlation_not_internal: "k \<in> set correlation_keys \<Longrightarrow> \<not> is_internal k"
  by (auto simp: correlation_keys_def internal_iff str_def)

lemma is_correlated_iff: "is_correlated m \<longleftrightarrow> (\<exists>k \<in> set correlation_keys. md_parameters m k \<noteq> None)"
  by (simp add: is_correlated_def list_ex_iff md_contains_key_def)

lemma stripped_parameters: "md_parameters (stripped m) k = (if is_internal k then None else md_parameters m k)"
  by (simp add: stripped_def strip_internal_def Let_def)

lemma well_known_valid: "k \<in> set well_known_keys \<Longrightarrow> name_new kind k = Inr k"
  unfolding name_new_valid
  by (auto simp: well_known_keys_def correlation_keys_def stream_keys_def str_def max_name_len_def is_name_char_def)

lemma set_known_get: "k \<in> set well_known_keys \<Longrightarrow> md_get (set_known k v m) j = (if j = k then Some v else md_get m j)"
  by (simp add: set_known_def well_known_valid md_get_def)

definition goal_rank :: "goal_status \<Rightarrow> nat" where
  "goal_rank s = (case s of GsUnknown \<Rightarrow> 0 | GsAccepted \<Rightarrow> 1 | GsExecuting \<Rightarrow> 2 | GsCanceling \<Rightarrow> 3 | _ \<Rightarrow> 4)"

lemma goal_rank_increases: "can_transition_to s t \<Longrightarrow> goal_rank s < goal_rank t"
  by (cases s) (auto simp: goal_rank_def)

lemma is_correlated_follow: "is_correlated (follow m) = is_correlated m"
  by (simp add: is_correlated_iff follow_def is_correlation_key_def)

lemma is_correlated_stripped: "is_correlated (stripped m) = is_correlated m"
  using correlation_not_internal by (auto simp: is_correlated_iff stripped_parameters)

section \<open>Properties\<close>

text \<open>
  Whatever text it is given, \<^verbatim>\<open>sanitized\<close> returns a name that the validating constructor
  accepts, and the names that constructor accepts are exactly those it leaves unchanged.
\<close>

lemma sanitized_names_valid:
  "name_new kind (sanitized s) = Inr (sanitized s) \<and> {t. name_new kind t = Inr t} = {t. sanitized t = t}"
proof -
  have ok: "name_new kind (sanitized s) = Inr (sanitized s)" for s
    using sanitized_shape [of s] name_chars_sanitized [of s] by (simp add: name_new_valid)
  moreover have "sanitized t = t" if "name_new kind t = Inr t" for t
    using that sanitized_id by (simp add: name_new_valid)
  moreover have "name_new kind t = Inr t" if "sanitized t = t" for t
    using ok [of t] that by simp
  ultimately show ?thesis by blast
qed

text \<open>
  The keys that make a message immune to eviction survive every hop: deriving the metadata
  of a response and removing the internal keys before delivery both leave a message correlated
  exactly when it was, and removing the internal keys removes all of them and nothing else.
\<close>

lemma correlation_survives:
  "is_correlated (follow m) = is_correlated m \<and> is_correlated (stripped m) = is_correlated m \<and>
   dom (md_parameters (stripped m)) = dom (md_parameters m) - Collect is_internal \<and>
   request_id (follow m) = request_id m \<and> goal_status_of (follow m) = goal_status_of m \<and> seq_of (follow m) = seq_of m"
proof -
  have "dom (md_parameters (stripped m)) = dom (md_parameters m) - Collect is_internal"
    by (auto simp: stripped_parameters split: if_splits)
  moreover have "request_id (follow m) = request_id m" "goal_status_of (follow m) = goal_status_of m"
      "seq_of (follow m) = seq_of m"
    by (simp_all add: request_id_def goal_status_of_def seq_of_def md_get_def follow_def
        is_correlation_key_def is_stream_key_def correlation_keys_def stream_keys_def)
  ultimately show ?thesis by (simp add: is_correlated_follow is_correlated_stripped)
qed

text \<open>
  The goal state machine has no cycle, so every goal comes to rest, and the states at rest
  are exactly the terminal ones.
\<close>

lemma goal_lifecycle_ends:
  "wf {(t, s). can_transition_to s t} \<and> (goal_is_terminal s \<longleftrightarrow> Collect (can_transition_to s) = {})"
proof
  show "wf {(t, s). can_transition_to s t}"
    by (rule wf_subset [OF wf_measure [of "\<lambda>s. 4 - goal_rank s"]])
      (auto dest!: goal_rank_increases simp: goal_rank_def split: goal_status.splits)
  show "goal_is_terminal s \<longleftrightarrow> Collect (can_transition_to s) = {}"
    by (cases s) (auto simp: goal_is_terminal_def)
qed

end
