(* ===== verification/Sched_Queue.thy ===== *)
theory Sched_Queue
  imports Wire_Metadata "HOL-Library.Sublist"
begin

text \<open>
  The bounded input queues of \<^verbatim>\<open>crates/astrs-scheduler/src\<close>: \<^verbatim>\<open>queue.rs\<close>, and the
  eviction-immunity rule of \<^verbatim>\<open>metadata_view.rs\<close>. \<^verbatim>\<open>QueuePolicy\<close> is from
  \<^verbatim>\<open>crates/astrs-wire/src/common/node.rs\<close>.

  A queue is generic in its messages; the trait method \<^verbatim>\<open>is_evict_immune\<close> is the argument
  \<open>immune\<close>. A call under the queue's mutex is one step. The counters are unsigned 64-bit
  integers that wrap, and the length is narrowed to 32 bits where the code narrows it.
\<close>

section \<open>Immunity\<close>

record 'a sched_envelope =
  env_payload :: 'a
  env_metadata :: "metadata option"
  env_stop :: bool

definition sched_envelope_new :: "'a \<Rightarrow> 'a sched_envelope" where
  "sched_envelope_new x = \<lparr> env_payload = x, env_metadata = None, env_stop = False \<rparr>"

definition with_metadata :: "'a \<Rightarrow> metadata \<Rightarrow> 'a sched_envelope" where
  "with_metadata x m = \<lparr> env_payload = x, env_metadata = Some m, env_stop = False \<rparr>"

definition stop_signal :: "unit sched_envelope" where
  "stop_signal = \<lparr> env_payload = (), env_metadata = None, env_stop = True \<rparr>"

definition is_evict_immune :: "'a sched_envelope \<Rightarrow> bool" where
  "is_evict_immune e \<longleftrightarrow> env_stop e \<or> (case env_metadata e of None \<Rightarrow> False | Some m \<Rightarrow> is_correlated m)"

section \<open>The queue\<close>

datatype queue_policy = DropOldest | Backpressure

fun overflow_multiplier :: "queue_policy \<Rightarrow> nat" where
  "overflow_multiplier DropOldest = 1"
| "overflow_multiplier Backpressure = 10"

datatype 'id scheduler_error = ZeroCapacity | DuplicateInput 'id

datatype push_outcome = Enqueued | EnqueuedEvicting | DroppedIncoming

datatype queue_signal =
    BackpressureExhausted nat nat
  | ImmuneOverflow nat nat

record push_report =
  rep_outcome :: push_outcome
  rep_signal :: "queue_signal option"

record 'm input_queue =
  q_items :: "'m list"
  q_immune_count :: nat
  q_capacity :: nat
  q_effective :: nat
  q_policy :: queue_policy
  q_depth :: nat
  q_immune_gauge :: nat
  q_delivered :: nat
  q_dropped :: nat
  q_overflows :: nat

record queue_snapshot =
  snap_depth :: nat
  snap_immune_count :: nat
  snap_capacity :: nat
  snap_effective :: nat
  snap_delivered :: nat
  snap_dropped :: nat
  snap_overflows :: nat

definition queue_new :: "nat \<Rightarrow> queue_policy \<Rightarrow> 'id scheduler_error + 'm input_queue" where
  "queue_new capacity policy =
    (if capacity = 0 then Inl ZeroCapacity
     else Inr \<lparr> q_items = [], q_immune_count = 0, q_capacity = capacity,
            q_effective = min (capacity * overflow_multiplier policy) u32_max, q_policy = policy,
            q_depth = 0, q_immune_gauge = 0, q_delivered = 0, q_dropped = 0, q_overflows = 0 \<rparr>)"

definition queue_len :: "'m input_queue \<Rightarrow> nat" where
  "queue_len q = length (q_items q)"

definition queue_is_empty :: "'m input_queue \<Rightarrow> bool" where
  "queue_is_empty q \<longleftrightarrow> queue_len q = 0"

definition queue_snapshot_of :: "'m input_queue \<Rightarrow> queue_snapshot" where
  "queue_snapshot_of q = \<lparr> snap_depth = q_depth q, snap_immune_count = q_immune_gauge q,
     snap_capacity = q_capacity q, snap_effective = q_effective q, snap_delivered = q_delivered q,
     snap_dropped = q_dropped q, snap_overflows = q_overflows q \<rparr>"

definition sync_gauges :: "'m input_queue \<Rightarrow> 'm input_queue" where
  "sync_gauges q = q \<lparr> q_depth := length (q_items q), q_immune_gauge := q_immune_count q \<rparr>"

definition as_u32 :: "nat \<Rightarrow> nat" where
  "as_u32 n = n mod 2 ^ 32"

text \<open>\<^verbatim>\<open>iter().position(p)\<close>.\<close>

fun position :: "('a \<Rightarrow> bool) \<Rightarrow> 'a list \<Rightarrow> nat option" where
  "position P [] = None"
| "position P (x # xs) = (if P x then Some 0 else map_option Suc (position P xs))"

definition remove_at :: "nat \<Rightarrow> 'a list \<Rightarrow> 'a list" where
  "remove_at i xs = take i xs @ drop (Suc i) xs"

text \<open>The branch of \<^verbatim>\<open>push\<close> for \<open>DropOldest\<close> at the ceiling.\<close>

definition push_evicting :: "('m \<Rightarrow> bool) \<Rightarrow> 'm \<Rightarrow> 'm input_queue \<Rightarrow> push_report \<times> 'm input_queue" where
  "push_evicting immune x q =
    (if length (q_items q) \<le> q_immune_count q
     then (\<lparr> rep_outcome = DroppedIncoming,
             rep_signal = Some (ImmuneOverflow (q_immune_count q) (q_effective q)) \<rparr>,
           q \<lparr> q_dropped := wrap_add (q_dropped q) 1, q_overflows := wrap_add (q_overflows q) 1 \<rparr>)
     else
       let victim = (case position (\<lambda>y. \<not> immune y) (q_items q) of Some i \<Rightarrow> i | None \<Rightarrow> 0)
       in (\<lparr> rep_outcome = EnqueuedEvicting, rep_signal = None \<rparr>,
           sync_gauges (q \<lparr> q_items := remove_at victim (q_items q) @ [x],
                           q_dropped := wrap_add (q_dropped q) 1 \<rparr>)))"

definition queue_push :: "('m \<Rightarrow> bool) \<Rightarrow> 'm \<Rightarrow> 'm input_queue \<Rightarrow> push_report \<times> 'm input_queue" where
  "queue_push immune x q =
    (if as_u32 (length (q_items q)) < q_effective q
     then (\<lparr> rep_outcome = Enqueued, rep_signal = None \<rparr>,
           sync_gauges (q \<lparr> q_items := q_items q @ [x],
             q_immune_count := (if immune x then q_immune_count q + 1 else q_immune_count q) \<rparr>))
     else if immune x
     then let q' = sync_gauges (q \<lparr> q_items := q_items q @ [x], q_immune_count := q_immune_count q + 1 \<rparr>)
          in if q_effective q < as_u32 (length (q_items q'))
             then (\<lparr> rep_outcome = Enqueued,
                     rep_signal = Some (ImmuneOverflow (q_immune_count q') (q_effective q)) \<rparr>,
                   q' \<lparr> q_overflows := wrap_add (q_overflows q') 1 \<rparr>)
             else (\<lparr> rep_outcome = Enqueued, rep_signal = None \<rparr>, q')
     else case q_policy q of
         DropOldest \<Rightarrow> push_evicting immune x q
       | Backpressure \<Rightarrow>
           (\<lparr> rep_outcome = DroppedIncoming,
              rep_signal = Some (BackpressureExhausted (q_capacity q) (as_u32 (length (q_items q)))) \<rparr>,
            q \<lparr> q_dropped := wrap_add (q_dropped q) 1 \<rparr>))"

definition queue_pop :: "('m \<Rightarrow> bool) \<Rightarrow> 'm input_queue \<Rightarrow> 'm option \<times> 'm input_queue" where
  "queue_pop immune q = (case q_items q of
      [] \<Rightarrow> (None, q)
    | x # xs \<Rightarrow>
        (Some x,
         (sync_gauges (q \<lparr> q_items := xs,
            q_immune_count := (if immune x then q_immune_count q - 1 else q_immune_count q) \<rparr>))
         \<lparr> q_delivered := wrap_add (q_delivered q) 1 \<rparr>))"

section \<open>What a bounded buffer promises\<close>

text \<open>
  Of a list of messages, \<open>kept\<close> says which may be missing: the order stays, and nothing
  immune is lost.
\<close>

definition kept :: "('m \<Rightarrow> bool) \<Rightarrow> 'm list \<Rightarrow> 'm list \<Rightarrow> bool" where
  "kept immune xs ys \<longleftrightarrow> subseq ys xs \<and> filter immune ys = filter immune xs"

lemma kept_refl [simp]: "kept immune xs xs"
  by (simp add: kept_def)

lemma kept_trans: "kept immune xs ys \<Longrightarrow> kept immune ys zs \<Longrightarrow> kept immune xs zs"
  by (auto simp: kept_def intro: subseq_order.order_trans)

lemma kept_append: "kept immune xs ys \<Longrightarrow> kept immune (xs @ us) (ys @ us)"
  by (simp add: kept_def list_emb_append_mono)

lemma kept_Cons: "kept immune xs ys \<Longrightarrow> kept immune (x # xs) (x # ys)"
  by (simp add: kept_def)

lemma kept_immune_mem: "kept immune xs ys \<Longrightarrow> immune x \<Longrightarrow> x \<in> set xs \<Longrightarrow> x \<in> set ys"
  by (metis (no_types, lifting) filter_set kept_def Set.mem_Collect_eq set_filter)

datatype 'm buffer_op = PushOp 'm | PopOp

primrec pushed :: "'m buffer_op list \<Rightarrow> 'm list" where
  "pushed [] = []"
| "pushed (e # es) = (case e of PushOp x \<Rightarrow> x # pushed es | PopOp \<Rightarrow> pushed es)"

text \<open>A run of calls: the messages handed out, and the buffer afterwards.\<close>

primrec buffer_run ::
    "('m \<Rightarrow> 'q \<Rightarrow> 'r \<times> 'q) \<Rightarrow> ('q \<Rightarrow> 'm option \<times> 'q) \<Rightarrow> 'm buffer_op list \<Rightarrow> 'q \<Rightarrow> 'm list \<times> 'q" where
  "buffer_run push pop [] q = ([], q)"
| "buffer_run push pop (e # es) q = (case e of
      PushOp x \<Rightarrow> buffer_run push pop es (snd (push x q))
    | PopOp \<Rightarrow> (case pop q of
          (None, q') \<Rightarrow> buffer_run push pop es q'
        | (Some x, q') \<Rightarrow> (x # fst (buffer_run push pop es q'), snd (buffer_run push pop es q'))))"

locale bounded_buffer =
  fixes contents :: "'q \<Rightarrow> 'm list" and immune :: "'m \<Rightarrow> bool" and invar :: "'q \<Rightarrow> bool"
    and push :: "'m \<Rightarrow> 'q \<Rightarrow> 'r \<times> 'q" and pop :: "'q \<Rightarrow> 'm option \<times> 'q"
  assumes push_invar: "invar q \<Longrightarrow> invar (snd (push x q))"
    and pop_invar: "invar q \<Longrightarrow> invar (snd (pop q))"
    and push_kept: "invar q \<Longrightarrow> kept immune (contents q @ [x]) (contents (snd (push x q)))"
    and pop_contents: "contents q = (case fst (pop q) of None \<Rightarrow> [] | Some x \<Rightarrow> [x]) @ contents (snd (pop q))"
begin

lemma run_invar: "invar q \<Longrightarrow> invar (snd (buffer_run push pop es q))"
proof (induction es arbitrary: q)
  case (Cons e es)
  then show ?case
    using push_invar pop_invar [of q] by (cases e; cases "pop q"; cases "fst (pop q)") auto
qed simp

lemma run_kept:
  "invar q \<Longrightarrow> kept immune (contents q @ pushed es)
    (fst (buffer_run push pop es q) @ contents (snd (buffer_run push pop es q)))"
proof (induction es arbitrary: q)
  case (Cons e es)
  show ?case
  proof (cases e)
    case (PushOp x)
    have "kept immune ((contents q @ [x]) @ pushed es) (contents (snd (push x q)) @ pushed es)"
      using push_kept [OF Cons.prems] by (rule kept_append)
    then show ?thesis
      using PushOp kept_trans Cons.IH [OF push_invar [OF Cons.prems]] by fastforce
  next
    case PopOp
    show ?thesis
      using PopOp Cons.IH [OF pop_invar [OF Cons.prems]] pop_contents [of q]
      by (cases "pop q"; cases "fst (pop q)") (auto intro: kept_Cons)
  qed
qed simp

end

section \<open>The queue keeps the promise\<close>

text \<open>The counter of immune messages agrees with the messages; eviction relies on it.\<close>

definition queue_inv :: "('m \<Rightarrow> bool) \<Rightarrow> 'm input_queue \<Rightarrow> bool" where
  "queue_inv immune q \<longleftrightarrow> q_immune_count q = length (filter immune (q_items q))"

lemma sync_gauges_simps [simp]:
  "q_items (sync_gauges q) = q_items q" "q_immune_count (sync_gauges q) = q_immune_count q"
  "q_capacity (sync_gauges q) = q_capacity q" "q_effective (sync_gauges q) = q_effective q"
  "q_policy (sync_gauges q) = q_policy q" "q_delivered (sync_gauges q) = q_delivered q"
  "q_dropped (sync_gauges q) = q_dropped q" "q_overflows (sync_gauges q) = q_overflows q"
  "q_depth (sync_gauges q) = length (q_items q)" "q_immune_gauge (sync_gauges q) = q_immune_count q"
  by (simp_all add: sync_gauges_def)

lemma position_SomeD: "position P xs = Some i \<Longrightarrow> i < length xs \<and> P (xs ! i)"
  by (induction xs arbitrary: i) (auto split: if_splits)

lemma position_None: "position P xs = None \<longleftrightarrow> (\<forall>x \<in> set xs. \<not> P x)"
  by (induction xs) auto

lemma subseq_remove_at: "subseq (remove_at i xs) xs"
  by (induction xs arbitrary: i) (auto simp: remove_at_def take_Cons drop_Cons split: nat.split)

lemma filter_remove_at: "i < length xs \<Longrightarrow> \<not> P (xs ! i) \<Longrightarrow> filter P (remove_at i xs) = filter P xs"
  by (induction xs arbitrary: i) (auto simp: remove_at_def take_Cons drop_Cons nth_Cons split: nat.splits)

lemma length_remove_at: "i < length xs \<Longrightarrow> Suc (length (remove_at i xs)) = length xs"
  by (simp add: remove_at_def)

lemma some_evictable: "length (filter P xs) < length xs \<Longrightarrow> \<exists>i. position (\<lambda>x. \<not> P x) xs = Some i"
  by (induction xs) (auto split: if_splits)

lemma push_evicting_cases:
  assumes "queue_inv immune q" and "\<not> immune x"
  obtains (full) "q_items (snd (push_evicting immune x q)) = q_items q"
      "q_immune_count (snd (push_evicting immune x q)) = q_immune_count q"
      "q_dropped (snd (push_evicting immune x q)) = wrap_add (q_dropped q) 1"
  | (evicted) i where "i < length (q_items q)" "\<not> immune (q_items q ! i)"
      "q_items (snd (push_evicting immune x q)) = remove_at i (q_items q) @ [x]"
      "q_immune_count (snd (push_evicting immune x q)) = q_immune_count q"
      "q_dropped (snd (push_evicting immune x q)) = wrap_add (q_dropped q) 1"
proof (cases "length (q_items q) \<le> q_immune_count q")
  case True
  then show thesis using full by (simp add: push_evicting_def)
next
  case False
  then obtain i where "position (\<lambda>y. \<not> immune y) (q_items q) = Some i"
    using assms(1) some_evictable [of immune "q_items q"] by (auto simp: queue_inv_def)
  then show thesis
    using evicted [of i] False position_SomeD by (fastforce simp: push_evicting_def)
qed

text \<open>What a push does to the messages, in the four ways it can end.\<close>

lemma queue_push_cases:
  assumes "queue_inv immune q"
  obtains (appended) "q_items (snd (queue_push immune x q)) = q_items q @ [x]"
      "q_immune_count (snd (queue_push immune x q)) = (if immune x then q_immune_count q + 1 else q_immune_count q)"
      "q_dropped (snd (queue_push immune x q)) = q_dropped q"
      "immune x \<or> as_u32 (length (q_items q)) < q_effective q"
  | (evicted) i where "i < length (q_items q)" "\<not> immune (q_items q ! i)" "\<not> immune x"
      "q_items (snd (queue_push immune x q)) = remove_at i (q_items q) @ [x]"
      "q_immune_count (snd (queue_push immune x q)) = q_immune_count q"
      "q_dropped (snd (queue_push immune x q)) = wrap_add (q_dropped q) 1"
  | (refused) "\<not> immune x" "q_items (snd (queue_push immune x q)) = q_items q"
      "q_immune_count (snd (queue_push immune x q)) = q_immune_count q"
      "q_dropped (snd (queue_push immune x q)) = wrap_add (q_dropped q) 1"
proof -
  consider "as_u32 (length (q_items q)) < q_effective q" | "\<not> as_u32 (length (q_items q)) < q_effective q" "immune x"
    | "\<not> as_u32 (length (q_items q)) < q_effective q" "\<not> immune x" "q_policy q = DropOldest"
    | "\<not> as_u32 (length (q_items q)) < q_effective q" "\<not> immune x" "q_policy q = Backpressure"
    by (cases "q_policy q") auto
  then show thesis
  proof cases
    case 1
    then show thesis using appended by (simp add: queue_push_def)
  next
    case 2
    then show thesis using appended by (simp add: queue_push_def Let_def split: if_splits)
  next
    case 3
    then have "queue_push immune x q = push_evicting immune x q" by (simp add: queue_push_def)
    with 3 push_evicting_cases [OF assms 3(2)] evicted refused show thesis by metis
  next
    case 4
    then show thesis using refused by (simp add: queue_push_def)
  qed
qed

lemma queue_push_inv:
  assumes "queue_inv immune q"
  shows "queue_inv immune (snd (queue_push immune x q))"
  by (rule queue_push_cases [OF assms, of x]) (use assms in \<open>auto simp: queue_inv_def filter_remove_at\<close>)

lemma queue_pop_inv: "queue_inv immune q \<Longrightarrow> queue_inv immune (snd (queue_pop immune q))"
  by (auto simp: queue_inv_def queue_pop_def split: list.split)

lemma queue_push_kept:
  assumes "queue_inv immune q"
  shows "kept immune (q_items q @ [x]) (q_items (snd (queue_push immune x q)))"
  using assms
  by (rule queue_push_cases [of immune q x])
    (auto simp: kept_def filter_remove_at subseq_remove_at list_emb_append_mono intro: list_emb_append2)

interpretation inq: bounded_buffer q_items immune "queue_inv immune" "queue_push immune" "queue_pop immune"
proof
  fix q :: "'a input_queue" and x :: 'a
  show "queue_inv immune q \<Longrightarrow> queue_inv immune (snd (queue_push immune x q))" by (rule queue_push_inv)
  show "queue_inv immune q \<Longrightarrow> queue_inv immune (snd (queue_pop immune q))" by (rule queue_pop_inv)
  show "queue_inv immune q \<Longrightarrow> kept immune (q_items q @ [x]) (q_items (snd (queue_push immune x q)))"
    by (rule queue_push_kept)
  show "q_items q = (case fst (queue_pop immune q) of None \<Rightarrow> [] | Some x \<Rightarrow> [x]) @ q_items (snd (queue_pop immune q))"
    by (simp add: queue_pop_def split: list.split)
qed

lemma queue_new_inv: "queue_new c p = Inr q \<Longrightarrow> queue_inv immune q \<and> q_items q = []"
  by (auto simp: queue_new_def queue_inv_def split: if_splits)

section \<open>Counters and bounds\<close>

text \<open>
  What the counters add up to, and how many messages without immunity a queue holds. Below
  \<open>2^32\<close> messages neither the narrowing of the length nor the wrap of a counter shows.
\<close>

definition queue_total :: "'m input_queue \<Rightarrow> nat" where
  "queue_total q = q_delivered q + q_dropped q + length (q_items q)"

definition evictable :: "('m \<Rightarrow> bool) \<Rightarrow> 'm input_queue \<Rightarrow> nat" where
  "evictable immune q = length (filter (\<lambda>x. \<not> immune x) (q_items q))"

lemma wrap_add_1: "n < 2 ^ 32 \<Longrightarrow> wrap_add n 1 = n + 1"
  by (simp add: wrap_add_def)

lemma evictable_remove_at:
  assumes "i < length (q_items q)" and "\<not> immune (q_items q ! i)"
  shows "length (filter (\<lambda>x. \<not> immune x) (remove_at i (q_items q))) + 1 = evictable immune q"
  using sum_length_filter_compl [of immune "remove_at i (q_items q)"] sum_length_filter_compl [of immune "q_items q"]
    filter_remove_at [of i "q_items q" immune] length_remove_at [of i "q_items q"] assms
  by (simp add: evictable_def)

lemma queue_push_counts:
  assumes inv: "queue_inv immune q" and small: "queue_total q < 2 ^ 32"
    and bound: "evictable immune q \<le> q_effective q"
  shows "queue_total (snd (queue_push immune x q)) = queue_total q + 1"
    and "evictable immune (snd (queue_push immune x q)) \<le> q_effective q"
    and "q_effective (snd (queue_push immune x q)) = q_effective q"
    and "q_delivered (snd (queue_push immune x q)) = q_delivered q"
proof -
  show del: "q_delivered (snd (queue_push immune x q)) = q_delivered q"
    and "q_effective (snd (queue_push immune x q)) = q_effective q"
    by (simp_all add: queue_push_def push_evicting_def Let_def split: queue_policy.split)
  have small': "q_dropped q < 2 ^ 32" "length (q_items q) < 2 ^ 32"
    using small by (simp_all add: queue_total_def)
  show "queue_total (snd (queue_push immune x q)) = queue_total q + 1"
  proof (rule queue_push_cases [OF inv, of x])
    fix i
    assume *: "i < length (q_items q)" "q_items (snd (queue_push immune x q)) = remove_at i (q_items q) @ [x]"
      "q_dropped (snd (queue_push immune x q)) = wrap_add (q_dropped q) 1"
    then show ?thesis
      using del length_remove_at [OF *(1)] wrap_add_1 [OF small'(1)] by (simp add: queue_total_def)
  qed (use del wrap_add_1 [OF small'(1)] in \<open>simp_all add: queue_total_def\<close>)
  show "evictable immune (snd (queue_push immune x q)) \<le> q_effective q"
  proof (rule queue_push_cases [OF inv, of x])
    assume *: "q_items (snd (queue_push immune x q)) = q_items q @ [x]"
      "immune x \<or> as_u32 (length (q_items q)) < q_effective q"
    have "evictable immune q \<le> length (q_items q)" by (simp add: evictable_def)
    moreover have "as_u32 (length (q_items q)) = length (q_items q)"
      using small'(2) by (simp add: as_u32_def)
    ultimately have "immune x \<or> evictable immune q < q_effective q" using *(2) by linarith
    then show ?thesis
      using *(1) bound by (auto simp: evictable_def)
  next
    fix i
    assume *: "i < length (q_items q)" "\<not> immune (q_items q ! i)" "\<not> immune x"
      "q_items (snd (queue_push immune x q)) = remove_at i (q_items q) @ [x]"
    then show ?thesis
      using bound evictable_remove_at [of i q immune, OF *(1,2)] by (simp add: evictable_def)
  qed (use bound in \<open>simp add: evictable_def\<close>)
qed

lemma queue_pop_counts:
  assumes "queue_total q < 2 ^ 32"
  shows "queue_total (snd (queue_pop immune q)) = queue_total q"
    and "evictable immune (snd (queue_pop immune q)) \<le> evictable immune q"
    and "q_effective (snd (queue_pop immune q)) = q_effective q"
    and "q_delivered (snd (queue_pop immune q)) = q_delivered q + length (case fst (queue_pop immune q) of None \<Rightarrow> [] | Some x \<Rightarrow> [x])"
  using assms wrap_add_1 [of "q_delivered q"]
  by (auto simp: queue_pop_def queue_total_def evictable_def split: list.split)

lemma queue_run_counts:
  assumes "queue_inv immune q" and "queue_total q + length (pushed es) < 2 ^ 32" and "evictable immune q \<le> q_effective q"
  shows "queue_total (snd (buffer_run (queue_push immune) (queue_pop immune) es q)) = queue_total q + length (pushed es)
    \<and> evictable immune (snd (buffer_run (queue_push immune) (queue_pop immune) es q)) \<le> q_effective q
    \<and> q_delivered (snd (buffer_run (queue_push immune) (queue_pop immune) es q)) =
        q_delivered q + length (fst (buffer_run (queue_push immune) (queue_pop immune) es q))"
  using assms
proof (induction es arbitrary: q)
  case (Cons e es)
  have small: "queue_total q < 2 ^ 32" using Cons.prems(2) by simp
  show ?case
  proof (cases e)
    case (PushOp x)
    note c = queue_push_counts [OF Cons.prems(1) small Cons.prems(3), of x]
    show ?thesis
      using Cons.IH [OF queue_push_inv [OF Cons.prems(1)], of x] Cons.prems(2) c PushOp by simp
  next
    case PopOp
    note c = queue_pop_counts [OF small, of immune]
    have "evictable immune (snd (queue_pop immune q)) \<le> q_effective (snd (queue_pop immune q))"
      using c(2,3) Cons.prems(3) by simp
    then show ?thesis
      using Cons.IH [OF queue_pop_inv [OF Cons.prems(1)]] Cons.prems(2) c PopOp
      by (cases "queue_pop immune q"; cases "fst (queue_pop immune q)") auto
  qed
qed simp

lemma queue_new_counts:
  "queue_new c p = Inr q \<Longrightarrow> queue_total q = 0 \<and> evictable immune q = 0 \<and> q_delivered q = 0 \<and>
    q_effective q = min (c * overflow_multiplier p) u32_max"
  by (auto simp: queue_new_def queue_total_def evictable_def split: if_splits)

section \<open>Properties\<close>

text \<open>
  C11: No message that must not be lost is lost. Through any sequence of pushes and pops,
  under either policy and past any overflow, what a queue has delivered followed by what it
  still holds is the pushed sequence in order, with at most messages without immunity missing.
\<close>

theorem queue_keeps_immune:
  assumes "queue_new c p = Inr q"
  shows "kept immune (pushed es)
    (fst (buffer_run (queue_push immune) (queue_pop immune) es q) @
     q_items (snd (buffer_run (queue_push immune) (queue_pop immune) es q)))"
  using inq.run_kept [of immune q es] queue_new_inv [OF assms, of immune] by simp

theorem queue_keeps_immune_witness:
  "\<exists>q. queue_new 2 DropOldest = (Inr q :: nat scheduler_error + nat input_queue) \<and>
    kept even [1, 2, 3, 5]
      (fst (buffer_run (queue_push even) (queue_pop even) [PushOp 1, PopOp, PushOp 2, PushOp 3, PushOp 5] q) @
       q_items (snd (buffer_run (queue_push even) (queue_pop even) [PushOp 1, PopOp, PushOp 2, PushOp 3, PushOp 5] q)))"
proof -
  obtain q where q: "queue_new 2 DropOldest = (Inr q :: nat scheduler_error + nat input_queue)"
    by (simp add: queue_new_def)
  have "pushed [PushOp 1, PopOp, PushOp 2, PushOp 3, PushOp 5] = [1, 2, 3, 5 :: nat]" by simp
  then show ?thesis
    using q queue_keeps_immune [OF q, of even "[PushOp 1, PopOp, PushOp 2, PushOp 3, PushOp 5]"] by metis
qed

text \<open>
  The counters of a queue account for every message: delivered, dropped and queued ones
  add up to the pushed ones, the delivered ones are those handed out, and no more messages
  without immunity are queued than the effective capacity, for up to \<open>2^32\<close> pushes.
\<close>

lemma queue_accounts:
  assumes "queue_new c p = Inr q" and "length (pushed es) < 2 ^ 32"
  shows "let (popped, q') = buffer_run (queue_push immune) (queue_pop immune) es q in
    q_delivered q' + q_dropped q' + length (q_items q') = length (pushed es) \<and>
    q_delivered q' = length popped \<and>
    length (filter (\<lambda>x. \<not> immune x) (q_items q')) \<le> min (c * overflow_multiplier p) u32_max"
  using queue_run_counts [of immune q es] queue_new_inv [OF assms(1), of immune]
    queue_new_counts [OF assms(1), of immune] assms(2)
  by (auto simp: queue_total_def evictable_def case_prod_beta)

lemma queue_accounts_witness:
  "\<exists>q. queue_new 2 DropOldest = (Inr q :: nat scheduler_error + nat input_queue) \<and>
    (let (popped, q') = buffer_run (queue_push even) (queue_pop even) [PushOp 1, PopOp, PushOp 2] q in
      q_delivered q' + q_dropped q' + length (q_items q') = 2 \<and> q_delivered q' = length popped \<and>
      length (filter (\<lambda>x. \<not> even x) (q_items q')) \<le> min (2 * overflow_multiplier DropOldest) u32_max)"
proof -
  obtain q where q: "queue_new 2 DropOldest = (Inr q :: nat scheduler_error + nat input_queue)"
    by (simp add: queue_new_def)
  have len: "length (pushed [PushOp 1, PopOp, PushOp (2 :: nat)]) = 2" by simp
  then have "length (pushed [PushOp 1, PopOp, PushOp (2 :: nat)]) < 2 ^ 32" by simp
  from queue_accounts [OF q this, of even] show ?thesis
    using q unfolding len by blast
qed

end
