(* ===== verification/Sched_Mux.thy ===== *)
theory Sched_Mux
  imports Sched_Queue
begin

text \<open>
  The event multiplexer of \<^verbatim>\<open>crates/astrs-scheduler/src/mux.rs\<close>: registration, the two
  priority lanes, and delivery. Producers hold handles that share the queue with the
  multiplexer, also after the input has been unregistered, so queues live in a store and both
  sides hold an address. Waking a waiting receiver is left out: \<^verbatim>\<open>recv\<close> repeats
  \<^verbatim>\<open>try_recv\<close> until it delivers.
\<close>

section \<open>Lanes\<close>

datatype priority_lane = LaneData | LaneControl

record 'id lane =
  lane_ids :: "'id list"
  last_served :: "'id option"

definition lane_default :: "'id lane" where
  "lane_default = \<lparr> lane_ids = [], last_served = None \<rparr>"

type_synonym 'm queue_store = "nat \<rightharpoonup> 'm input_queue"

definition scan_start :: "'id lane \<Rightarrow> nat" where
  "scan_start l = (case last_served l of
      Some i \<Rightarrow> (case position (\<lambda>j. j = i) (lane_ids l) of
          Some p \<Rightarrow> (p + 1) mod length (lane_ids l)
        | None \<Rightarrow> 0)
    | None \<Rightarrow> 0)"

text \<open>The inputs in the order the loop of \<^verbatim>\<open>scan\<close> visits them.\<close>

definition scan_order :: "'id lane \<Rightarrow> 'id list" where
  "scan_order l =
    (let n = length (lane_ids l)
     in map (\<lambda>offset. lane_ids l ! ((scan_start l + offset) mod n)) [0..<n])"

fun scan_ids ::
    "('m \<Rightarrow> bool) \<Rightarrow> ('id \<rightharpoonup> nat) \<Rightarrow> 'id list \<Rightarrow> 'm queue_store \<Rightarrow> ('id \<times> 'm) option \<times> 'm queue_store" where
  "scan_ids immune queues [] st = (None, st)"
| "scan_ids immune queues (i # is) st = (case Option.bind (queues i) (\<lambda>a. map_option (Pair a) (st a)) of
      None \<Rightarrow> scan_ids immune queues is st
    | Some (a, q) \<Rightarrow> (case queue_pop immune q of
          (None, q') \<Rightarrow> scan_ids immune queues is (st(a \<mapsto> q'))
        | (Some x, q') \<Rightarrow> (Some (i, x), st(a \<mapsto> q'))))"

definition lane_scan ::
    "('m \<Rightarrow> bool) \<Rightarrow> ('id \<rightharpoonup> nat) \<Rightarrow> 'id lane \<Rightarrow> 'm queue_store \<Rightarrow>
      ('id \<times> 'm) option \<times> 'id lane \<times> 'm queue_store" where
  "lane_scan immune queues l st = (case scan_ids immune queues (scan_order l) st of
      (None, st') \<Rightarrow> (None, l, st')
    | (Some (i, x), st') \<Rightarrow> (Some (i, x), l \<lparr> last_served := Some i \<rparr>, st'))"

section \<open>The multiplexer\<close>

record ('id, 'm) event_mux =
  mux_control :: "'id lane"
  mux_data :: "'id lane"
  mux_queues :: "'id \<rightharpoonup> nat"
  mux_store :: "'m queue_store"
  mux_next :: nat

record 'id input_handle =
  handle_id :: 'id
  handle_queue :: nat

definition mux_new :: "('id, 'm) event_mux" where
  "mux_new = \<lparr> mux_control = lane_default, mux_data = lane_default, mux_queues = Map.empty,
     mux_store = Map.empty, mux_next = 0 \<rparr>"

definition lane_add :: "'id \<Rightarrow> 'id lane \<Rightarrow> 'id lane" where
  "lane_add i l = l \<lparr> lane_ids := lane_ids l @ [i] \<rparr>"

definition register_input ::
    "'id \<Rightarrow> nat \<Rightarrow> queue_policy \<Rightarrow> priority_lane \<Rightarrow> ('id, 'm) event_mux \<Rightarrow>
      ('id scheduler_error, 'id input_handle, ('id, 'm) event_mux) outcome" where
  "register_input i capacity policy lane m = (case queue_new capacity policy of
      Inl e \<Rightarrow> err e m
    | Inr q \<Rightarrow>
        if mux_queues m i \<noteq> None then err (DuplicateInput i) m
        else let m' = (case lane of
                  LaneControl \<Rightarrow> m \<lparr> mux_control := lane_add i (mux_control m) \<rparr>
                | LaneData \<Rightarrow> m \<lparr> mux_data := lane_add i (mux_data m) \<rparr>)
             in ok \<lparr> handle_id = i, handle_queue = mux_next m \<rparr>
               (m' \<lparr> mux_queues := (mux_queues m)(i \<mapsto> mux_next m),
                     mux_store := (mux_store m)(mux_next m \<mapsto> q), mux_next := mux_next m + 1 \<rparr>))"

definition lane_remove :: "'id \<Rightarrow> 'id lane \<Rightarrow> 'id lane" where
  "lane_remove i l = l \<lparr> lane_ids := filter (\<lambda>j. j \<noteq> i) (lane_ids l) \<rparr>"

definition unregister_input :: "'id \<Rightarrow> ('id, 'm) event_mux \<Rightarrow> bool \<times> ('id, 'm) event_mux" where
  "unregister_input i m =
    (if mux_queues m i \<noteq> None
     then (True, m \<lparr> mux_queues := (mux_queues m)(i := None),
             mux_control := lane_remove i (mux_control m), mux_data := lane_remove i (mux_data m) \<rparr>)
     else (False, m))"

definition control_inputs :: "('id, 'm) event_mux \<Rightarrow> 'id list" where
  "control_inputs m = lane_ids (mux_control m)"

definition data_inputs :: "('id, 'm) event_mux \<Rightarrow> 'id list" where
  "data_inputs m = lane_ids (mux_data m)"

definition mux_queue_snapshot :: "'id \<Rightarrow> ('id, 'm) event_mux \<Rightarrow> queue_snapshot option" where
  "mux_queue_snapshot i m =
    map_option queue_snapshot_of (Option.bind (mux_queues m i) (mux_store m))"

text \<open>\<^verbatim>\<open>InputHandle::push\<close>; every address of a handle is in the store.\<close>

definition handle_push ::
    "('m \<Rightarrow> bool) \<Rightarrow> 'id input_handle \<Rightarrow> 'm \<Rightarrow> ('id, 'm) event_mux \<Rightarrow> push_report option \<times> ('id, 'm) event_mux" where
  "handle_push immune h x m = (case mux_store m (handle_queue h) of
      None \<Rightarrow> (None, m)
    | Some q \<Rightarrow> (let (r, q') = queue_push immune x q
                 in (Some r, m \<lparr> mux_store := (mux_store m)(handle_queue h \<mapsto> q') \<rparr>)))"

definition try_recv :: "('m \<Rightarrow> bool) \<Rightarrow> ('id, 'm) event_mux \<Rightarrow> ('id \<times> 'm) option \<times> ('id, 'm) event_mux" where
  "try_recv immune m =
    (case lane_scan immune (mux_queues m) (mux_control m) (mux_store m) of
      (Some hit, control, st) \<Rightarrow> (Some hit, m \<lparr> mux_control := control, mux_store := st \<rparr>)
    | (None, control, st) \<Rightarrow>
        (case lane_scan immune (mux_queues m) (mux_data m) st of
          (r, data, st') \<Rightarrow> (r, m \<lparr> mux_control := control, mux_data := data, mux_store := st' \<rparr>)))"

section \<open>Round-robin order\<close>

lemma scan_order_rotate: "scan_order l = rotate (scan_start l) (lane_ids l)"
  by (rule nth_equalityI) (auto simp: scan_order_def Let_def nth_rotate)

lemma set_scan_order [simp]: "set (scan_order l) = set (lane_ids l)"
  by (simp add: scan_order_rotate)

lemma length_scan_order [simp]: "length (scan_order l) = length (lane_ids l)"
  by (simp add: scan_order_rotate)

lemma distinct_scan_order [simp]: "distinct (scan_order l) = distinct (lane_ids l)"
  by (simp add: scan_order_rotate)

lemma position_nth:
  "distinct xs \<Longrightarrow> i < length xs \<Longrightarrow> position (\<lambda>y. y = xs ! i) xs = Some i"
proof (induction xs arbitrary: i)
  case (Cons x xs)
  then show ?case by (cases i) auto
qed simp

lemma rotate_cong: "a mod length xs = b mod length xs \<Longrightarrow> rotate a xs = rotate b xs"
  by (metis rotate_conv_mod)

text \<open>After an input has been served, the lane goes on with the inputs behind it and comes back to it last.\<close>

lemma scan_order_after:
  assumes dist: "distinct (lane_ids l)" and order: "scan_order l = pre @ j # post"
  shows "scan_order (l \<lparr> last_served := Some j \<rparr>) = post @ pre @ [j]"
proof -
  let ?ids = "lane_ids l" and ?n = "length (lane_ids l)" and ?k = "length pre"
  let ?p = "(scan_start l + ?k) mod ?n"
  have k: "?k < ?n" using arg_cong [OF order, of length] by simp
  then have j: "j = ?ids ! ?p"
    using arg_cong [OF order, of "\<lambda>xs. xs ! ?k"] by (simp add: scan_order_rotate nth_rotate add.commute)
  have "?p < ?n" using k by (simp add: mod_less_divisor [OF le_less_trans [OF le0]])
  then have "scan_start (l \<lparr> last_served := Some j \<rparr>) = (?p + 1) mod ?n"
    using position_nth [OF dist, of ?p] j by (simp add: scan_start_def)
  then have "scan_start (l \<lparr> last_served := Some j \<rparr>) mod ?n = (Suc ?k + scan_start l) mod ?n"
    by (simp add: mod_Suc_eq add.commute)
  from rotate_cong [OF this] have "scan_order (l \<lparr> last_served := Some j \<rparr>) = rotate (Suc ?k + scan_start l) ?ids"
    by (simp add: scan_order_rotate)
  also have "\<dots> = rotate (Suc ?k) (scan_order l)"
    by (simp only: scan_order_rotate rotate_rotate)
  also have "\<dots> = post @ pre @ [j]"
    using rotate_append [of "pre @ [j]" post] unfolding order by simp
  finally show ?thesis .
qed

section \<open>What a scan delivers\<close>

definition has_message :: "('id \<rightharpoonup> nat) \<Rightarrow> 'm queue_store \<Rightarrow> 'id \<Rightarrow> bool" where
  "has_message queues st i \<longleftrightarrow> (case Option.bind (queues i) st of None \<Rightarrow> False | Some q \<Rightarrow> q_items q \<noteq> [])"

lemma has_messageE:
  assumes "has_message queues st i"
  obtains a q where "queues i = Some a" "st a = Some q" "q_items q \<noteq> []"
  using assms by (auto simp: has_message_def split: option.splits bind_splits)

lemma scan_ids_find:
  "scan_ids immune queues is st = (case find (has_message queues st) is of
      None \<Rightarrow> (None, st)
    | Some i \<Rightarrow> (let a = the (queues i); q = the (st a)
        in (Some (i, hd (q_items q)), st(a \<mapsto> snd (queue_pop immune q)))))"
proof (induction "is")
  case (Cons i "is")
  show ?case
  proof (cases "has_message queues st i")
    case True
    then show ?thesis
      by (elim has_messageE) (auto simp: has_message_def queue_pop_def split: list.split)
  next
    case False
    then have "scan_ids immune queues (i # is) st = scan_ids immune queues is st"
      by (auto simp: has_message_def queue_pop_def fun_upd_idem split: option.splits bind_splits)
    with False Cons show ?thesis by simp
  qed
qed simp

lemma find_split: "find P xs = Some x \<Longrightarrow> \<exists>pre post. xs = pre @ x # post \<and> P x \<and> (\<forall>y \<in> set pre. \<not> P y)"
proof -
  assume "find P xs = Some x"
  then obtain i where i: "i < length xs" "P (xs ! i)" "x = xs ! i" "\<forall>j < i. \<not> P (xs ! j)"
    by (auto simp: find_Some_iff)
  then have "xs = take i xs @ x # drop (Suc i) xs" by (simp add: id_take_nth_drop)
  moreover have "\<forall>y \<in> set (take i xs). \<not> P y"
    using i by (auto simp: in_set_conv_nth)
  ultimately show ?thesis using i by blast
qed

text \<open>A scan delivers nothing exactly when no input of the lane has a message; otherwise the first in order that has one.\<close>

lemma lane_scan_cases:
  obtains (silent) "lane_scan immune queues l st = (None, l, st)"
      "\<And>i. i \<in> set (lane_ids l) \<Longrightarrow> \<not> has_message queues st i"
  | (hit) pre j post a q where "scan_order l = pre @ j # post" "\<And>i. i \<in> set pre \<Longrightarrow> \<not> has_message queues st i"
      "queues j = Some a" "st a = Some q" "q_items q \<noteq> []"
      "lane_scan immune queues l st =
        (Some (j, hd (q_items q)), l \<lparr> last_served := Some j \<rparr>, st(a \<mapsto> snd (queue_pop immune q)))"
proof (cases "find (has_message queues st) (scan_order l)")
  case None
  then have "lane_scan immune queues l st = (None, l, st)"
    by (simp add: lane_scan_def scan_ids_find)
  moreover have "\<And>i. i \<in> set (lane_ids l) \<Longrightarrow> \<not> has_message queues st i"
    using None by (simp add: find_None_iff)
  ultimately show thesis by (rule silent)
next
  case (Some j)
  then obtain pre post where *: "scan_order l = pre @ j # post" "has_message queues st j"
      "\<forall>y \<in> set pre. \<not> has_message queues st y"
    using find_split [OF Some] by blast
  from *(2) obtain a q where aq: "queues j = Some a" "st a = Some q" "q_items q \<noteq> []"
    by (rule has_messageE)
  then have "lane_scan immune queues l st =
      (Some (j, hd (q_items q)), l \<lparr> last_served := Some j \<rparr>, st(a \<mapsto> snd (queue_pop immune q)))"
    using Some by (simp add: lane_scan_def scan_ids_find)
  then show thesis
    using hit [OF *(1) _ aq] *(3) by blast
qed

section \<open>Well-formed multiplexers\<close>

definition mux_wf :: "('id, 'm) event_mux \<Rightarrow> bool" where
  "mux_wf m \<longleftrightarrow> distinct (lane_ids (mux_control m) @ lane_ids (mux_data m)) \<and>
     dom (mux_queues m) = set (lane_ids (mux_control m)) \<union> set (lane_ids (mux_data m)) \<and>
     inj_on (mux_queues m) (dom (mux_queues m)) \<and> ran (mux_queues m) \<subseteq> dom (mux_store m) \<and>
     (\<forall>a \<in> dom (mux_store m). a < mux_next m)"

lemma mux_wf_new: "mux_wf mux_new"
  by (simp add: mux_wf_def mux_new_def lane_default_def)

lemma mux_wf_handle_push: "mux_wf m \<Longrightarrow> mux_wf (snd (handle_push immune h x m))"
  by (auto simp: mux_wf_def handle_push_def split: option.split prod.split)

lemma mux_wf_unregister:
  assumes "mux_wf m"
  shows "mux_wf (snd (unregister_input i m))"
proof -
  have "inj_on ((mux_queues m)(i := None)) (dom (mux_queues m) - {i})"
    using assms by (auto simp: mux_wf_def inj_on_def)
  moreover have "ran ((mux_queues m)(i := None)) \<subseteq> ran (mux_queues m)"
    by (auto simp: ran_def)
  ultimately show ?thesis
    using assms by (auto simp: mux_wf_def unregister_input_def lane_remove_def)
qed

lemma mux_wf_register:
  assumes "mux_wf m"
  shows "mux_wf (snd (register_input i c p l m))"
proof (cases "queue_new c p :: 'a scheduler_error + 'b input_queue")
  case (Inr q)
  show ?thesis
  proof (cases "mux_queues m i")
    case None
    then have new: "i \<notin> set (lane_ids (mux_control m)) \<union> set (lane_ids (mux_data m))"
      using assms by (auto simp: mux_wf_def)
    have fresh: "mux_next m \<notin> ran (mux_queues m)"
      using assms by (auto simp: mux_wf_def)
    then have "inj_on ((mux_queues m)(i \<mapsto> mux_next m)) (insert i (dom (mux_queues m)))"
      using assms None by (auto simp: mux_wf_def inj_on_def ran_def)
    moreover have "ran ((mux_queues m)(i \<mapsto> mux_next m)) = insert (mux_next m) (ran (mux_queues m))"
      using None by simp
    ultimately show ?thesis
      using assms Inr None new
      by (auto simp: mux_wf_def register_input_def lane_add_def Let_def less_Suc_eq split: priority_lane.split)
  qed (use assms Inr in \<open>auto simp: register_input_def\<close>)
qed (use assms in \<open>auto simp: register_input_def\<close>)

section \<open>Rounds\<close>

text \<open>Producers push between two deliveries; a round is some pushes and one \<^verbatim>\<open>try_recv\<close>.\<close>

definition push_all :: "('m \<Rightarrow> bool) \<Rightarrow> ('id input_handle \<times> 'm) list \<Rightarrow> ('id, 'm) event_mux \<Rightarrow> ('id, 'm) event_mux" where
  "push_all immune ps m = fold (\<lambda>(h, x) m. snd (handle_push immune h x m)) ps m"

primrec mux_rounds ::
    "('m \<Rightarrow> bool) \<Rightarrow> ('id input_handle \<times> 'm) list list \<Rightarrow> ('id, 'm) event_mux \<Rightarrow> ('id \<times> 'm) list \<times> ('id, 'm) event_mux" where
  "mux_rounds immune [] m = ([], m)"
| "mux_rounds immune (ps # rounds) m =
    (let (r, m') = try_recv immune (push_all immune ps m); (rs, m'') = mux_rounds immune rounds m'
     in ((case r of None \<Rightarrow> rs | Some hit \<Rightarrow> hit # rs), m''))"

fun lane_of :: "priority_lane \<Rightarrow> ('id, 'm) event_mux \<Rightarrow> 'id lane" where
  "lane_of LaneControl m = mux_control m"
| "lane_of LaneData m = mux_data m"

definition ready :: "('id, 'm) event_mux \<Rightarrow> 'id \<Rightarrow> bool" where
  "ready m i \<longleftrightarrow> has_message (mux_queues m) (mux_store m) i"

lemma queue_push_nonempty: "q_items q \<noteq> [] \<Longrightarrow> q_items (snd (queue_push immune x q)) \<noteq> []"
  by (auto simp: queue_push_def push_evicting_def Let_def split: queue_policy.split)

lemma handle_push_frame [simp]:
  "mux_control (snd (handle_push immune h x m)) = mux_control m"
  "mux_data (snd (handle_push immune h x m)) = mux_data m"
  "mux_queues (snd (handle_push immune h x m)) = mux_queues m"
  by (auto simp: handle_push_def split: option.split prod.split)

lemma ready_handle_push: "ready m i \<Longrightarrow> ready (snd (handle_push immune h x m)) i"
  unfolding ready_def
  by (elim has_messageE)
    (auto simp: has_message_def handle_push_def case_prod_beta queue_push_nonempty split: option.split)

lemma push_all_frame:
  "mux_control (push_all immune ps m) = mux_control m \<and> mux_data (push_all immune ps m) = mux_data m \<and>
   mux_queues (push_all immune ps m) = mux_queues m \<and>
   (mux_wf m \<longrightarrow> mux_wf (push_all immune ps m)) \<and> (ready m i \<longrightarrow> ready (push_all immune ps m) i)"
  by (induction ps arbitrary: m)
    (auto simp: push_all_def intro: mux_wf_handle_push ready_handle_push)

lemma lane_of_push_all: "lane_of c (push_all immune ps m) = lane_of c m"
  using push_all_frame [of immune ps m] by (cases c) auto

text \<open>How many inputs of the lane come before \<open>i\<close> in the rotation.\<close>

definition turn :: "'id lane \<Rightarrow> 'id \<Rightarrow> nat" where
  "turn l i = length (takeWhile (\<lambda>j. j \<noteq> i) (scan_order l))"

lemma length_takeWhile_lt: "x \<in> set xs \<Longrightarrow> \<not> P x \<Longrightarrow> length (takeWhile P xs) < length xs"
  by (induction xs) auto

lemma turn_less: "i \<in> set (lane_ids l) \<Longrightarrow> turn l i < length (lane_ids l)"
  using length_takeWhile_lt [of i "scan_order l"] by (simp add: turn_def)

lemma turn_decreases:
  assumes "distinct (lane_ids l)" and "scan_order l = pre @ j # post" and "i \<in> set (lane_ids l)"
    and "i \<noteq> j" and "i \<notin> set pre"
  shows "turn (l \<lparr> last_served := Some j \<rparr>) i < turn l i"
proof -
  have "i \<in> set post" using assms(2-5) set_scan_order [of l] by auto
  moreover have "\<forall>x \<in> set pre. x \<noteq> i" using assms(5) by auto
  ultimately show ?thesis
    using scan_order_after [OF assms(1,2)] assms(2,4) by (simp add: turn_def takeWhile_append1)
qed

lemma has_message_other:
  assumes "inj_on queues (dom queues)" and "queues j = Some a" and "i \<noteq> j" and "has_message queues st i"
  shows "has_message queues (st(a \<mapsto> q)) i"
proof -
  obtain b r where b: "queues i = Some b" "st b = Some r" "q_items r \<noteq> []"
    using assms(4) by (rule has_messageE)
  then have "b \<noteq> a" using assms(1-3) by (metis domI inj_onD)
  with b show ?thesis by (simp add: has_message_def)
qed

text \<open>
  One delivery, seen from an input \<open>i\<close> of lane \<open>c\<close> that has a message: it is served, or the
  other lane is, or another input of its lane is and its own turn comes closer.
\<close>

definition delivery_step ::
    "priority_lane \<Rightarrow> 'id \<Rightarrow> ('id, 'm) event_mux \<Rightarrow> ('id \<times> 'm) option \<Rightarrow> ('id, 'm) event_mux \<Rightarrow> bool" where
  "delivery_step c i m r m' \<longleftrightarrow> map_option fst r = Some i \<or>
     ready m' i \<and> (turn (lane_of c m') i < turn (lane_of c m) i \<or>
       lane_of c m' = lane_of c m \<and> (\<forall>j x. r = Some (j, x) \<longrightarrow> j \<notin> set (lane_ids (lane_of c m))))"

lemma mux_wf_cong:
  "mux_wf m \<Longrightarrow> lane_ids (mux_control m') = lane_ids (mux_control m) \<Longrightarrow> lane_ids (mux_data m') = lane_ids (mux_data m) \<Longrightarrow>
    mux_queues m' = mux_queues m \<Longrightarrow> dom (mux_store m') = dom (mux_store m) \<Longrightarrow> mux_next m' = mux_next m \<Longrightarrow> mux_wf m'"
  by (auto simp: mux_wf_def)

lemma try_recv_wf:
  assumes "mux_wf m" and "try_recv immune m = (r, m')"
  shows "mux_wf m' \<and> lane_ids (lane_of c m') = lane_ids (lane_of c m)"
proof (cases rule: lane_scan_cases [of immune "mux_queues m" "mux_control m" "mux_store m"])
  case (hit pre j post a q)
  then have "m' = m \<lparr> mux_control := mux_control m \<lparr> last_served := Some j \<rparr>,
      mux_store := (mux_store m)(a \<mapsto> snd (queue_pop immune q)) \<rparr>"
    using assms(2) by (simp add: try_recv_def)
  then show ?thesis
    using mux_wf_cong [OF assms(1), of m'] hit(4) by (cases c) (simp_all add: insert_absorb domI)
next
  case silent
  note control = this
  show ?thesis
  proof (cases rule: lane_scan_cases [of immune "mux_queues m" "mux_data m" "mux_store m"])
    case silent
    then show ?thesis using assms control by (simp add: try_recv_def)
  next
    case (hit pre j post a q)
    then have "m' = m \<lparr> mux_data := mux_data m \<lparr> last_served := Some j \<rparr>,
        mux_store := (mux_store m)(a \<mapsto> snd (queue_pop immune q)) \<rparr>"
      using assms(2) control by (simp add: try_recv_def)
    then show ?thesis
      using mux_wf_cong [OF assms(1), of m'] hit(4) by (cases c) (simp_all add: insert_absorb domI)
  qed
qed

lemma lane_hit_step:
  assumes wf: "mux_wf m" and i: "i \<in> set (lane_ids l)" "has_message (mux_queues m) (mux_store m) i"
    and order: "scan_order l = pre @ j # post" and pre: "\<And>k. k \<in> set pre \<Longrightarrow> \<not> has_message (mux_queues m) (mux_store m) k"
    and a: "mux_queues m j = Some a" and l: "distinct (lane_ids l)" and ne: "i \<noteq> j"
  shows "has_message (mux_queues m) ((mux_store m)(a \<mapsto> q)) i \<and> turn (l \<lparr> last_served := Some j \<rparr>) i < turn l i"
proof -
  have "inj_on (mux_queues m) (dom (mux_queues m))" using wf unfolding mux_wf_def by blast
  then show ?thesis
    using has_message_other a ne i(2) turn_decreases [OF l order i(1) ne] pre i(2) by metis
qed

lemma try_recv_step:
  assumes wf: "mux_wf m" and i: "i \<in> set (lane_ids (lane_of c m))" and rdy: "ready m i"
    and recv: "try_recv immune m = (r, m')"
  shows "delivery_step c i m r m'"
proof (cases rule: lane_scan_cases [of immune "mux_queues m" "mux_control m" "mux_store m"])
  case (hit pre j post a q)
  then have r: "r = Some (j, hd (q_items q))"
    and m': "m' = m \<lparr> mux_control := mux_control m \<lparr> last_served := Some j \<rparr>, mux_store := (mux_store m)(a \<mapsto> snd (queue_pop immune q)) \<rparr>"
    using recv by (simp_all add: try_recv_def)
  have inj: "inj_on (mux_queues m) (dom (mux_queues m))" using wf unfolding mux_wf_def by blast
  show ?thesis
  proof (cases "i = j")
    case False
    have rdy': "ready m' i"
      using has_message_other [OF inj hit(3) False] rdy by (simp add: ready_def m')
    have jc: "j \<in> set (lane_ids (mux_control m))"
      using hit(1) set_scan_order [of "mux_control m"] by auto
    show ?thesis
    proof (cases c)
      case LaneControl
      then show ?thesis
        using lane_hit_step [OF wf _ _ hit(1,2,3) _ False] i rdy wf rdy'
        by (auto simp: delivery_step_def m' ready_def mux_wf_def)
    next
      case LaneData
      then have "j \<notin> set (lane_ids (lane_of c m))" using jc wf by (auto simp: mux_wf_def)
      then show ?thesis using LaneData rdy' r by (simp add: delivery_step_def m')
    qed
  qed (simp add: delivery_step_def r)
next
  case silent
  then have c: "c = LaneData" using i rdy by (cases c) (auto simp: ready_def)
  show ?thesis
  proof (cases rule: lane_scan_cases [of immune "mux_queues m" "mux_data m" "mux_store m"])
    case silent
    then show ?thesis using c i rdy by (auto simp: ready_def)
  next
    case (hit pre j post a q)
    then have r: "r = Some (j, hd (q_items q))"
      and m': "m' = m \<lparr> mux_data := mux_data m \<lparr> last_served := Some j \<rparr>, mux_store := (mux_store m)(a \<mapsto> snd (queue_pop immune q)) \<rparr>"
      using recv silent by (simp_all add: try_recv_def)
    show ?thesis
      using lane_hit_step [OF wf _ _ hit(1,2,3)] i rdy wf c
      by (cases "i = j") (auto simp: delivery_step_def r m' ready_def mux_wf_def)
  qed
qed

lemma rounds_count:
  assumes "mux_wf m" and "i \<in> set (lane_ids (lane_of c m))" and "ready m i"
    and "i \<notin> fst ` set (fst (mux_rounds immune rounds m))"
  shows "length (filter (\<lambda>(j, x). j \<in> set (lane_ids (lane_of c m))) (fst (mux_rounds immune rounds m))) \<le> turn (lane_of c m) i"
  using assms
proof (induction rounds arbitrary: m)
  case (Cons ps rounds)
  let ?m = "push_all immune ps m"
  obtain r m' where recv: "try_recv immune ?m = (r, m')" by fastforce
  have wf: "mux_wf ?m" and rdy: "ready ?m i" and lane: "lane_of c ?m = lane_of c m"
    using Cons.prems push_all_frame [of immune ps m i] lane_of_push_all by auto
  then have step: "delivery_step c i ?m r m'"
    using try_recv_step [OF wf _ rdy recv] Cons.prems(2) by simp
  have wf': "mux_wf m'" and ids: "lane_ids (lane_of c m') = lane_ids (lane_of c m)"
    using try_recv_wf [OF wf recv, of c] lane by auto
  have i': "i \<notin> fst ` set (fst (mux_rounds immune rounds m'))" "map_option fst r \<noteq> Some i"
    using Cons.prems(4) recv by (auto simp: case_prod_beta split: option.splits)
  then have rdy': "ready m' i" using step by (auto simp: delivery_step_def)
  have IH: "length (filter (\<lambda>(j, x). j \<in> set (lane_ids (lane_of c m))) (fst (mux_rounds immune rounds m'))) \<le> turn (lane_of c m') i"
    using Cons.IH [OF wf' _ rdy' i'(1)] ids Cons.prems(2) by simp
  have served: "fst (mux_rounds immune (ps # rounds) m) = (case r of None \<Rightarrow> [] | Some h \<Rightarrow> [h]) @ fst (mux_rounds immune rounds m')"
    using recv by (simp add: case_prod_beta split: option.split)
  from step i'(2) consider "turn (lane_of c m') i < turn (lane_of c m) i"
    | "lane_of c m' = lane_of c m" "\<And>j x. r = Some (j, x) \<Longrightarrow> j \<notin> set (lane_ids (lane_of c m))"
    by (auto simp: delivery_step_def lane)
  then show ?case
  proof cases
    case 1
    then show ?thesis using IH unfolding served by (cases r) auto
  next
    case 2
    then show ?thesis using IH unfolding served by (cases r) auto
  qed
qed simp

lemma control_first:
  assumes "i \<in> set (lane_ids (mux_control m))" and "ready m i" and "try_recv immune m = (r, m')"
  shows "\<exists>j x. r = Some (j, x) \<and> j \<in> set (lane_ids (mux_control m))"
proof (cases rule: lane_scan_cases [of immune "mux_queues m" "mux_control m" "mux_store m"])
  case silent
  then show ?thesis using assms by (auto simp: ready_def)
next
  case (hit pre j post a q)
  then have "j \<in> set (lane_ids (mux_control m))"
    using set_scan_order [of "mux_control m"] by auto
  then show ?thesis using assms(3) hit by (auto simp: try_recv_def)
qed

section \<open>An example\<close>

text \<open>Two control inputs, the first with two messages and the second with one.\<close>

definition demo_mux :: "(nat, nat) event_mux" where
  "demo_mux =
    (let m = snd (register_input 20 4 DropOldest LaneControl (snd (register_input 10 4 DropOldest LaneControl mux_new)))
     in push_all even
       [(\<lparr> handle_id = 10, handle_queue = 0 \<rparr>, 1), (\<lparr> handle_id = 10, handle_queue = 0 \<rparr>, 3),
        (\<lparr> handle_id = 20, handle_queue = 1 \<rparr>, 5)] m)"

lemmas mux_evals = demo_mux_def mux_new_def lane_default_def register_input_def queue_new_def lane_add_def
  push_all_def handle_push_def queue_push_def queue_pop_def sync_gauges_def as_u32_def wrap_add_def u32_max_eq
  try_recv_def lane_scan_def scan_order_def scan_start_def ok_def

lemma demo_mux_wf: "mux_wf demo_mux"
  unfolding demo_mux_def Let_def
  by (intro push_all_frame [THEN conjunct2, THEN conjunct2, THEN conjunct2, THEN conjunct1, THEN mp] mux_wf_register mux_wf_new)

lemma demo_mux_control: "lane_ids (mux_control demo_mux) = [10, 20]"
  by (simp add: mux_evals)

lemma demo_mux_ready: "ready demo_mux 20"
  by (simp add: mux_evals ready_def has_message_def)

lemma demo_mux_rounds: "fst (mux_rounds even [[], []] demo_mux) = [(10, 1), (20, 5)]"
  by (simp add: mux_evals)

section \<open>Properties\<close>

text \<open>
  C12: No input is starved. Whatever the producers push meanwhile, an input that has a message
  is served before its lane has made as many deliveries as it has inputs.
\<close>

theorem mux_fair:
  assumes "mux_wf m" and "i \<in> set (lane_ids (lane_of c m))" and "ready m i"
    and "length (lane_ids (lane_of c m)) \<le>
      length (filter (\<lambda>(j, x). j \<in> set (lane_ids (lane_of c m))) (fst (mux_rounds immune rounds m)))"
  shows "i \<in> fst ` set (fst (mux_rounds immune rounds m))"
  using rounds_count [OF assms(1-3), of immune rounds] turn_less [OF assms(2)] assms(4) by linarith

theorem mux_fair_witness:
  "20 \<in> fst ` set (fst (mux_rounds even [[], []] demo_mux))"
  using mux_fair [of demo_mux 20 LaneControl even "[[], []]"]
  by (simp add: demo_mux_wf demo_mux_control demo_mux_ready demo_mux_rounds del: mux_rounds.simps)

text \<open>
  The control lane pre-empts the data lane: while any control input has a message, the
  next delivery is from the control lane, however large the backlog of data.
\<close>

lemma control_preempts:
  assumes "i \<in> set (control_inputs m)" and "ready m i"
  shows "\<exists>j x. fst (try_recv immune m) = Some (j, x) \<and> j \<in> set (control_inputs m)"
  using control_first [of i m immune "fst (try_recv immune m)" "snd (try_recv immune m)"] assms
  by (simp add: control_inputs_def)

lemma control_preempts_witness:
  "\<exists>j x. fst (try_recv even demo_mux) = Some (j, x) \<and> j \<in> {10, 20}"
  using control_preempts [of 20 demo_mux even] demo_mux_ready demo_mux_control
  by (simp add: control_inputs_def)

end
