(* ===== verification/Sched_Monitor.thy ===== *)
theory Sched_Monitor
  imports Time_Interval
begin

text \<open>
  Latency budgets and silence detection of \<^verbatim>\<open>crates/astrs-scheduler/src\<close>:
  \<^verbatim>\<open>deadline.rs\<close> and \<^verbatim>\<open>idle.rs\<close>. Both keep a hash map from keys to entries, here a
  partial function; the order in which a sweep visits the keys is unspecified, so its report
  is a partial function from keys as well. Instants are arguments, and the variants that read
  the real clock are the same operations at that reading.
\<close>

section \<open>Deadline monitor\<close>

record deadline_entry =
  de_budget :: duration
  de_samples :: nat
  de_violations :: nat
  de_last_latency :: duration
  de_max_latency :: duration

definition deadline_entry_new :: "duration \<Rightarrow> deadline_entry" where
  "deadline_entry_new budget = \<lparr> de_budget = budget, de_samples = 0, de_violations = 0,
     de_last_latency = 0, de_max_latency = 0 \<rparr>"

definition observe :: "duration \<Rightarrow> bool \<Rightarrow> deadline_entry \<Rightarrow> deadline_entry" where
  "observe latency violated e =
    e \<lparr> de_samples := de_samples e + 1,
        de_violations := (if violated then de_violations e + 1 else de_violations e),
        de_last_latency := latency, de_max_latency := max (de_max_latency e) latency \<rparr>"

record 'k deadline_token =
  tok_key :: 'k
  tok_started_at :: instant
  tok_budget :: duration

datatype 'k deadline_outcome =
    Met 'k duration duration
  | Violated 'k duration duration duration

fun outcome_key :: "'k deadline_outcome \<Rightarrow> 'k" where
  "outcome_key (Met k _ _) = k"
| "outcome_key (Violated k _ _ _) = k"

fun outcome_latency :: "'k deadline_outcome \<Rightarrow> duration" where
  "outcome_latency (Met _ l _) = l"
| "outcome_latency (Violated _ l _ _) = l"

fun outcome_budget :: "'k deadline_outcome \<Rightarrow> duration" where
  "outcome_budget (Met _ _ b) = b"
| "outcome_budget (Violated _ _ b _) = b"

fun is_violated :: "'k deadline_outcome \<Rightarrow> bool" where
  "is_violated (Violated _ _ _ _) = True"
| "is_violated (Met _ _ _) = False"

type_synonym 'k deadline_monitor = "'k \<rightharpoonup> deadline_entry"

definition monitor_new :: "'k deadline_monitor" where
  "monitor_new = Map.empty"

definition monitor_register :: "'k \<Rightarrow> duration \<Rightarrow> 'k deadline_monitor \<Rightarrow> 'k deadline_monitor" where
  "monitor_register k budget m = (case m k of
      Some e \<Rightarrow> m(k \<mapsto> e \<lparr> de_budget := budget \<rparr>)
    | None \<Rightarrow> m(k \<mapsto> deadline_entry_new budget))"

definition monitor_register_from_spec ::
    "'k \<Rightarrow> duration option \<Rightarrow> 'k deadline_monitor \<Rightarrow> bool \<times> 'k deadline_monitor" where
  "monitor_register_from_spec k deadline m = (case deadline of
      Some budget \<Rightarrow> (True, monitor_register k budget m)
    | None \<Rightarrow> (False, m))"

definition monitor_unregister :: "'k \<Rightarrow> 'k deadline_monitor \<Rightarrow> bool \<times> 'k deadline_monitor" where
  "monitor_unregister k m = (m k \<noteq> None, m(k := None))"

definition monitor_start :: "'k \<Rightarrow> instant \<Rightarrow> 'k deadline_monitor \<Rightarrow> 'k deadline_token option" where
  "monitor_start k now m =
    map_option (\<lambda>e. \<lparr> tok_key = k, tok_started_at = now, tok_budget = de_budget e \<rparr>) (m k)"

definition monitor_finish ::
    "'k deadline_token \<Rightarrow> instant \<Rightarrow> 'k deadline_monitor \<Rightarrow> 'k deadline_outcome \<times> 'k deadline_monitor" where
  "monitor_finish t now m =
    (let latency = (case checked_duration_since now (tok_started_at t) of Some d \<Rightarrow> d | None \<Rightarrow> 0);
         violated = tok_budget t < latency;
         m' = (case m (tok_key t) of
             Some e \<Rightarrow> m(tok_key t \<mapsto> observe latency violated e)
           | None \<Rightarrow> m)
     in (if violated then Violated (tok_key t) latency (tok_budget t) (latency - tok_budget t)
         else Met (tok_key t) latency (tok_budget t), m'))"

definition monitor_snapshot :: "'k \<Rightarrow> 'k deadline_monitor \<Rightarrow> deadline_entry option" where
  "monitor_snapshot k m = m k"

section \<open>Idle watchdog\<close>

record idle_entry =
  ie_timeout :: duration
  ie_last_seen :: instant
  ie_escalated :: bool

record idle_snapshot =
  is_timeout :: duration
  is_idle_for :: duration
  is_escalated :: bool

record idle_violation =
  iv_idle_for :: duration
  iv_timeout :: duration

definition is_overdue :: "idle_snapshot \<Rightarrow> bool" where
  "is_overdue s \<longleftrightarrow> is_timeout s \<le> is_idle_for s"

type_synonym 'k idle_watchdog = "'k \<rightharpoonup> idle_entry"

definition idle_new :: "'k idle_watchdog" where
  "idle_new = Map.empty"

definition idle_register :: "'k \<Rightarrow> duration \<Rightarrow> instant \<Rightarrow> 'k idle_watchdog \<Rightarrow> 'k idle_watchdog" where
  "idle_register k timeout now w = (case w k of
      Some e \<Rightarrow> w(k \<mapsto> e \<lparr> ie_timeout := timeout \<rparr>)
    | None \<Rightarrow> w(k \<mapsto> \<lparr> ie_timeout = timeout, ie_last_seen = now, ie_escalated = False \<rparr>))"

definition idle_register_from_spec ::
    "'k \<Rightarrow> duration option \<Rightarrow> instant \<Rightarrow> 'k idle_watchdog \<Rightarrow> bool \<times> 'k idle_watchdog" where
  "idle_register_from_spec k timeout now w = (case timeout of
      Some t \<Rightarrow> (True, idle_register k t now w)
    | None \<Rightarrow> (False, w))"

definition idle_unregister :: "'k \<Rightarrow> 'k idle_watchdog \<Rightarrow> bool \<times> 'k idle_watchdog" where
  "idle_unregister k w = (w k \<noteq> None, w(k := None))"

definition idle_touch :: "'k \<Rightarrow> instant \<Rightarrow> 'k idle_watchdog \<Rightarrow> bool \<times> 'k idle_watchdog" where
  "idle_touch k now w = (case w k of
      None \<Rightarrow> (False, w)
    | Some e \<Rightarrow> (ie_escalated e, w(k \<mapsto> e \<lparr> ie_last_seen := now, ie_escalated := False \<rparr>)))"

text \<open>\<^verbatim>\<open>Instant::saturating_duration_since\<close>.\<close>

definition saturating_duration_since :: "instant \<Rightarrow> instant \<Rightarrow> duration" where
  "saturating_duration_since t earlier = t - earlier"

definition idle_snapshot_of :: "'k \<Rightarrow> instant \<Rightarrow> 'k idle_watchdog \<Rightarrow> idle_snapshot option" where
  "idle_snapshot_of k now w =
    map_option (\<lambda>e. \<lparr> is_timeout = ie_timeout e,
      is_idle_for = saturating_duration_since now (ie_last_seen e), is_escalated = ie_escalated e \<rparr>) (w k)"

text \<open>The body of the sweep for one entry.\<close>

definition idle_poll_entry :: "instant \<Rightarrow> idle_entry \<Rightarrow> idle_violation option \<times> idle_entry" where
  "idle_poll_entry now e =
    (if ie_escalated e then (None, e)
     else let idle_for = saturating_duration_since now (ie_last_seen e)
          in if ie_timeout e \<le> idle_for
             then (Some \<lparr> iv_idle_for = idle_for, iv_timeout = ie_timeout e \<rparr>, e \<lparr> ie_escalated := True \<rparr>)
             else (None, e))"

definition idle_poll_all :: "instant \<Rightarrow> 'k idle_watchdog \<Rightarrow> ('k \<rightharpoonup> idle_violation) \<times> 'k idle_watchdog" where
  "idle_poll_all now w =
    ((\<lambda>k. Option.bind (w k) (\<lambda>e. fst (idle_poll_entry now e))),
     (\<lambda>k. map_option (\<lambda>e. snd (idle_poll_entry now e)) (w k)))"

section \<open>Runs\<close>

datatype 'k idle_op = OpRegister 'k duration instant | OpTouch 'k instant | OpPoll instant

datatype idle_edge = Closed | Recovered

text \<open>What one operation tells the owner of \<open>k\<close>.\<close>

definition idle_step :: "'k \<Rightarrow> 'k idle_op \<Rightarrow> 'k idle_watchdog \<Rightarrow> idle_edge list \<times> 'k idle_watchdog" where
  "idle_step k e w = (case e of
      OpRegister j timeout now \<Rightarrow> ([], idle_register j timeout now w)
    | OpTouch j now \<Rightarrow> (if fst (idle_touch j now w) \<and> j = k then [Recovered] else [], snd (idle_touch j now w))
    | OpPoll now \<Rightarrow> (if fst (idle_poll_all now w) k \<noteq> None then [Closed] else [], snd (idle_poll_all now w)))"

primrec idle_run :: "'k \<Rightarrow> 'k idle_op list \<Rightarrow> 'k idle_watchdog \<Rightarrow> idle_edge list \<times> 'k idle_watchdog" where
  "idle_run k [] w = ([], w)"
| "idle_run k (e # es) w =
    (let (xs, w') = idle_step k e w; (ys, w'') = idle_run k es w' in (xs @ ys, w''))"

definition escalated :: "'k \<Rightarrow> 'k idle_watchdog \<Rightarrow> bool" where
  "escalated k w \<longleftrightarrow> (case w k of None \<Rightarrow> False | Some e \<Rightarrow> ie_escalated e)"

text \<open>Closings and recoveries in turn, starting with a closing unless one is already out.\<close>

fun alternating :: "bool \<Rightarrow> idle_edge list \<Rightarrow> bool" where
  "alternating out [] = True"
| "alternating out (x # xs) = (x = (if out then Recovered else Closed) \<and> alternating (\<not> out) xs)"

lemma idle_step_edges:
  "(fst (idle_step k e w) = [] \<and> escalated k (snd (idle_step k e w)) = escalated k w) \<or>
   (fst (idle_step k e w) = [if escalated k w then Recovered else Closed] \<and>
    escalated k (snd (idle_step k e w)) = (\<not> escalated k w))"
  by (cases e)
    (auto simp: idle_step_def escalated_def idle_register_def idle_touch_def idle_poll_all_def
      idle_poll_entry_def Let_def split: option.split)

lemma idle_run_alternating: "alternating (escalated k w) (fst (idle_run k es w))"
proof (induction es arbitrary: w)
  case (Cons e es)
  from idle_step_edges [of k e w] Cons [of "snd (idle_step k e w)"] show ?case
    by (auto simp: case_prod_beta)
qed simp

lemma alternating_nth: "alternating out xs \<Longrightarrow> i < length xs \<Longrightarrow> xs ! i = (if even i = out then Recovered else Closed)"
proof (induction out xs arbitrary: i rule: alternating.induct)
  case (2 out x xs)
  then show ?case by (cases i) auto
qed simp

section \<open>Properties\<close>

text \<open>
  Silence is reported by edges. Through any sequence of registrations, arrivals and sweeps,
  the owner of a key sees a closing, then a recovery, then a closing, and so on: never the same
  silence twice, and no recovery without a closing.
\<close>

lemma idle_edges_alternate:
  "fst (idle_run k es idle_new) =
    map (\<lambda>i. if even i then Closed else Recovered) [0..<length (fst (idle_run k es idle_new))]"
proof (rule nth_equalityI)
  have alt: "alternating False (fst (idle_run k es idle_new))"
    using idle_run_alternating [of k idle_new es] by (simp add: escalated_def idle_new_def)
  fix i
  assume "i < length (fst (idle_run k es idle_new))"
  then show "fst (idle_run k es idle_new) ! i =
      map (\<lambda>i. if even i then Closed else Recovered) [0..<length (fst (idle_run k es idle_new))] ! i"
    using alternating_nth [OF alt] by simp
qed simp

text \<open>
  A latency measurement is decided by its token alone: whatever happens to the registry
  between start and finish, it is a violation exactly when more than the budget at the start
  has passed, by the amount reported.
\<close>

lemma deadline_token_decides:
  assumes "monitor_start k t0 m = Some tok" and "t0 \<le> now"
  shows "fst (monitor_finish tok now m') =
    (let b = de_budget (the (m k)) in
     if now - t0 > b then Violated k (now - t0) b (now - t0 - b) else Met k (now - t0) b)"
  using assms by (auto simp: monitor_start_def monitor_finish_def checked_duration_since_def Let_def)

lemma deadline_token_decides_witness:
  "fst (monitor_finish \<lparr> tok_key = (3 :: nat), tok_started_at = 100, tok_budget = 50 \<rparr> 180 Map.empty) =
    Violated 3 80 50 30"
proof -
  have "monitor_start 3 100 (monitor_register 3 50 monitor_new) =
      Some \<lparr> tok_key = (3 :: nat), tok_started_at = 100, tok_budget = 50 \<rparr>"
    by (simp add: monitor_start_def monitor_register_def monitor_new_def deadline_entry_new_def)
  from deadline_token_decides [OF this, of 180 Map.empty] show ?thesis
    by (simp add: monitor_register_def monitor_new_def deadline_entry_new_def)
qed

end
