(* ===== verification/Sched_Wheel.thy ===== *)
theory Sched_Wheel
  imports Time_Interval "HOL-Library.Multiset"
begin

text \<open>
  The hierarchical timing wheel of \<^verbatim>\<open>crates/astrs-scheduler/src/timer/wheel.rs\<close>: five
  levels of 64 slots, cascading, catch-up and the two policies for missed ticks.

  The slot vectors are a function of level and slot. Timer ids come from a counter, so the
  table of entries is a partial function on numbers and the catch-up path, which visits the
  table in an unspecified order, visits it by ascending id; the events it produces are sorted
  before they are returned. Of the jitter statistics (\<^verbatim>\<open>timer/p2.rs\<close>) the exact maximum and
  the count are kept; the floating-point quantile estimates are left out, and nothing in the
  wheel reads them.
\<close>

section \<open>Slots\<close>

definition slots_per_level :: nat where
  "slots_per_level = 64"

definition levels_count :: nat where
  "levels_count = 5"

definition level_width :: "nat \<Rightarrow> nat" where
  "level_width l = [1, 64, 4096, 262144, 16777216] ! l"

definition max_catchup_ticks_ms :: nat where
  "max_catchup_ticks_ms = 65536"

definition default_burst_cap :: nat where
  "default_burst_cap = 1000"

text \<open>The \<^verbatim>\<open>while\<close> loop of \<^verbatim>\<open>level_and_slot\<close>.\<close>

function level_from :: "nat \<Rightarrow> nat \<Rightarrow> nat" where
  "level_from delay level =
    (if level + 1 < levels_count \<and> level_width (level + 1) \<le> delay
     then level_from delay (level + 1) else level)"
  by pat_completeness auto

termination
  by (relation "measure (\<lambda>(delay, level). levels_count - level)") auto

declare level_from.simps [simp del]

definition level_and_slot :: "nat \<Rightarrow> nat \<Rightarrow> nat \<times> nat" where
  "level_and_slot due_ms current_ms =
    (let delay = max (due_ms - current_ms) 1;
         level = level_from delay 0
     in (level, (due_ms div level_width level) mod slots_per_level))"

definition ceil_ms_since_epoch :: "instant \<Rightarrow> instant \<Rightarrow> nat" where
  "ceil_ms_since_epoch epoch at = as_nanos_u64 ((at - epoch + 999999) div 1000000)"

definition floor_ms_since_epoch :: "instant \<Rightarrow> instant \<Rightarrow> nat" where
  "floor_ms_since_epoch epoch at = as_nanos_u64 ((at - epoch) div 1000000)"

section \<open>Timers\<close>

type_synonym timer_id = nat

datatype missed_tick_policy = Burst | Skip

record timer_spec =
  ts_interval :: timer_interval
  ts_policy :: missed_tick_policy
  ts_tag :: nat

definition timer_spec_new :: "timer_interval \<Rightarrow> missed_tick_policy \<Rightarrow> timer_spec" where
  "timer_spec_new i p = \<lparr> ts_interval = i, ts_policy = p, ts_tag = 0 \<rparr>"

definition with_tag :: "nat \<Rightarrow> timer_spec \<Rightarrow> timer_spec" where
  "with_tag t s = s \<lparr> ts_tag := t \<rparr>"

record timer_fired =
  tf_id :: timer_id
  tf_scheduled_at :: instant
  tf_fired_at :: instant
  tf_skipped :: nat
  tf_tag :: nat

record jitter_stats =
  js_samples :: nat
  js_max :: duration

definition jitter_new :: jitter_stats where
  "jitter_new = \<lparr> js_samples = 0, js_max = 0 \<rparr>"

definition jitter_observe :: "duration \<Rightarrow> jitter_stats \<Rightarrow> jitter_stats" where
  "jitter_observe d j = \<lparr> js_samples = js_samples j + 1, js_max = max (js_max j) d \<rparr>"

record timer_entry =
  te_interval :: timer_interval
  te_policy :: missed_tick_policy
  te_next_due :: instant
  te_jitter :: jitter_stats
  te_tag :: nat

record timer_wheel =
  w_epoch :: instant
  w_current_ms :: nat
  w_levels :: "nat \<Rightarrow> nat \<Rightarrow> timer_id list"
  w_entries :: "timer_id \<rightharpoonup> timer_entry"
  w_next_id :: nat
  w_burst_cap :: nat

definition wheel_with_burst_cap :: "instant \<Rightarrow> nat \<Rightarrow> timer_wheel" where
  "wheel_with_burst_cap epoch cap = \<lparr> w_epoch = epoch, w_current_ms = 0, w_levels = (\<lambda>_ _. []),
     w_entries = Map.empty, w_next_id = 0, w_burst_cap = cap \<rparr>"

definition wheel_new :: "instant \<Rightarrow> timer_wheel" where
  "wheel_new epoch = wheel_with_burst_cap epoch default_burst_cap"

section \<open>Scheduling\<close>

definition set_slot :: "nat \<Rightarrow> nat \<Rightarrow> timer_id list \<Rightarrow> timer_wheel \<Rightarrow> timer_wheel" where
  "set_slot l s ids w = w \<lparr> w_levels := (w_levels w)(l := (w_levels w l)(s := ids)) \<rparr>"

definition push_slot :: "nat \<times> nat \<Rightarrow> timer_id \<Rightarrow> timer_wheel \<Rightarrow> timer_wheel" where
  "push_slot p i w = set_slot (fst p) (snd p) (w_levels w (fst p) (snd p) @ [i]) w"

definition schedule_at :: "timer_id \<Rightarrow> instant \<Rightarrow> timer_wheel \<Rightarrow> timer_wheel" where
  "schedule_at i due w =
    (let due_ms = max (ceil_ms_since_epoch (w_epoch w) due) (w_current_ms w + 1)
     in push_slot (level_and_slot due_ms (w_current_ms w)) i w)"

definition wheel_insert :: "instant \<Rightarrow> timer_spec \<Rightarrow> instant \<Rightarrow> timer_wheel \<Rightarrow> timer_id \<times> timer_wheel" where
  "wheel_insert latest spec now w =
    (let first_due = next_tick latest (ts_interval spec) now;
         i = w_next_id w;
         e = \<lparr> te_interval = ts_interval spec, te_policy = ts_policy spec, te_next_due = first_due,
               te_jitter = jitter_new, te_tag = ts_tag spec \<rparr>
     in (i, schedule_at i first_due
              (w \<lparr> w_next_id := w_next_id w + 1, w_entries := (w_entries w)(i \<mapsto> e) \<rparr>)))"

definition wheel_cancel :: "timer_id \<Rightarrow> timer_wheel \<Rightarrow> bool \<times> timer_wheel" where
  "wheel_cancel i w = (w_entries w i \<noteq> None, w \<lparr> w_entries := (w_entries w)(i := None) \<rparr>)"

definition wheel_contains :: "timer_id \<Rightarrow> timer_wheel \<Rightarrow> bool" where
  "wheel_contains i w \<longleftrightarrow> w_entries w i \<noteq> None"

definition registered_ids :: "timer_wheel \<Rightarrow> timer_id list" where
  "registered_ids w = filter (\<lambda>i. w_entries w i \<noteq> None) [0..<w_next_id w]"

definition next_deadline :: "timer_wheel \<Rightarrow> instant option" where
  "next_deadline w = (case map (\<lambda>i. te_next_due (the (w_entries w i))) (registered_ids w) of
      [] \<Rightarrow> None
    | d # ds \<Rightarrow> Some (fold min ds d))"

section \<open>Firing\<close>

definition fired_event :: "timer_id \<Rightarrow> instant \<Rightarrow> nat \<Rightarrow> timer_entry \<Rightarrow> timer_fired" where
  "fired_event i now skipped e = \<lparr> tf_id = i, tf_scheduled_at = te_next_due e, tf_fired_at = now,
     tf_skipped = skipped, tf_tag = te_tag e \<rparr>"

definition observe_jitter :: "instant \<Rightarrow> timer_entry \<Rightarrow> timer_entry" where
  "observe_jitter now e = e \<lparr> te_jitter := jitter_observe (now - te_next_due e) (te_jitter e) \<rparr>"

text \<open>The loop of the \<open>Burst\<close> policy; the first argument is what the cap still allows.\<close>

primrec burst_loop :: "nat \<Rightarrow> instant \<Rightarrow> timer_id \<Rightarrow> instant \<Rightarrow> timer_entry \<Rightarrow> timer_fired list \<times> timer_entry" where
  "burst_loop 0 latest i now e = ([], e)"
| "burst_loop (Suc n) latest i now e =
    (if te_next_due e \<le> now
     then let e' = (observe_jitter now e) \<lparr> te_next_due := next_tick latest (te_interval e) (te_next_due e) \<rparr>;
              (fs, e'') = burst_loop n latest i now e'
          in (fired_event i now 0 e # fs, e'')
     else ([], e))"

definition coalesce :: "instant \<Rightarrow> timer_id \<Rightarrow> instant \<Rightarrow> timer_entry \<Rightarrow> timer_fired \<times> timer_entry" where
  "coalesce latest i now e =
    (fired_event i now (ticks_between (te_interval e) (te_next_due e) now) e,
     (observe_jitter now e) \<lparr> te_next_due := next_tick latest (te_interval e) now \<rparr>)"

definition fire_entry :: "nat \<Rightarrow> instant \<Rightarrow> timer_id \<Rightarrow> instant \<Rightarrow> timer_entry \<Rightarrow> timer_fired list \<times> timer_entry" where
  "fire_entry cap latest i now e = (case te_policy e of
      Burst \<Rightarrow>
        (let (fs, e') = burst_loop cap latest i now e
         in if te_next_due e' \<le> now
            then let (f, e'') = coalesce latest i now e' in (fs @ [f], e'')
            else (fs, e'))
    | Skip \<Rightarrow> (let (f, e') = coalesce latest i now e in ([f], e')))"

definition resolve_due :: "instant \<Rightarrow> timer_id \<Rightarrow> instant \<Rightarrow> timer_wheel \<Rightarrow> timer_fired list \<times> timer_wheel" where
  "resolve_due latest i now w = (case w_entries w i of
      None \<Rightarrow> ([], w)
    | Some e \<Rightarrow>
        if now < te_next_due e then ([], schedule_at i (te_next_due e) w)
        else let (fs, e') = fire_entry (w_burst_cap w) latest i now e
             in (fs, schedule_at i (te_next_due e') (w \<lparr> w_entries := (w_entries w)(i \<mapsto> e') \<rparr>)))"

primrec resolve_all :: "instant \<Rightarrow> timer_id list \<Rightarrow> instant \<Rightarrow> timer_wheel \<Rightarrow> timer_fired list \<times> timer_wheel" where
  "resolve_all latest [] now w = ([], w)"
| "resolve_all latest (i # is) now w =
    (let (fs, w') = resolve_due latest i now w; (gs, w'') = resolve_all latest is now w' in (fs @ gs, w''))"

section \<open>Advancing\<close>

text \<open>The slot of a level that completed its cycle is distributed over the lower levels.\<close>

definition replace_id :: "timer_id \<Rightarrow> timer_wheel \<Rightarrow> timer_wheel" where
  "replace_id i w = (case w_entries w i of
      None \<Rightarrow> w
    | Some e \<Rightarrow>
        push_slot (level_and_slot (ceil_ms_since_epoch (w_epoch w) (te_next_due e)) (w_current_ms w)) i w)"

definition cascade_level :: "nat \<Rightarrow> timer_wheel \<Rightarrow> timer_wheel" where
  "cascade_level l w =
    (let slot = (w_current_ms w div level_width l) mod slots_per_level;
         ids = w_levels w l slot
     in fold replace_id ids (set_slot l slot [] w))"

primrec cascade :: "nat list \<Rightarrow> timer_wheel \<Rightarrow> timer_wheel" where
  "cascade [] w = w"
| "cascade (l # ls) w =
    (if w_current_ms w mod level_width l \<noteq> 0 then w else cascade ls (cascade_level l w))"

definition tick_one_ms :: "instant \<Rightarrow> instant \<Rightarrow> timer_wheel \<Rightarrow> timer_fired list \<times> timer_wheel" where
  "tick_one_ms latest target_now w =
    (let w1 = cascade [1..<levels_count] (w \<lparr> w_current_ms := w_current_ms w + 1 \<rparr>);
         slot0 = w_current_ms w1 mod slots_per_level;
         due_now = w_levels w1 0 slot0
     in resolve_all latest due_now target_now (set_slot 0 slot0 [] w1))"

primrec tick_many :: "nat \<Rightarrow> instant \<Rightarrow> instant \<Rightarrow> timer_wheel \<Rightarrow> timer_fired list \<times> timer_wheel" where
  "tick_many 0 latest now w = ([], w)"
| "tick_many (Suc n) latest now w =
    (let (fs, w') = tick_one_ms latest now w; (gs, w'') = tick_many n latest now w' in (fs @ gs, w''))"

definition resync :: "instant \<Rightarrow> instant \<Rightarrow> nat \<Rightarrow> timer_wheel \<Rightarrow> timer_fired list \<times> timer_wheel" where
  "resync latest now now_ms w =
    (let w' = w \<lparr> w_current_ms := now_ms, w_levels := (\<lambda>_ _. []) \<rparr>
     in resolve_all latest (registered_ids w') now w')"

definition wheel_advance :: "instant \<Rightarrow> instant \<Rightarrow> timer_wheel \<Rightarrow> timer_fired list \<times> timer_wheel" where
  "wheel_advance latest now w =
    (let now_ms = floor_ms_since_epoch (w_epoch w) now
     in if now_ms \<le> w_current_ms w then ([], w)
        else let (fired, w') =
               (if max_catchup_ticks_ms < now_ms - w_current_ms w then resync latest now now_ms w
                else tick_many (now_ms - w_current_ms w) latest now w)
             in (sort_key tf_scheduled_at (sort_key tf_id fired), w'))"

section \<open>Where a timer sits\<close>

lemma level_width_pow: "l < levels_count \<Longrightarrow> level_width l = 64 ^ l"
proof -
  assume "l < levels_count"
  then consider "l = 0" | "l = 1" | "l = 2" | "l = 3" | "l = 4"
    unfolding levels_count_def by linarith
  then show ?thesis by cases (simp_all add: level_width_def)
qed

lemma level_width_0 [simp]: "level_width 0 = 1"
  by (simp add: level_width_def)

lemma level_width_dvd: "k \<le> l \<Longrightarrow> l < levels_count \<Longrightarrow> level_width k dvd level_width l"
  by (simp add: level_width_pow le_imp_power_dvd)

lemma level_width_pos: "l < levels_count \<Longrightarrow> 0 < level_width l"
  by (simp add: level_width_pow)

lemma level_from_range:
  "l < levels_count \<Longrightarrow> level_from d l < levels_count \<and> (level_from d l = l \<or> level_width (level_from d l) \<le> d)"
proof (induction d l rule: level_from.induct)
  case (1 d l)
  show ?case
  proof (cases "l + 1 < levels_count \<and> level_width (l + 1) \<le> d")
    case True
    then have "level_from d l = level_from d (l + 1)" by (simp add: level_from.simps [of d l])
    then show ?thesis using 1 True by auto
  next
    case False
    then have "level_from d l = l" by (subst level_from.simps) auto
    then show ?thesis using "1.prems" by simp
  qed
qed

lemma level_from_1: "level_from (Suc 0) 0 = 0"
  by (simp add: level_from.simps levels_count_def level_width_def)

text \<open>
  A timer due at \<open>due\<close> is well placed in slot \<open>s\<close> of level \<open>l\<close> at time \<open>c\<close> when that slot is
  the one its due time belongs to and the slot's turn is still to come.
\<close>

definition placed :: "nat \<Rightarrow> nat \<Rightarrow> nat \<Rightarrow> nat \<Rightarrow> bool" where
  "placed c due l s \<longleftrightarrow> l < levels_count \<and> s = (due div level_width l) mod slots_per_level \<and>
     c div level_width l < due div level_width l"

text \<open>A timer that was overdue when it was scheduled goes off with the next millisecond.\<close>

definition stale :: "nat \<Rightarrow> nat \<Rightarrow> nat \<Rightarrow> nat \<Rightarrow> bool" where
  "stale c due l s \<longleftrightarrow> due \<le> c \<and> l = 0 \<and> s = Suc c mod slots_per_level"

lemma placed_less: "placed c due l s \<Longrightarrow> c < due"
  by (metis div_le_mono not_le placed_def)

lemma div_less_div: "0 < w \<Longrightarrow> c + w \<le> d \<Longrightarrow> c div w < d div w" for c d w :: nat
  using div_le_mono [of "c + w" d w] div_add_self2 [of w c] by linarith

lemma level_and_slot_placed:
  assumes "c < due"
  shows "placed c due (fst (level_and_slot due c)) (snd (level_and_slot due c))"
proof -
  let ?d = "max (due - c) 1"
  let ?l = "level_from ?d 0"
  have l: "?l < levels_count" "?l = 0 \<or> level_width ?l \<le> ?d"
    using level_from_range [of 0 ?d] by (simp_all add: levels_count_def)
  have "c div level_width ?l < due div level_width ?l"
  proof (cases "?l = 0")
    case False
    then have "c + level_width ?l \<le> due" using l(2) assms by auto
    then show ?thesis by (rule div_less_div [OF level_width_pos [OF l(1)]])
  qed (use assms in simp)
  then show ?thesis
    using l(1) by (simp add: placed_def level_and_slot_def Let_def)
qed

lemma level_and_slot_due: "due \<le> c + 1 \<Longrightarrow> level_and_slot due c = (0, due mod slots_per_level)"
  by (cases "due = c + 1") (simp_all add: level_and_slot_def Let_def level_from_1 max_def)

text \<open>
  While the wheel works on millisecond \<open>c\<close>: placed for later, waiting in the slot about to be
  resolved, or waiting in a slot of level \<open>k\<close> or above that is about to be cascaded.
\<close>

definition pending :: "nat \<Rightarrow> nat \<Rightarrow> nat \<Rightarrow> nat \<Rightarrow> nat \<Rightarrow> bool" where
  "pending k c due l s \<longleftrightarrow> placed c due l s \<or> due \<le> c \<and> l = 0 \<and> s = c mod slots_per_level \<or>
     k \<le> l \<and> l < levels_count \<and> c mod level_width l = 0 \<and> s = (c div level_width l) mod slots_per_level \<and> c \<le> due"

lemma placed_tick: "placed c due l s \<Longrightarrow> pending 1 (Suc c) due l s"
proof -
  assume p: "placed c due l s"
  let ?w = "level_width l"
  have l: "l < levels_count" "s = (due div ?w) mod slots_per_level" "c div ?w < due div ?w"
    using p by (simp_all add: placed_def)
  show ?thesis
  proof (cases "Suc c div ?w < due div ?w")
    case True
    then show ?thesis using l by (simp add: pending_def placed_def)
  next
    case False
    then have eq: "Suc c div ?w = due div ?w" "Suc c mod ?w = 0"
      using l(3) by (auto simp: div_Suc split: if_splits)
    then have "Suc c = due div ?w * ?w" by (metis add_0_right mult.commute mult_div_mod_eq)
    then have "Suc c \<le> due" by simp
    then show ?thesis
      using l eq by (cases "l = 0") (auto simp: pending_def)
  qed
qed

lemma stale_tick: "stale c due l s \<Longrightarrow> pending 1 (Suc c) due l s"
  by (auto simp: stale_def pending_def)

lemma pending_mono:
  assumes "pending k c due l s" and "c mod level_width k \<noteq> 0" and "k < levels_count"
  shows "pending levels_count c due l s"
proof -
  have "c mod level_width l \<noteq> 0" if "k \<le> l" "l < levels_count"
    using level_width_dvd [OF that] assms(2) by (metis dvd_trans mod_0_imp_dvd dvd_imp_mod_0)
  then show ?thesis using assms(1) by (auto simp: pending_def)
qed

lemma pending_Suc:
  "pending k c due l s \<Longrightarrow> l \<noteq> k \<or> s \<noteq> (c div level_width k) mod slots_per_level \<Longrightarrow> pending (Suc k) c due l s"
  by (cases "l = k") (auto simp: pending_def)

section \<open>The invariant of the wheel\<close>

definition due_of :: "timer_wheel \<Rightarrow> timer_entry \<Rightarrow> nat" where
  "due_of w e = ceil_ms_since_epoch (w_epoch w) (te_next_due e)"

text \<open>Every registered timer sits in some slot where it will be found in time.\<close>

definition wheel_inv :: "timer_wheel \<Rightarrow> bool" where
  "wheel_inv w \<longleftrightarrow> (\<forall>i e. w_entries w i = Some e \<longrightarrow>
     (\<exists>l s. i \<in> set (w_levels w l s) \<and>
       (placed (w_current_ms w) (due_of w e) l s \<or> stale (w_current_ms w) (due_of w e) l s)))"

definition cascade_inv :: "nat \<Rightarrow> timer_wheel \<Rightarrow> bool" where
  "cascade_inv k w \<longleftrightarrow> (\<forall>i e. w_entries w i = Some e \<longrightarrow>
     (\<exists>l s. i \<in> set (w_levels w l s) \<and> pending k (w_current_ms w) (due_of w e) l s))"

lemma set_slot_simps [simp]:
  "w_entries (set_slot l s is w) = w_entries w" "w_current_ms (set_slot l s is w) = w_current_ms w"
  "w_epoch (set_slot l s is w) = w_epoch w" "w_next_id (set_slot l s is w) = w_next_id w"
  "w_burst_cap (set_slot l s is w) = w_burst_cap w" "due_of (set_slot l s is w) e = due_of w e"
  "w_levels (set_slot l s is w) k r = (if k = l \<and> r = s then is else w_levels w k r)"
  by (auto simp: set_slot_def due_of_def)

lemma push_slot_simps [simp]:
  "w_entries (push_slot p i w) = w_entries w" "w_current_ms (push_slot p i w) = w_current_ms w"
  "w_epoch (push_slot p i w) = w_epoch w" "w_next_id (push_slot p i w) = w_next_id w"
  "w_burst_cap (push_slot p i w) = w_burst_cap w" "due_of (push_slot p i w) e = due_of w e"
  "w_levels (push_slot p i w) k r = (if k = fst p \<and> r = snd p then w_levels w k r @ [i] else w_levels w k r)"
  by (auto simp: push_slot_def)

lemma schedule_at_simps [simp]:
  "w_entries (schedule_at i d w) = w_entries w" "w_current_ms (schedule_at i d w) = w_current_ms w"
  "w_epoch (schedule_at i d w) = w_epoch w" "w_next_id (schedule_at i d w) = w_next_id w"
  "w_burst_cap (schedule_at i d w) = w_burst_cap w" "due_of (schedule_at i d w) e = due_of w e"
  by (simp_all add: schedule_at_def Let_def)

lemma schedule_at_grows: "set (w_levels w l s) \<subseteq> set (w_levels (schedule_at i d w) l s)"
  by (auto simp: schedule_at_def Let_def)

lemma schedule_at_sits:
  "\<exists>l s. i \<in> set (w_levels (schedule_at i d w) l s) \<and>
    (placed (w_current_ms w) (ceil_ms_since_epoch (w_epoch w) d) l s \<or>
     stale (w_current_ms w) (ceil_ms_since_epoch (w_epoch w) d) l s)"
proof (cases "w_current_ms w < ceil_ms_since_epoch (w_epoch w) d")
  case True
  then have "max (ceil_ms_since_epoch (w_epoch w) d) (w_current_ms w + 1) = ceil_ms_since_epoch (w_epoch w) d"
    by simp
  then show ?thesis
    using level_and_slot_placed [OF True] by (fastforce simp: schedule_at_def)
next
  case False
  then have "max (ceil_ms_since_epoch (w_epoch w) d) (w_current_ms w + 1) = w_current_ms w + 1" by simp
  then show ?thesis
    using False level_and_slot_due [of "w_current_ms w + 1" "w_current_ms w"]
    by (intro exI [of _ 0] exI [of _ "Suc (w_current_ms w) mod slots_per_level"])
      (simp add: schedule_at_def stale_def)
qed

lemma replace_id_simps [simp]:
  "w_entries (replace_id i w) = w_entries w" "w_current_ms (replace_id i w) = w_current_ms w"
  "w_epoch (replace_id i w) = w_epoch w" "w_next_id (replace_id i w) = w_next_id w"
  "w_burst_cap (replace_id i w) = w_burst_cap w" "due_of (replace_id i w) e = due_of w e"
  by (simp_all add: replace_id_def split: option.split)

lemma replace_id_grows: "set (w_levels w l s) \<subseteq> set (w_levels (replace_id i w) l s)"
  by (auto simp: replace_id_def split: option.split)

lemma fold_replace_simps [simp]:
  "w_entries (fold replace_id is w) = w_entries w" "w_current_ms (fold replace_id is w) = w_current_ms w"
  "w_epoch (fold replace_id is w) = w_epoch w" "w_next_id (fold replace_id is w) = w_next_id w"
  "w_burst_cap (fold replace_id is w) = w_burst_cap w" "due_of (fold replace_id is w) e = due_of w e"
  by (induction "is" arbitrary: w) auto

lemma fold_replace_grows: "set (w_levels w l s) \<subseteq> set (w_levels (fold replace_id is w) l s)"
proof (induction "is" arbitrary: w)
  case (Cons i "is")
  then show ?case using replace_id_grows [of w l s i] by fastforce
qed simp

lemma fold_replace_sits:
  assumes "i \<in> set is" and "w_entries w i = Some e"
  shows "i \<in> set (w_levels (fold replace_id is w)
    (fst (level_and_slot (due_of w e) (w_current_ms w))) (snd (level_and_slot (due_of w e) (w_current_ms w))))"
  using assms
proof (induction "is" arbitrary: w)
  case (Cons j "is")
  show ?case
  proof (cases "i \<in> set is")
    case True
    then show ?thesis using Cons.IH [of "replace_id j w"] Cons.prems by simp
  next
    case False
    then have "i \<in> set (w_levels (replace_id i w) (fst (level_and_slot (due_of w e) (w_current_ms w)))
        (snd (level_and_slot (due_of w e) (w_current_ms w))))"
      using Cons.prems by (simp add: replace_id_def due_of_def)
    then show ?thesis
      using False Cons.prems fold_replace_grows [of "replace_id i w" _ _ "is"] by auto
  qed
qed simp

lemma cascade_level_simps [simp]:
  "w_entries (cascade_level l w) = w_entries w" "w_current_ms (cascade_level l w) = w_current_ms w"
  "w_epoch (cascade_level l w) = w_epoch w" "w_next_id (cascade_level l w) = w_next_id w"
  "w_burst_cap (cascade_level l w) = w_burst_cap w" "due_of (cascade_level l w) e = due_of w e"
  by (simp_all add: cascade_level_def Let_def)

lemma cascade_simps [simp]:
  "w_entries (cascade ls w) = w_entries w" "w_current_ms (cascade ls w) = w_current_ms w"
  "w_epoch (cascade ls w) = w_epoch w" "w_next_id (cascade ls w) = w_next_id w"
  "w_burst_cap (cascade ls w) = w_burst_cap w" "due_of (cascade ls w) e = due_of w e"
  by (induction ls arbitrary: w) auto

lemma cascade_level_inv:
  assumes inv: "cascade_inv k w" and k: "0 < k" "k < levels_count"
  shows "cascade_inv (Suc k) (cascade_level k w)"
  unfolding cascade_inv_def
proof (intro allI impI)
  fix i e
  let ?c = "w_current_ms w" and ?s = "(w_current_ms w div level_width k) mod slots_per_level"
  let ?w0 = "set_slot k ?s [] w"
  have w': "cascade_level k w = fold replace_id (w_levels w k ?s) ?w0"
    by (simp add: cascade_level_def Let_def)
  assume "w_entries (cascade_level k w) i = Some e"
  then have e: "w_entries w i = Some e" by simp
  then obtain l s where ls: "i \<in> set (w_levels w l s)" "pending k ?c (due_of w e) l s"
    using inv unfolding cascade_inv_def by blast
  show "\<exists>l s. i \<in> set (w_levels (cascade_level k w) l s) \<and>
      pending (Suc k) (w_current_ms (cascade_level k w)) (due_of (cascade_level k w) e) l s"
  proof (cases "l = k \<and> s = ?s")
    case False
    then have "i \<in> set (w_levels ?w0 l s)" using ls(1) by auto
    then have "i \<in> set (w_levels (cascade_level k w) l s)"
      unfolding w' using fold_replace_grows by blast
    then show ?thesis using pending_Suc [OF ls(2)] False by auto
  next
    case True
    then have due: "?c \<le> due_of w e"
      using ls(2) k(1) placed_less by (fastforce simp: pending_def)
    let ?p = "level_and_slot (due_of w e) ?c"
    have sits: "i \<in> set (w_levels (cascade_level k w) (fst ?p) (snd ?p))"
      unfolding w' using fold_replace_sits [of i "w_levels w k ?s" ?w0 e] ls(1) True e by simp
    have "pending (Suc k) ?c (due_of w e) (fst ?p) (snd ?p)"
    proof (cases "due_of w e = ?c")
      case True
      then show ?thesis
        using level_and_slot_due [of "due_of w e" ?c] by (simp add: pending_def)
    next
      case False
      then show ?thesis
        using level_and_slot_placed [of ?c "due_of w e"] due by (simp add: pending_def)
    qed
    with sits show ?thesis by auto
  qed
qed

lemma cascade_finishes: "cascade_inv k w \<Longrightarrow> 0 < k \<Longrightarrow> k \<le> levels_count \<Longrightarrow> cascade_inv levels_count (cascade [k..<levels_count] w)"
proof (induction "levels_count - k" arbitrary: k w)
  case 0
  then show ?case by simp
next
  case (Suc n)
  then have k: "k < levels_count" by simp
  have split: "[k..<levels_count] = k # [Suc k..<levels_count]"
    by (rule upt_conv_Cons [OF k])
  show ?case
  proof (cases "w_current_ms w mod level_width k = 0")
    case True
    have "cascade_inv (Suc k) (cascade_level k w)"
      using cascade_level_inv [OF Suc.prems(1,2) k] .
    then show ?thesis
      using Suc.hyps(1) [of "Suc k" "cascade_level k w"] Suc.hyps(2) k True by (simp add: split)
  next
    case False
    then show ?thesis
      using Suc.prems(1) pending_mono [OF _ False k] unfolding split by (fastforce simp: cascade_inv_def)
  qed
qed

lemma wheel_inv_tick: "wheel_inv w \<Longrightarrow> cascade_inv 1 (w \<lparr> w_current_ms := w_current_ms w + 1 \<rparr>)"
  using placed_tick stale_tick unfolding wheel_inv_def cascade_inv_def by (fastforce simp: due_of_def)

section \<open>Resolving a slot\<close>

text \<open>A registered timer sits well, or is among those still to be resolved.\<close>

definition resolve_inv :: "timer_id list \<Rightarrow> timer_wheel \<Rightarrow> bool" where
  "resolve_inv is w \<longleftrightarrow> (\<forall>i e. w_entries w i = Some e \<longrightarrow> i \<in> set is \<or>
     (\<exists>l s. i \<in> set (w_levels w l s) \<and>
       (placed (w_current_ms w) (due_of w e) l s \<or> stale (w_current_ms w) (due_of w e) l s)))"

lemma resolve_due_frame [simp]:
  "w_current_ms (snd (resolve_due latest i now w)) = w_current_ms w"
  "w_epoch (snd (resolve_due latest i now w)) = w_epoch w"
  "w_burst_cap (snd (resolve_due latest i now w)) = w_burst_cap w"
  "w_next_id (snd (resolve_due latest i now w)) = w_next_id w"
  "due_of (snd (resolve_due latest i now w)) e = due_of w e"
  by (simp_all add: resolve_due_def case_prod_beta due_of_def split: option.split)

lemma resolve_due_other: "j \<noteq> i \<Longrightarrow> w_entries (snd (resolve_due latest i now w)) j = w_entries w j"
  by (simp add: resolve_due_def case_prod_beta split: option.split)

lemma resolve_due_grows: "set (w_levels w l s) \<subseteq> set (w_levels (snd (resolve_due latest i now w)) l s)"
proof -
  have "set (w_levels w l s) \<subseteq> set (w_levels (schedule_at i d (w \<lparr> w_entries := m \<rparr>)) l s)" for d m
    using schedule_at_grows [of "w \<lparr> w_entries := m \<rparr>" l s i d] by simp
  then show ?thesis
    using schedule_at_grows [of w l s i]
    by (auto simp: resolve_due_def case_prod_beta split: option.split)
qed

lemma resolve_due_sits:
  assumes "w_entries (snd (resolve_due latest i now w)) i = Some e"
  shows "\<exists>l s. i \<in> set (w_levels (snd (resolve_due latest i now w)) l s) \<and>
    (placed (w_current_ms w) (due_of w e) l s \<or> stale (w_current_ms w) (due_of w e) l s)"
proof (cases "w_entries w i")
  case (Some e0)
  show ?thesis
  proof (cases "now < te_next_due e0")
    case True
    then show ?thesis
      using Some assms schedule_at_sits [of i "te_next_due e0" w] by (simp add: resolve_due_def due_of_def)
  next
    case False
    let ?e = "snd (fire_entry (w_burst_cap w) latest i now e0)"
    show ?thesis
      using False Some assms schedule_at_sits [of i "te_next_due ?e" "w \<lparr> w_entries := (w_entries w)(i \<mapsto> ?e) \<rparr>"]
      by (simp add: resolve_due_def due_of_def case_prod_beta)
  qed
qed (use assms in \<open>simp add: resolve_due_def\<close>)

lemma resolve_all_inv: "resolve_inv is w \<Longrightarrow> wheel_inv (snd (resolve_all latest is now w))"
proof (induction "is" arbitrary: w)
  case Nil
  then show ?case by (simp add: resolve_inv_def wheel_inv_def)
next
  case (Cons i "is")
  let ?w' = "snd (resolve_due latest i now w)"
  have "resolve_inv is ?w'"
    unfolding resolve_inv_def
  proof (intro allI impI)
    fix j e
    assume j: "w_entries ?w' j = Some e"
    show "j \<in> set is \<or> (\<exists>l s. j \<in> set (w_levels ?w' l s) \<and>
        (placed (w_current_ms ?w') (due_of ?w' e) l s \<or> stale (w_current_ms ?w') (due_of ?w' e) l s))"
    proof (cases "j = i")
      case True
      then show ?thesis using resolve_due_sits j by simp
    next
      case False
      then show ?thesis
        using Cons.prems j resolve_due_other [OF False, of latest now w] resolve_due_grows
        by (fastforce simp: resolve_inv_def)
    qed
  qed
  then show ?case using Cons.IH by (simp add: case_prod_beta)
qed

section \<open>The wheel stays well formed\<close>

text \<open>
  The ids of the registered timers were handed out by the counter, and every registered
  timer sits where it will be found.
\<close>

definition wheel_wf :: "timer_wheel \<Rightarrow> bool" where
  "wheel_wf w \<longleftrightarrow> dom (w_entries w) \<subseteq> {..<w_next_id w} \<and> wheel_inv w"

lemma resolve_due_dom [simp]: "dom (w_entries (snd (resolve_due latest i now w))) = dom (w_entries w)"
  by (auto simp: resolve_due_def case_prod_beta split: option.split)

lemma resolve_all_frame [simp]:
  "w_current_ms (snd (resolve_all latest is now w)) = w_current_ms w"
  "w_epoch (snd (resolve_all latest is now w)) = w_epoch w"
  "w_next_id (snd (resolve_all latest is now w)) = w_next_id w"
  "dom (w_entries (snd (resolve_all latest is now w))) = dom (w_entries w)"
  "due_of (snd (resolve_all latest is now w)) e = due_of w e"
  by (induction "is" arbitrary: w) (simp_all add: case_prod_beta)

text \<open>What \<^verbatim>\<open>tick_one_ms\<close> resolves, and the wheel it resolves it in.\<close>

definition ticked :: "timer_wheel \<Rightarrow> timer_wheel" where
  "ticked w = cascade [1..<levels_count] (w \<lparr> w_current_ms := w_current_ms w + 1 \<rparr>)"

definition due_now :: "timer_wheel \<Rightarrow> timer_id list" where
  "due_now w = w_levels (ticked w) 0 (Suc (w_current_ms w) mod slots_per_level)"

definition swept :: "timer_wheel \<Rightarrow> timer_wheel" where
  "swept w = set_slot 0 (Suc (w_current_ms w) mod slots_per_level) [] (ticked w)"

lemma tick_one_ms_eq: "tick_one_ms latest now w = resolve_all latest (due_now w) now (swept w)"
  by (simp add: tick_one_ms_def Let_def due_now_def swept_def ticked_def)

lemma due_of_current [simp]: "due_of (w \<lparr> w_current_ms := c \<rparr>) e = due_of w e"
  by (simp add: due_of_def)

lemma swept_simps [simp]:
  "w_entries (swept w) = w_entries w" "w_current_ms (swept w) = Suc (w_current_ms w)"
  "w_epoch (swept w) = w_epoch w" "w_next_id (swept w) = w_next_id w" "due_of (swept w) e = due_of w e"
  by (simp_all add: swept_def ticked_def)

lemma tick_cases:
  assumes "wheel_inv w" and "w_entries w i = Some e"
  obtains "i \<in> set (due_now w)"
  | l s where "i \<in> set (w_levels (swept w) l s)" "placed (Suc (w_current_ms w)) (due_of w e) l s"
proof -
  have "cascade_inv levels_count (ticked w)"
    using cascade_finishes [of 1 "w \<lparr> w_current_ms := w_current_ms w + 1 \<rparr>"] wheel_inv_tick [OF assms(1)]
    by (simp add: levels_count_def ticked_def)
  moreover have "w_entries (ticked w) i = Some e" "w_current_ms (ticked w) = Suc (w_current_ms w)"
    "due_of (ticked w) e = due_of w e" using assms(2) by (simp_all add: ticked_def)
  ultimately obtain l s where ls: "i \<in> set (w_levels (ticked w) l s)"
      "pending levels_count (Suc (w_current_ms w)) (due_of w e) l s"
    unfolding cascade_inv_def by metis
  show thesis
  proof (cases "l = 0 \<and> s = Suc (w_current_ms w) mod slots_per_level")
    case True
    then show ?thesis using ls(1) that(1) by (simp add: due_now_def)
  next
    case False
    then have "i \<in> set (w_levels (swept w) l s)" using ls(1) by (auto simp: swept_def)
    moreover have "placed (Suc (w_current_ms w)) (due_of w e) l s"
      using ls(2) False by (auto simp: pending_def)
    ultimately show ?thesis by (rule that(2))
  qed
qed

lemma tick_resolve_inv: "wheel_inv w \<Longrightarrow> resolve_inv (due_now w) (swept w)"
  unfolding resolve_inv_def
proof (intro allI impI)
  fix i e
  assume inv: "wheel_inv w" and "w_entries (swept w) i = Some e"
  then have "w_entries w i = Some e" by simp
  with inv show "i \<in> set (due_now w) \<or> (\<exists>l s. i \<in> set (w_levels (swept w) l s) \<and>
      (placed (w_current_ms (swept w)) (due_of (swept w) e) l s \<or>
       stale (w_current_ms (swept w)) (due_of (swept w) e) l s))"
    by (cases rule: tick_cases) auto
qed

lemma tick_one_ms_frame [simp]:
  "w_current_ms (snd (tick_one_ms latest now w)) = Suc (w_current_ms w)"
  "w_epoch (snd (tick_one_ms latest now w)) = w_epoch w"
  "w_next_id (snd (tick_one_ms latest now w)) = w_next_id w"
  "dom (w_entries (snd (tick_one_ms latest now w))) = dom (w_entries w)"
  by (simp_all add: tick_one_ms_eq)

lemma tick_one_ms_wf: "wheel_wf w \<Longrightarrow> wheel_wf (snd (tick_one_ms latest now w))"
  using resolve_all_inv [OF tick_resolve_inv, of w latest now] by (simp add: wheel_wf_def tick_one_ms_eq)

lemma tick_many_wf: "wheel_wf w \<Longrightarrow> wheel_wf (snd (tick_many n latest now w))"
  by (induction n arbitrary: w) (simp_all add: case_prod_beta tick_one_ms_wf)

lemma tick_many_frame [simp]:
  "w_current_ms (snd (tick_many n latest now w)) = w_current_ms w + n"
  "w_epoch (snd (tick_many n latest now w)) = w_epoch w"
  by (induction n arbitrary: w) (simp_all add: case_prod_beta)

lemma set_registered_ids: "dom (w_entries w) \<subseteq> {..<w_next_id w} \<Longrightarrow> set (registered_ids w) = dom (w_entries w)"
  by (auto simp: registered_ids_def)

lemma resync_wf: "wheel_wf w \<Longrightarrow> wheel_wf (snd (resync latest now c w))"
proof -
  assume wf: "wheel_wf w"
  let ?w = "w \<lparr> w_current_ms := c, w_levels := (\<lambda>_ _. []) \<rparr>"
  have "resolve_inv (registered_ids ?w) ?w"
    using wf set_registered_ids [of ?w] by (auto simp: resolve_inv_def wheel_wf_def)
  then show ?thesis
    using resolve_all_inv [of "registered_ids ?w" ?w] wf by (simp add: resync_def Let_def wheel_wf_def)
qed

lemma wheel_advance_wf: "wheel_wf w \<Longrightarrow> wheel_wf (snd (wheel_advance latest now w))"
  by (simp add: wheel_advance_def Let_def case_prod_beta resync_wf tick_many_wf)

lemma wheel_with_burst_cap_wf: "wheel_wf (wheel_with_burst_cap epoch cap)"
  by (simp add: wheel_wf_def wheel_inv_def wheel_with_burst_cap_def)

lemma wheel_cancel_wf: "wheel_wf w \<Longrightarrow> wheel_wf (snd (wheel_cancel i w))"
  by (auto simp: wheel_wf_def wheel_inv_def wheel_cancel_def due_of_def split: if_splits)

lemma schedule_at_wf:
  assumes "wheel_wf w" and "w_next_id w = i"
  shows "wheel_wf (schedule_at i (te_next_due e) (w \<lparr> w_next_id := i + 1, w_entries := (w_entries w)(i \<mapsto> e) \<rparr>))"
    (is "wheel_wf ?w'")
proof -
  let ?w1 = "w \<lparr> w_next_id := i + 1, w_entries := (w_entries w)(i \<mapsto> e) \<rparr>"
  have "wheel_inv ?w'"
    unfolding wheel_inv_def
  proof (intro allI impI)
    fix j f
    assume j: "w_entries ?w' j = Some f"
    show "\<exists>l s. j \<in> set (w_levels ?w' l s) \<and>
        (placed (w_current_ms ?w') (due_of ?w' f) l s \<or> stale (w_current_ms ?w') (due_of ?w' f) l s)"
    proof (cases "j = i")
      case True
      then show ?thesis using j schedule_at_sits [of i "te_next_due e" ?w1] by (simp add: due_of_def)
    next
      case False
      then have "w_entries w j = Some f" using j by simp
      then obtain l s where ls: "j \<in> set (w_levels w l s)"
          "placed (w_current_ms w) (due_of w f) l s \<or> stale (w_current_ms w) (due_of w f) l s"
        using assms(1) unfolding wheel_wf_def wheel_inv_def by blast
      have "j \<in> set (w_levels ?w' l s)"
        using ls(1) schedule_at_grows [of ?w1 l s i "te_next_due e"] by auto
      with ls(2) show ?thesis by (auto simp: due_of_def)
    qed
  qed
  then show ?thesis
    using assms by (auto simp: wheel_wf_def)
qed

lemma wheel_insert_wf: "wheel_wf w \<Longrightarrow> wheel_wf (snd (wheel_insert latest spec now w))"
  using schedule_at_wf [of w "w_next_id w"
    "\<lparr> te_interval = ts_interval spec, te_policy = ts_policy spec,
       te_next_due = next_tick latest (ts_interval spec) now, te_jitter = jitter_new, te_tag = ts_tag spec \<rparr>"]
  by (simp add: wheel_insert_def Let_def)

section \<open>Firing: the count of ticks\<close>

text \<open>
  A timer is on its grid when its next due time is a tick of its schedule; an instant is in
  range of a schedule when the tick after it is an instant of the platform and the number
  of the tick fits the counter.
\<close>

definition on_grid :: "timer_entry \<Rightarrow> bool" where
  "on_grid e \<longleftrightarrow> (\<exists>k. te_next_due e = anchor (te_interval e) + k * period (te_interval e))"

definition tick_in_range :: "instant \<Rightarrow> instant \<Rightarrow> timer_interval \<Rightarrow> bool" where
  "tick_in_range latest now t \<longleftrightarrow> 0 < period t \<and> now + period t \<le> latest \<and> latest \<le> duration_max \<and>
     (now - anchor t) div period t \<le> u64_max"

definition entries_in_range :: "instant \<Rightarrow> instant \<Rightarrow> timer_wheel \<Rightarrow> bool" where
  "entries_in_range latest now w \<longleftrightarrow> (\<forall>i e. w_entries w i = Some e \<longrightarrow> tick_in_range latest now (te_interval e))"

text \<open>The ticks of timer \<open>i\<close> that a list of events reports: each event is one, and tells how many it skipped.\<close>

definition fired_ticks :: "timer_id \<Rightarrow> timer_fired list \<Rightarrow> nat" where
  "fired_ticks i fs = (\<Sum>f \<leftarrow> filter (\<lambda>f. tf_id f = i) fs. Suc (tf_skipped f))"

lemma fired_ticks_simps [simp]:
  "fired_ticks i [] = 0"
  "fired_ticks i (f # fs) = (if tf_id f = i then Suc (tf_skipped f) else 0) + fired_ticks i fs"
  "fired_ticks i (fs @ gs) = fired_ticks i fs + fired_ticks i gs"
  by (simp_all add: fired_ticks_def)

lemma fired_ticks_sort [simp]: "fired_ticks i (sort_key g fs) = fired_ticks i fs"
proof -
  have "mset (map (\<lambda>f. Suc (tf_skipped f)) (filter (\<lambda>f. tf_id f = i) (sort_key g fs))) =
      mset (map (\<lambda>f. Suc (tf_skipped f)) (filter (\<lambda>f. tf_id f = i) fs))"
    by (simp add: mset_filter)
  then show ?thesis unfolding fired_ticks_def by (metis sum_mset_sum_list)
qed

lemma next_tick_on_grid:
  assumes "on_grid e" and "tick_in_range latest now (te_interval e)" and "te_next_due e \<le> now"
  shows "next_tick latest (te_interval e) (te_next_due e) = te_next_due e + period (te_interval e)"
proof -
  let ?t = "te_interval e"
  obtain k where k: "te_next_due e = anchor ?t + k * period ?t"
    using assms(1) by (auto simp: on_grid_def)
  have "te_next_due e + period ?t \<le> latest" "0 < period ?t" "latest \<le> duration_max" "anchor ?t \<le> te_next_due e"
    using assms k by (auto simp: tick_in_range_def)
  then show ?thesis
    using next_tick_grid [of ?t "te_next_due e" latest] by (simp add: k)
qed

lemma next_tick_later: "tick_in_range latest now t \<Longrightarrow> now < next_tick latest t now"
  using next_tick_before_anchor [of now t latest] next_tick_grid [of t now latest]
    grid_next_greater [of "period t" "now - anchor t"]
  by (cases "now < anchor t") (auto simp: tick_in_range_def)

text \<open>The step of a timer that fires: it keeps its schedule and moves on by the ticks reported.\<close>

definition moves_on :: "timer_id \<Rightarrow> timer_entry \<Rightarrow> timer_fired list \<Rightarrow> timer_entry \<Rightarrow> bool" where
  "moves_on i e fs e' \<longleftrightarrow> te_interval e' = te_interval e \<and>
     te_next_due e' = te_next_due e + fired_ticks i fs * period (te_interval e)"

lemma moves_on_refl: "moves_on i e [] e"
  by (simp add: moves_on_def)

lemma moves_on_trans: "moves_on i e fs e' \<Longrightarrow> moves_on i e' gs e'' \<Longrightarrow> moves_on i e (fs @ gs) e''"
  by (simp add: moves_on_def distrib_right)

lemma moves_on_grid: "moves_on i e fs e' \<Longrightarrow> on_grid e \<Longrightarrow> on_grid e'"
  unfolding moves_on_def on_grid_def by (metis add.assoc distrib_right)

lemma burst_loop_moves:
  "on_grid e \<Longrightarrow> tick_in_range latest now (te_interval e) \<Longrightarrow>
    moves_on i e (fst (burst_loop n latest i now e)) (snd (burst_loop n latest i now e))"
proof (induction n arbitrary: e)
  case (Suc n)
  show ?case
  proof (cases "te_next_due e \<le> now")
    case True
    let ?e = "(observe_jitter now e) \<lparr> te_next_due := next_tick latest (te_interval e) (te_next_due e) \<rparr>"
    have step: "moves_on i e [fired_event i now 0 e] ?e"
      using next_tick_on_grid [OF Suc.prems True] by (simp add: moves_on_def fired_event_def observe_jitter_def)
    have "moves_on i ?e (fst (burst_loop n latest i now ?e)) (snd (burst_loop n latest i now ?e))"
      using Suc.prems moves_on_grid [OF step] by (intro Suc.IH) (simp_all add: observe_jitter_def)
    from moves_on_trans [OF step this] True show ?thesis
      by (simp add: Let_def case_prod_beta)
  next
    case False
    then show ?thesis by (simp add: moves_on_refl)
  qed
qed (simp add: moves_on_refl)

lemma coalesce_moves:
  assumes "on_grid e" and "tick_in_range latest now (te_interval e)" and "te_next_due e \<le> now"
  shows "moves_on i e [fst (coalesce latest i now e)] (snd (coalesce latest i now e))"
proof -
  let ?t = "te_interval e"
  obtain k where k: "te_next_due e = anchor ?t + k * period ?t"
    using assms(1) by (auto simp: on_grid_def)
  have r: "0 < period ?t" "now + period ?t \<le> latest" "latest \<le> duration_max"
      "(now - anchor ?t) div period ?t \<le> u64_max" "anchor ?t \<le> now"
    using assms k by (auto simp: tick_in_range_def)
  let ?n = "(now - anchor ?t) div period ?t"
  have kn: "k \<le> ?n"
    using assms(3) k r(1) div_le_mono [of "k * period ?t" "now - anchor ?t" "period ?t"] by simp
  have elapsed: "ticks_elapsed ?t now = ?n" "ticks_elapsed ?t (te_next_due e) = k"
    using r kn k by (simp_all add: ticks_elapsed_def checked_duration_since_def as_nanos_u64_def max_absorb1)
  then have between: "ticks_between ?t (te_next_due e) now = ?n - k"
    using assms(3) by (auto simp: ticks_between_def sat_sub_def)
  have next_due: "next_tick latest ?t now = anchor ?t + (?n + 1) * period ?t"
    by (rule next_tick_grid [OF r(1-3,5)])
  have "?n + 1 = k + (?n - k + 1)" using kn by simp
  then have "anchor ?t + (?n + 1) * period ?t = te_next_due e + (?n - k + 1) * period ?t"
    unfolding k by (metis add.assoc distrib_right)
  then show ?thesis
    by (simp add: moves_on_def coalesce_def fired_event_def observe_jitter_def between next_due)
qed

lemma burst_loop_interval [simp]: "te_interval (snd (burst_loop n latest i now e)) = te_interval e"
  by (induction n arbitrary: e) (simp_all add: Let_def case_prod_beta observe_jitter_def)

lemma fire_entry_moves:
  assumes "on_grid e" and "tick_in_range latest now (te_interval e)" and "te_next_due e \<le> now"
  shows "moves_on i e (fst (fire_entry cap latest i now e)) (snd (fire_entry cap latest i now e))"
proof (cases "te_policy e")
  case Burst
  let ?b = "burst_loop cap latest i now e"
  have b: "moves_on i e (fst ?b) (snd ?b)" by (rule burst_loop_moves [OF assms(1,2)])
  show ?thesis
  proof (cases "te_next_due (snd ?b) \<le> now")
    case True
    have "moves_on i (snd ?b) [fst (coalesce latest i now (snd ?b))] (snd (coalesce latest i now (snd ?b)))"
      using coalesce_moves [OF moves_on_grid [OF b assms(1)] _ True] assms(2) by simp
    from moves_on_trans [OF b this] True Burst show ?thesis
      by (simp add: fire_entry_def case_prod_beta)
  next
    case False
    with b Burst show ?thesis by (simp add: fire_entry_def case_prod_beta)
  qed
next
  case Skip
  then show ?thesis using coalesce_moves [OF assms] by (simp add: fire_entry_def case_prod_beta)
qed

lemma fire_entry_later:
  "tick_in_range latest now (te_interval e) \<Longrightarrow> now < te_next_due (snd (fire_entry cap latest i now e))"
  by (auto simp: fire_entry_def case_prod_beta coalesce_def next_tick_later split: missed_tick_policy.split)

lemma fire_entry_interval [simp]: "te_interval (snd (fire_entry cap latest i now e)) = te_interval e"
  by (simp add: fire_entry_def case_prod_beta coalesce_def observe_jitter_def split: missed_tick_policy.split)

text \<open>No event is early, and every event names its timer.\<close>

definition due_event :: "instant \<Rightarrow> timer_fired \<Rightarrow> bool" where
  "due_event now f \<longleftrightarrow> tf_scheduled_at f \<le> now \<and> tf_fired_at f = now"

lemma burst_loop_events: "f \<in> set (fst (burst_loop n latest i now e)) \<Longrightarrow> due_event now f \<and> tf_id f = i"
  by (induction n arbitrary: e)
    (auto simp: Let_def case_prod_beta fired_event_def due_event_def split: if_splits)

lemma fire_entry_events:
  "te_next_due e \<le> now \<Longrightarrow> f \<in> set (fst (fire_entry cap latest i now e)) \<Longrightarrow> due_event now f \<and> tf_id f = i"
  using burst_loop_events
  by (auto simp: fire_entry_def case_prod_beta coalesce_def fired_event_def due_event_def
    split: missed_tick_policy.splits if_splits)

lemma resolve_due_events: "f \<in> set (fst (resolve_due latest i now w)) \<Longrightarrow> due_event now f \<and> tf_id f = i"
  using fire_entry_events [of _ now f]
  by (auto simp: resolve_due_def case_prod_beta not_less split: option.splits if_splits)

lemma resolve_all_events: "f \<in> set (fst (resolve_all latest is now w)) \<Longrightarrow> due_event now f"
  by (induction "is" arbitrary: w) (auto simp: case_prod_beta dest: resolve_due_events)

lemma tick_many_events: "f \<in> set (fst (tick_many n latest now w)) \<Longrightarrow> due_event now f"
  by (induction n arbitrary: w) (auto simp: case_prod_beta tick_one_ms_eq dest: resolve_all_events)

lemma fired_ticks_other: "(\<And>f. f \<in> set fs \<Longrightarrow> tf_id f \<noteq> i) \<Longrightarrow> fired_ticks i fs = 0"
  by (induction fs) auto

section \<open>Advancing: every timer moves on, none is left behind\<close>

text \<open>How timer \<open>i\<close> fares while the events \<open>fs\<close> come out of the wheel.\<close>

definition tracks :: "instant \<Rightarrow> instant \<Rightarrow> timer_id \<Rightarrow> timer_wheel \<Rightarrow> timer_fired list \<Rightarrow> timer_wheel \<Rightarrow> bool" where
  "tracks latest now i w fs w' \<longleftrightarrow> (\<forall>e. w_entries w i = Some e \<longrightarrow> on_grid e \<longrightarrow> tick_in_range latest now (te_interval e) \<longrightarrow>
     (\<exists>e'. w_entries w' i = Some e' \<and> moves_on i e fs e'))"

lemma tracks_refl: "w_entries w' = w_entries w \<Longrightarrow> tracks latest now i w [] w'"
  by (auto simp: tracks_def intro: moves_on_refl)

lemma tracks_trans:
  assumes "tracks latest now i w fs w'" and "tracks latest now i w' gs w''"
  shows "tracks latest now i w (fs @ gs) w''"
  unfolding tracks_def
proof (intro allI impI)
  fix e
  assume e: "w_entries w i = Some e" "on_grid e" "tick_in_range latest now (te_interval e)"
  then obtain e' where e': "w_entries w' i = Some e'" "moves_on i e fs e'"
    using assms(1) by (auto simp: tracks_def)
  have "on_grid e'" "te_interval e' = te_interval e"
    using moves_on_grid [OF e'(2) e(2)] e'(2) by (simp_all add: moves_on_def)
  then obtain e'' where "w_entries w'' i = Some e''" "moves_on i e' gs e''"
    using assms(2) e'(1) e(3) by (auto simp: tracks_def)
  then show "\<exists>e''. w_entries w'' i = Some e'' \<and> moves_on i e (fs @ gs) e''"
    using moves_on_trans [OF e'(2)] by blast
qed

lemma resolve_due_tracks: "tracks latest now i w (fst (resolve_due latest j now w)) (snd (resolve_due latest j now w))"
proof (cases "i = j")
  case True
  then show ?thesis
    using fire_entry_moves
    by (auto simp: tracks_def resolve_due_def case_prod_beta moves_on_refl)
next
  case False
  then have "fired_ticks i (fst (resolve_due latest j now w)) = 0"
    using resolve_due_events by (intro fired_ticks_other) blast
  then show ?thesis
    using resolve_due_other [OF False] by (simp add: tracks_def moves_on_def)
qed

lemma resolve_all_tracks: "tracks latest now i w (fst (resolve_all latest is now w)) (snd (resolve_all latest is now w))"
proof (induction "is" arbitrary: w)
  case (Cons j "is")
  then show ?case
    using tracks_trans [OF resolve_due_tracks Cons.IH] by (simp add: case_prod_beta)
qed (simp add: tracks_refl)

lemma tracks_start: "tracks latest now i w' fs w'' \<Longrightarrow> w_entries w' = w_entries w \<Longrightarrow> tracks latest now i w fs w''"
  by (simp add: tracks_def)

lemma tick_one_ms_tracks: "tracks latest now i w (fst (tick_one_ms latest now w)) (snd (tick_one_ms latest now w))"
  unfolding tick_one_ms_eq by (rule tracks_start [OF resolve_all_tracks]) simp

lemma tick_many_tracks: "tracks latest now i w (fst (tick_many n latest now w)) (snd (tick_many n latest now w))"
proof (induction n arbitrary: w)
  case (Suc n)
  then show ?case
    using tracks_trans [OF tick_one_ms_tracks Suc.IH] by (simp add: case_prod_beta)
qed (simp add: tracks_refl)

lemma resync_tracks: "tracks latest now i w (fst (resync latest now c w)) (snd (resync latest now c w))"
  unfolding resync_def Let_def by (rule tracks_start [OF resolve_all_tracks]) simp

lemma tracks_sort: "tracks latest now i w (sort_key g (sort_key h fs)) w' = tracks latest now i w fs w'"
  by (simp add: tracks_def moves_on_def)

lemma wheel_advance_tracks: "tracks latest now i w (fst (wheel_advance latest now w)) (snd (wheel_advance latest now w))"
  using resync_tracks [of latest now i w] tick_many_tracks [of latest now i w]
  by (simp add: wheel_advance_def Let_def case_prod_beta tracks_refl tracks_sort)

subsection \<open>Punctuality\<close>

lemma resolve_due_in_range: "entries_in_range latest now w \<Longrightarrow> entries_in_range latest now (snd (resolve_due latest i now w))"
  by (auto simp: entries_in_range_def resolve_due_def case_prod_beta split: option.splits if_splits)

lemma resolve_all_in_range: "entries_in_range latest now w \<Longrightarrow> entries_in_range latest now (snd (resolve_all latest is now w))"
  by (induction "is" arbitrary: w) (simp_all add: case_prod_beta resolve_due_in_range)

lemma resolve_due_later:
  "entries_in_range latest now w \<Longrightarrow> w_entries (snd (resolve_due latest i now w)) i = Some e \<Longrightarrow> now < te_next_due e"
  using fire_entry_later [of latest now]
  by (auto simp: entries_in_range_def resolve_due_def case_prod_beta split: option.splits if_splits)

lemma resolve_all_other: "i \<notin> set is \<Longrightarrow> w_entries (snd (resolve_all latest is now w)) i = w_entries w i"
  by (induction "is" arbitrary: w) (simp_all add: case_prod_beta resolve_due_other)

lemma resolve_all_later:
  "entries_in_range latest now w \<Longrightarrow> i \<in> set is \<Longrightarrow>
    w_entries (snd (resolve_all latest is now w)) i = Some e \<Longrightarrow> now < te_next_due e"
proof (induction "is" arbitrary: w)
  case (Cons j "is")
  let ?w = "snd (resolve_due latest j now w)"
  have e: "w_entries (snd (resolve_all latest is now ?w)) i = Some e"
    using Cons.prems(3) by (simp add: case_prod_beta)
  show ?case
  proof (cases "i \<in> set is")
    case True
    then show ?thesis using Cons.IH [OF resolve_due_in_range [OF Cons.prems(1)]] e by blast
  next
    case False
    then show ?thesis
      using Cons.prems(1,2) e resolve_all_other [OF False, of latest now ?w] resolve_due_later by auto
  qed
qed simp

lemma tick_one_ms_later:
  assumes "wheel_inv w" and "entries_in_range latest now w" and e: "w_entries (snd (tick_one_ms latest now w)) i = Some e"
  shows "now < te_next_due e \<or> Suc (w_current_ms w) < due_of w e"
proof (cases "i \<in> set (due_now w)")
  case True
  then show ?thesis
    using assms(2) e resolve_all_later [of latest now "swept w" i "due_now w" e]
    by (simp add: tick_one_ms_eq entries_in_range_def)
next
  case False
  then have "w_entries w i = Some e"
    using e by (simp add: tick_one_ms_eq resolve_all_other)
  from tick_cases [OF assms(1) this] False show ?thesis
    by (metis placed_less)
qed

lemma tick_many_later:
  "wheel_wf w \<Longrightarrow> entries_in_range latest now w \<Longrightarrow> 0 < n \<Longrightarrow> w_entries (snd (tick_many n latest now w)) i = Some e \<Longrightarrow>
    now < te_next_due e \<or> w_current_ms w + n < due_of w e"
proof (induction n arbitrary: w)
  case (Suc n)
  let ?w = "snd (tick_one_ms latest now w)"
  have w: "wheel_wf ?w" "entries_in_range latest now ?w" "due_of ?w e = due_of w e"
    using Suc.prems(1,2) tick_one_ms_wf resolve_all_in_range [of latest now "swept w" "due_now w"]
    by (simp_all add: tick_one_ms_eq entries_in_range_def)
  show ?case
  proof (cases "n = 0")
    case True
    then show ?thesis
      using Suc.prems tick_one_ms_later [of w latest now i e] by (simp add: case_prod_beta wheel_wf_def)
  next
    case False
    then show ?thesis using Suc.IH [of ?w] Suc.prems(4) w by (simp add: case_prod_beta)
  qed
qed simp

lemma floor_ceil_ms:
  assumes "floor_ms_since_epoch epoch now < ceil_ms_since_epoch epoch due"
  shows "now < due + 1000000"
proof -
  have "(now - epoch) div 1000000 < (due - epoch + 999999) div 1000000"
    using assms unfolding floor_ms_since_epoch_def ceil_ms_since_epoch_def as_nanos_u64_def
    by (simp only: split: if_splits)
  then show ?thesis by linarith
qed

lemma wheel_advance_later:
  assumes "wheel_wf w" and "entries_in_range latest now w" and "w_current_ms w < floor_ms_since_epoch (w_epoch w) now"
    and e: "w_entries (snd (wheel_advance latest now w)) i = Some e"
  shows "now < te_next_due e + 1000000"
proof (cases "max_catchup_ticks_ms < floor_ms_since_epoch (w_epoch w) now - w_current_ms w")
  case True
  let ?w = "w \<lparr> w_current_ms := floor_ms_since_epoch (w_epoch w) now, w_levels := (\<lambda>_ _. []) \<rparr>"
  have e: "w_entries (snd (resolve_all latest (registered_ids ?w) now ?w)) i = Some e"
    using e assms(3) True by (simp add: wheel_advance_def resync_def Let_def case_prod_beta)
  then have "i \<in> dom (w_entries (snd (resolve_all latest (registered_ids ?w) now ?w)))" by blast
  then have "i \<in> set (registered_ids ?w)"
    using assms(1) set_registered_ids [of ?w] by (simp add: wheel_wf_def)
  then show ?thesis
    using resolve_all_later [OF _ _ e] assms(2) by (fastforce simp: entries_in_range_def)
next
  case False
  then have "w_entries (snd (tick_many (floor_ms_since_epoch (w_epoch w) now - w_current_ms w) latest now w)) i = Some e"
    using e assms(3) by (simp add: wheel_advance_def Let_def case_prod_beta)
  from tick_many_later [OF assms(1,2) _ this] assms(3)
  have "now < te_next_due e \<or> floor_ms_since_epoch (w_epoch w) now < due_of w e" by simp
  then show ?thesis
    using floor_ceil_ms unfolding due_of_def by fastforce
qed

subsection \<open>Wheels that a scheduler can reach\<close>

inductive wheel_reachable :: "instant \<Rightarrow> timer_wheel \<Rightarrow> bool" for latest where
  reach_new: "wheel_reachable latest (wheel_with_burst_cap epoch cap)"
| reach_insert: "wheel_reachable latest w \<Longrightarrow> tick_in_range latest now (ts_interval spec) \<Longrightarrow>
    wheel_reachable latest (snd (wheel_insert latest spec now w))"
| reach_cancel: "wheel_reachable latest w \<Longrightarrow> wheel_reachable latest (snd (wheel_cancel i w))"
| reach_advance: "wheel_reachable latest w \<Longrightarrow> entries_in_range latest now w \<Longrightarrow>
    wheel_reachable latest (snd (wheel_advance latest now w))"

lemma wheel_reachable_wf: "wheel_reachable latest w \<Longrightarrow> wheel_wf w"
  by (induction rule: wheel_reachable.induct)
    (simp_all add: wheel_with_burst_cap_wf wheel_insert_wf wheel_cancel_wf wheel_advance_wf)

lemma next_tick_is_grid: "tick_in_range latest now t \<Longrightarrow> \<exists>k. next_tick latest t now = anchor t + k * period t"
proof (cases "now < anchor t")
  case True
  then show ?thesis by (auto simp: next_tick_before_anchor intro: exI [of _ 0])
next
  case False
  assume "tick_in_range latest now t"
  then show ?thesis
    using False next_tick_grid [of t now latest] unfolding tick_in_range_def by (metis not_less)
qed

lemma wheel_advance_dom: "dom (w_entries (snd (wheel_advance latest now w))) = dom (w_entries w)"
proof -
  have "dom (w_entries (snd (tick_many n latest now w))) = dom (w_entries w)" for n w
    by (induction n arbitrary: w) (simp_all add: case_prod_beta)
  then show ?thesis
    by (simp add: wheel_advance_def resync_def Let_def case_prod_beta)
qed

lemma wheel_reachable_grid: "wheel_reachable latest w \<Longrightarrow> w_entries w i = Some e \<Longrightarrow> on_grid e"
proof (induction arbitrary: i e rule: wheel_reachable.induct)
  case (reach_insert w now spec)
  then show ?case
    using next_tick_is_grid [of latest now "ts_interval spec"]
    by (auto simp: wheel_insert_def Let_def on_grid_def split: if_splits)
next
  case (reach_advance w now)
  then obtain e0 where e0: "w_entries w i = Some e0"
    using wheel_advance_dom [of latest now w] by blast
  then have "moves_on i e0 (fst (wheel_advance latest now w)) e"
    using reach_advance wheel_advance_tracks [of latest now i w] by (auto simp: tracks_def entries_in_range_def)
  then show ?case
    using reach_advance.IH [OF e0] by (rule moves_on_grid)
qed (auto simp: wheel_with_burst_cap_def wheel_cancel_def split: if_splits)

section \<open>Properties\<close>

text \<open>
  The wheel never fires early: every event that \<^verbatim>\<open>advance\<close> returns was scheduled at or
  before \<open>now\<close> and carries \<open>now\<close> as its firing time, and the events come in the order of
  their scheduled times, whatever the wheel holds.
\<close>

lemma wheel_never_early:
  "set (fst (wheel_advance latest now w)) \<subseteq> {f. tf_scheduled_at f \<le> now \<and> tf_fired_at f = now} \<and>
   sorted (map tf_scheduled_at (fst (wheel_advance latest now w)))"
proof -
  have "due_event now f" if "f \<in> set (fst (wheel_advance latest now w))" for f
    using that by (auto simp: wheel_advance_def resync_def Let_def case_prod_beta
      dest: tick_many_events resolve_all_events split: if_splits)
  moreover have "sorted (map tf_scheduled_at (fst (wheel_advance latest now w)))"
    by (simp add: wheel_advance_def Let_def case_prod_beta)
  ultimately show ?thesis unfolding due_event_def by blast
qed

text \<open>
  C8: The wheel never leaves a timer behind: from every wheel that a sequence of \<^verbatim>\<open>insert\<close>,
  \<^verbatim>\<open>cancel\<close> and \<^verbatim>\<open>advance\<close> calls can produce, an \<^verbatim>\<open>advance\<close> that moves the wheel leaves no
  registered timer whose next tick is a millisecond or more in the past, on the tick-by-tick
  path through the five levels as on the catch-up path.
\<close>

theorem wheel_never_late:
  assumes "wheel_reachable latest w" and "entries_in_range latest now w"
    and "w_current_ms w < floor_ms_since_epoch (w_epoch w) now"
  shows "te_next_due ` ran (w_entries (snd (wheel_advance latest now w))) \<subseteq> {d. now < d + 1000000}"
  using wheel_advance_later [OF wheel_reachable_wf [OF assms(1)] assms(2,3)] by (auto simp: ran_def)

text \<open>
  C9: No tick is lost or counted twice: across an \<^verbatim>\<open>advance\<close> a registered timer keeps its
  schedule, and its next due time moves on by exactly as many periods as the events report,
  each event standing for its own tick and the ones it says it skipped. This holds for both
  policies, with the burst cap, and on both paths of \<^verbatim>\<open>advance\<close>.
\<close>

theorem wheel_ticks_accounted:
  assumes "wheel_reachable latest w" and "entries_in_range latest now w" and "w_entries w i = Some e"
  shows "\<exists>e'. w_entries (snd (wheel_advance latest now w)) i = Some e' \<and> te_interval e' = te_interval e \<and>
    te_next_due e' = te_next_due e + fired_ticks i (fst (wheel_advance latest now w)) * period (te_interval e)"
  using wheel_advance_tracks [of latest now i w] wheel_reachable_grid [OF assms(1,3)] assms(2,3)
  by (auto simp: tracks_def entries_in_range_def moves_on_def)

text \<open>A wheel with a timer of ten milliseconds, advanced by 35 milliseconds.\<close>

definition example_wheel :: timer_wheel where
  "example_wheel = snd (wheel_insert 1000000000 \<lparr> ts_interval = \<lparr> period = 10000000, anchor = 0 \<rparr>,
     ts_policy = Skip, ts_tag = 7 \<rparr> 0 (wheel_new 0))"

lemma example_in_range:
  "now \<le> 900000000 \<Longrightarrow> tick_in_range 1000000000 now \<lparr> period = 10000000, anchor = 0 \<rparr>"
  by (simp add: tick_in_range_def duration_max_def u64_max_eq nanos_per_sec_def)

lemma example_reachable: "wheel_reachable 1000000000 example_wheel"
  unfolding example_wheel_def wheel_new_def
  by (rule reach_insert [OF reach_new]) (simp add: example_in_range)

lemma example_entry:
  "w_entries example_wheel = [0 \<mapsto> \<lparr> te_interval = \<lparr> period = 10000000, anchor = 0 \<rparr>, te_policy = Skip,
     te_next_due = 10000000, te_jitter = jitter_new, te_tag = 7 \<rparr>]"
  "w_current_ms example_wheel = 0" "w_epoch example_wheel = 0"
proof -
  have "next_tick 1000000000 \<lparr> period = 10000000, anchor = 0 \<rparr> 0 = 10000000"
    using next_tick_grid [of "\<lparr> period = 10000000, anchor = 0 \<rparr>" 0 1000000000]
    by (simp add: duration_max_def u64_max_eq nanos_per_sec_def)
  then show "w_entries example_wheel = [0 \<mapsto> \<lparr> te_interval = \<lparr> period = 10000000, anchor = 0 \<rparr>, te_policy = Skip,
     te_next_due = 10000000, te_jitter = jitter_new, te_tag = 7 \<rparr>]"
    by (simp add: example_wheel_def wheel_insert_def Let_def wheel_new_def wheel_with_burst_cap_def)
qed (simp_all add: example_wheel_def wheel_insert_def Let_def wheel_new_def wheel_with_burst_cap_def)

lemma example_entries_in_range: "entries_in_range 1000000000 35000000 example_wheel"
  by (simp add: entries_in_range_def example_entry example_in_range)

theorem wheel_never_late_witness:
  "te_next_due ` ran (w_entries (snd (wheel_advance 1000000000 35000000 example_wheel))) \<subseteq> {d. 35000000 < d + 1000000}"
  by (rule wheel_never_late [OF example_reachable example_entries_in_range])
    (simp add: example_entry floor_ms_since_epoch_def as_nanos_u64_def u64_max_eq)

theorem wheel_ticks_accounted_witness:
  "\<exists>e. w_entries (snd (wheel_advance 1000000000 35000000 example_wheel)) 0 = Some e \<and>
    te_next_due e = 10000000 + fired_ticks 0 (fst (wheel_advance 1000000000 35000000 example_wheel)) * 10000000"
  using wheel_ticks_accounted [OF example_reachable example_entries_in_range, of 0] by (auto simp: example_entry)

end
