(* ===== verification/Wire_Crc.thy ===== *)
theory Wire_Crc
  imports Astrs_Prelude
begin

text \<open>
  The CRC-32C of \<^verbatim>\<open>crates/astrs-wire/src/crc32c\<close>: the slice-by-8 table kernel of
  \<^verbatim>\<open>scalar.rs\<close>, the combination of independent registers of \<^verbatim>\<open>combine.rs\<close>, the hardware
  kernels of \<^verbatim>\<open>x86.rs\<close> with their three interleaved streams, the choice between them in
  \<^verbatim>\<open>dispatch.rs\<close> and the public interface of \<^verbatim>\<open>mod.rs\<close>.

  The two instructions of the hardware kernel are intrinsics of the standard library and are
  given by what they compute: the division by the Castagnoli polynomial, bit by bit, which is
  also the reference for the tables. The feature test of the processor is an argument.
\<close>

unbundle bit_operations_syntax

section \<open>Bytes\<close>

fun from_le_bytes :: "u8 list \<Rightarrow> 'a::len word" where
  "from_le_bytes [] = 0"
| "from_le_bytes (b # bs) = ucast b OR push_bit 8 (from_le_bytes bs)"

primrec to_le_bytes :: "nat \<Rightarrow> 'a::len word \<Rightarrow> u8 list" where
  "to_le_bytes 0 w = []"
| "to_le_bytes (Suc n) w = ucast w # to_le_bytes n (drop_bit 8 w)"

section \<open>Tables\<close>

definition crc32c_polynomial :: u32 where
  "crc32c_polynomial = 0x82F63B78"

text \<open>One turn of the innermost loop of \<^verbatim>\<open>build_tables\<close>: the division by one bit.\<close>

definition crc_bit :: "u32 \<Rightarrow> u32" where
  "crc_bit crc = (if crc AND 1 \<noteq> 0 then drop_bit 1 crc XOR crc32c_polynomial else drop_bit 1 crc)"

definition table0 :: "nat \<Rightarrow> u32" where
  "table0 index = (crc_bit ^^ 8) (word_of_nat index)"

primrec tables :: "nat \<Rightarrow> nat \<Rightarrow> u32" where
  "tables 0 index = table0 index"
| "tables (Suc level) index =
    (let previous = tables level index
     in drop_bit 8 previous XOR table0 (unat (previous AND 0xFF)))"

section \<open>The portable kernel\<close>

definition slice :: nat where
  "slice = 8"

definition split_chunk :: "u8 list \<Rightarrow> (u8 list \<times> u8 list) option" where
  "split_chunk data = (if length data < slice then None else Some (take slice data, drop slice data))"

definition table_byte :: "nat \<Rightarrow> nat \<Rightarrow> u32 \<Rightarrow> u32" where
  "table_byte level sh w = tables level (unat (drop_bit sh w AND 0xFF))"

definition slice_step :: "u32 \<Rightarrow> u8 list \<Rightarrow> u32" where
  "slice_step state chunk =
    (let low = from_le_bytes (take 4 chunk) XOR state;
         high = from_le_bytes (drop 4 chunk)
     in table_byte 7 0 low XOR table_byte 6 8 low XOR table_byte 5 16 low XOR table_byte 4 24 low
        XOR table_byte 3 0 high XOR table_byte 2 8 high XOR table_byte 1 16 high XOR table_byte 0 24 high)"

definition byte_step :: "u32 \<Rightarrow> u8 \<Rightarrow> u32" where
  "byte_step state b = drop_bit 8 state XOR tables 0 (unat ((state XOR ucast b) AND 0xFF))"

function update_state_scalar :: "u32 \<Rightarrow> u8 list \<Rightarrow> u32" where
  "update_state_scalar state data = (case split_chunk data of
      Some (chunk, tail) \<Rightarrow> update_state_scalar (slice_step state chunk) tail
    | None \<Rightarrow> foldl byte_step state data)"
  by pat_completeness auto

termination
  by (relation "measure (\<lambda>(s, data). length data)") (auto simp: split_chunk_def slice_def split: if_splits)

declare update_state_scalar.simps [simp del]

section \<open>Combining registers\<close>

type_synonym matrix = "u32 list"

definition one_zero_byte_operator :: matrix where
  "one_zero_byte_operator = map (\<lambda>i. update_state_scalar (push_bit i 1) [0]) [0..<32]"

text \<open>The loop of \<^verbatim>\<open>apply\<close>.\<close>

function apply_from :: "matrix \<Rightarrow> u32 \<Rightarrow> u32 \<Rightarrow> nat \<Rightarrow> u32" where
  "apply_from m acc left i =
    (if left = 0 then acc
     else apply_from m (if left AND 1 \<noteq> 0 then acc XOR m ! i else acc) (drop_bit 1 left) (i + 1))"
  by pat_completeness auto

termination
proof (relation "measure (\<lambda>(m, acc, left, i). unat left)", goal_cases)
  case (2 m acc left i)
  then have "0 < unat left" by (simp add: unat_gt_0)
  then have "unat left div 2 < unat left" by simp
  moreover have "unat (drop_bit 1 left) = unat left div 2"
    unfolding unat_drop_bit_eq drop_bit_eq_div [where 'a = nat] by simp
  ultimately show ?case by simp
qed simp

declare apply_from.simps [simp del]

definition apply_matrix :: "matrix \<Rightarrow> u32 \<Rightarrow> u32" where
  "apply_matrix m v = apply_from m 0 v 0"

definition square :: "matrix \<Rightarrow> matrix" where
  "square m = map (\<lambda>i. apply_matrix m (m ! i)) [0..<32]"

primrec chain_entry :: "nat \<Rightarrow> matrix" where
  "chain_entry 0 = one_zero_byte_operator"
| "chain_entry (Suc k) = square (chain_entry k)"

definition doubling_chain :: "matrix list" where
  "doubling_chain = map chain_entry [0..<64]"

text \<open>The loop of \<^verbatim>\<open>shift_zero_bytes\<close>.\<close>

function shift_from :: "u32 \<Rightarrow> nat \<Rightarrow> nat \<Rightarrow> u32" where
  "shift_from acc n i =
    (if n = 0 then acc
     else shift_from (if odd n then apply_matrix (doubling_chain ! i) acc else acc) (n div 2) (i + 1))"
  by pat_completeness auto

termination
  by (relation "measure (\<lambda>(acc, n, i). n)") auto

declare shift_from.simps [simp del]

definition shift_zero_bytes :: "u32 \<Rightarrow> nat \<Rightarrow> u32" where
  "shift_zero_bytes reg n = shift_from reg n 0"

definition combine :: "u32 \<Rightarrow> u32 \<Rightarrow> nat \<Rightarrow> u32" where
  "combine head tail_from_zero tail_len = shift_zero_bytes head tail_len XOR tail_from_zero"

section \<open>The hardware kernel\<close>

definition mm_crc32_u8 :: "u32 \<Rightarrow> u8 \<Rightarrow> u32" where
  "mm_crc32_u8 crc b = (crc_bit ^^ 8) (crc XOR ucast b)"

definition mm_crc32_u64 :: "u64 \<Rightarrow> u64 \<Rightarrow> u64" where
  "mm_crc32_u64 crc w = ucast (foldl mm_crc32_u8 (ucast crc) (to_le_bytes 8 w))"

definition hw_chunk :: "u32 \<Rightarrow> u8 list \<Rightarrow> u32" where
  "hw_chunk state chunk = ucast (mm_crc32_u64 (ucast state) (from_le_bytes chunk))"

definition three_way_threshold :: nat where
  "three_way_threshold = 32 * 1024"

function single_stream :: "u32 \<Rightarrow> u8 list \<Rightarrow> u32" where
  "single_stream state data = (case split_chunk data of
      Some (chunk, tail) \<Rightarrow> single_stream (hw_chunk state chunk) tail
    | None \<Rightarrow> foldl mm_crc32_u8 state data)"
  by pat_completeness auto

termination
  by (relation "measure (\<lambda>(s, data). length data)") (auto simp: split_chunk_def slice_def split: if_splits)

declare single_stream.simps [simp del]

text \<open>The loop of \<^verbatim>\<open>interleaved\<close>.\<close>

function lockstep :: "u32 \<times> u32 \<times> u32 \<Rightarrow> u8 list \<Rightarrow> u8 list \<Rightarrow> u8 list \<Rightarrow> u32 \<times> u32 \<times> u32" where
  "lockstep st ra rb rc = (case (split_chunk ra, split_chunk rb, split_chunk rc) of
      (Some (chunk_a, tail_a), Some (chunk_b, tail_b), Some (chunk_c, tail_c)) \<Rightarrow>
        (case st of (a, b, c) \<Rightarrow>
          lockstep (hw_chunk a chunk_a, hw_chunk b chunk_b, hw_chunk c chunk_c) tail_a tail_b tail_c)
    | _ \<Rightarrow> st)"
  by pat_completeness auto

termination
  by (relation "measure (\<lambda>(st, ra, rb, rc). length ra)") (auto simp: split_chunk_def slice_def split: if_splits)

declare lockstep.simps [simp del]

definition interleaved :: "u32 \<Rightarrow> u8 list \<Rightarrow> u32" where
  "interleaved state data =
    (let third = length data div 3 div 8 * 8
     in if third = 0 then single_stream state data
        else let a = take third data; rest = drop third data;
                 b = take third rest; rest = drop third rest;
                 c_head = take third rest; c_tail = drop third rest
             in (case lockstep (state, 0, 0) a b c_head of (sa, sb, sc) \<Rightarrow>
                   single_stream (combine (combine sa sb third) sc third) c_tail))"

definition update_state_hw :: "u32 \<Rightarrow> u8 list \<Rightarrow> u32" where
  "update_state_hw state data =
    (if three_way_threshold \<le> length data then interleaved state data else single_stream state data)"

section \<open>The public interface\<close>

definition update_state :: "bool \<Rightarrow> u32 \<Rightarrow> u8 list \<Rightarrow> u32" where
  "update_state is_available state data =
    (if is_available then update_state_hw state data else update_state_scalar state data)"

definition crc32c_append :: "bool \<Rightarrow> u32 \<Rightarrow> u8 list \<Rightarrow> u32" where
  "crc32c_append hw previous data = NOT (update_state hw (NOT previous) data)"

definition crc32c :: "bool \<Rightarrow> u8 list \<Rightarrow> u32" where
  "crc32c hw data = crc32c_append hw 0 data"

record crc_hasher =
  crc_state :: u32

definition crc_new :: crc_hasher where
  "crc_new = \<lparr> crc_state = - 1 \<rparr>"

definition crc_resume :: "u32 \<Rightarrow> crc_hasher" where
  "crc_resume checksum = \<lparr> crc_state = NOT checksum \<rparr>"

definition crc_update :: "bool \<Rightarrow> u8 list \<Rightarrow> crc_hasher \<Rightarrow> crc_hasher" where
  "crc_update hw data h = \<lparr> crc_state = update_state hw (crc_state h) data \<rparr>"

definition crc_chain :: "bool \<Rightarrow> crc_hasher \<Rightarrow> u8 list \<Rightarrow> crc_hasher" where
  "crc_chain hw h data = crc_update hw data h"

definition crc_finalize :: "crc_hasher \<Rightarrow> u32" where
  "crc_finalize h = NOT (crc_state h)"

section \<open>Little-endian numbers\<close>

lemma from_le_bit: "bit (from_le_bytes bs :: 'a::len word) n \<Longrightarrow> n < 8 * length bs"
proof (induction bs arbitrary: n)
  case (Cons b bs)
  then have "n < 8 \<or> n - 8 < 8 * length bs"
    using Cons.IH [of "n - 8"] by (auto simp: bit_simps dest: bit_imp_le_length)
  then show ?case by auto
qed simp

lemma to_le_from_le:
  "length bs = n \<Longrightarrow> 8 * n \<le> LENGTH('a) \<Longrightarrow> to_le_bytes n (from_le_bytes bs :: 'a::len word) = bs"
proof (induction n arbitrary: bs)
  case (Suc n)
  then obtain b cs where bs: "bs = b # cs" "length cs = n" by (cases bs) auto
  let ?r = "from_le_bytes cs :: 'a word"
  have small: "8 + k < LENGTH('a)" if "bit ?r k" for k
    using from_le_bit [OF that] bs(2) Suc.prems(2) by simp
  have "ucast (ucast b OR push_bit 8 ?r) = b"
    using Suc.prems(2) by (intro bit_word_eqI) (auto simp: bit_simps)
  moreover have "drop_bit 8 (ucast b OR push_bit 8 ?r) = ?r"
    by (intro bit_word_eqI) (auto simp: bit_simps small dest: bit_imp_le_length)
  ultimately show ?case
    using Suc.IH [OF bs(2)] Suc.prems(2) by (simp add: bs(1))
qed simp

lemma from_le_to_le: "from_le_bytes (to_le_bytes n w) = take_bit (8 * n) w"
proof (induction n arbitrary: w)
  case (Suc n)
  have "ucast (ucast w :: u8) OR push_bit 8 (take_bit (8 * n) (drop_bit 8 w)) = take_bit (8 * Suc n) w"
    by (intro bit_word_eqI) (auto simp: bit_simps)
  then show ?case using Suc by simp
qed simp

lemma from_le_to_le_self: "8 * n = LENGTH('a) \<Longrightarrow> from_le_bytes (to_le_bytes n w) = w" for w :: "'a::len word"
  by (simp add: from_le_to_le)

lemma length_to_le [simp]: "length (to_le_bytes n w) = n"
  by (induction n arbitrary: w) simp_all

section \<open>The division is linear\<close>

lemma xor_cancel: "a XOR b = a XOR c \<longleftrightarrow> b = c" for a b c :: "'a::len word"
  by (metis xor.assoc xor.left_neutral xor_self_eq)

lemma xor_eq_0: "a XOR b = 0 \<longleftrightarrow> a = b" for a b :: "'a::len word"
  using xor_cancel [of a b a] by auto

lemma crc_bit_odd: "crc_bit c = (if odd c then drop_bit 1 c XOR crc32c_polynomial else drop_bit 1 c)"
  by (simp add: crc_bit_def and_one_eq odd_iff_mod_2_eq_one)

lemma crc_bit_xor: "crc_bit (a XOR b) = crc_bit a XOR crc_bit b"
  by (simp add: crc_bit_odd even_xor_iff drop_bit_xor ac_simps)

lemma crc_bit_0 [simp]: "crc_bit 0 = 0"
  by (simp add: crc_bit_odd)

lemma crc_bits_xor: "(crc_bit ^^ n) (a XOR b) = (crc_bit ^^ n) a XOR (crc_bit ^^ n) b"
  by (induction n) (simp_all add: crc_bit_xor)

lemma crc_bits_0 [simp]: "(crc_bit ^^ n) 0 = 0"
  by (induction n) simp_all

text \<open>Zero bits at the end are shifted out unchanged.\<close>

lemma crc_bits_low_zero: "n \<le> k \<Longrightarrow> k \<le> 32 \<Longrightarrow> take_bit k w = 0 \<Longrightarrow> (crc_bit ^^ n) w = drop_bit n w"
proof (induction n)
  case (Suc n)
  have "\<not> bit w n"
    using Suc.prems by (metis Suc_le_lessD bit_0_eq bit_take_bit_iff bot_apply bot_bool_def)
  then have "even (drop_bit n w)" by (simp add: even_drop_bit_iff_not_bit)
  then show ?case using Suc by (simp add: crc_bit_odd)
qed simp

text \<open>The operator for one zero byte.\<close>

definition zero_byte :: "u32 \<Rightarrow> u32" where
  "zero_byte s = (crc_bit ^^ 8) s"

lemma zero_byte_xor: "zero_byte (a XOR b) = zero_byte a XOR zero_byte b"
  by (simp add: zero_byte_def crc_bits_xor)

lemma zero_byte_0 [simp]: "zero_byte 0 = 0"
  by (simp add: zero_byte_def)

lemma zero_bytes_xor: "(zero_byte ^^ n) (a XOR b) = (zero_byte ^^ n) a XOR (zero_byte ^^ n) b"
  by (induction n) (simp_all add: zero_byte_xor)

lemma zero_bytes_0 [simp]: "(zero_byte ^^ n) 0 = 0"
  by (induction n) simp_all

lemma and_FF: "w AND 0xFF = take_bit 8 w" for w :: u32
  by (simp add: take_bit_eq_mask mask_eq_exp_minus_1)

lemma zero_byte_shift: "take_bit 8 w = 0 \<Longrightarrow> zero_byte w = drop_bit 8 w"
  using crc_bits_low_zero [of 8 8 w] by (simp add: zero_byte_def)

lemma zero_byte_split: "zero_byte s = drop_bit 8 s XOR zero_byte (s AND 0xFF)"
proof -
  have s: "s = push_bit 8 (drop_bit 8 s) XOR take_bit 8 s"
    by (rule bit_word_eqI) (auto simp: bit_simps)
  have "take_bit 8 (push_bit 8 (drop_bit 8 s)) = 0"
    by (rule bit_word_eqI) (auto simp: bit_simps)
  then have "zero_byte (push_bit 8 (drop_bit 8 s)) = drop_bit 8 (push_bit 8 (drop_bit 8 s))"
    by (rule zero_byte_shift)
  also have "\<dots> = drop_bit 8 s"
    by (rule bit_word_eqI) (auto simp: bit_simps dest: bit_imp_le_length)
  finally show ?thesis
    using zero_byte_xor [of "push_bit 8 (drop_bit 8 s)" "take_bit 8 s"] s by (simp add: and_FF)
qed

lemma table0_eq: "table0 (unat w) = zero_byte w"
  by (simp add: table0_def zero_byte_def)

lemma tables_eq: "tables k (unat w) = (zero_byte ^^ Suc k) w"
  by (induction k) (simp_all add: table0_eq Let_def zero_byte_split [symmetric])

text \<open>The reference: feed the register byte by byte, bit by bit.\<close>

definition crc_ref :: "u32 \<Rightarrow> u8 list \<Rightarrow> u32" where
  "crc_ref s bs = foldl mm_crc32_u8 s bs"

lemma crc_ref_simps [simp]:
  "crc_ref s [] = s" "crc_ref s (b # bs) = crc_ref (zero_byte (s XOR ucast b)) bs"
  by (simp_all add: crc_ref_def mm_crc32_u8_def zero_byte_def)

lemma crc_ref_append: "crc_ref s (xs @ ys) = crc_ref (crc_ref s xs) ys"
  by (simp add: crc_ref_def)

lemma byte_step_ref: "byte_step s b = mm_crc32_u8 s b"
proof -
  have "drop_bit 8 (s XOR ucast b) = drop_bit 8 s"
    by (rule bit_word_eqI) (auto simp: bit_simps dest: bit_imp_le_length)
  then show ?thesis
    using zero_byte_split [of "s XOR ucast b"]
    by (simp add: byte_step_def mm_crc32_u8_def table0_eq zero_byte_def [symmetric])
qed

lemma crc_ref_xor: "crc_ref (s XOR t) bs = crc_ref s bs XOR (zero_byte ^^ length bs) t"
proof (induction bs arbitrary: s t)
  case (Cons b bs)
  have "(s XOR t) XOR ucast b = (s XOR ucast b) XOR t" by (simp add: ac_simps)
  then have "zero_byte ((s XOR t) XOR ucast b) = zero_byte (s XOR ucast b) XOR zero_byte t"
    by (simp only: zero_byte_xor)
  then show ?case
    using Cons.IH [of "zero_byte (s XOR ucast b)" "zero_byte t"] by (simp add: funpow_swap1)
qed simp

section \<open>Slice-by-8 is the reference\<close>

lemma zero_byte_push: "take_bit 24 w = w \<Longrightarrow> zero_byte (push_bit 8 w) = w"
proof -
  assume w: "take_bit 24 w = w"
  have "take_bit 8 (push_bit 8 w) = 0"
    by (rule bit_word_eqI) (auto simp: bit_simps)
  then have "zero_byte (push_bit 8 w) = drop_bit 8 (push_bit 8 w)"
    by (rule zero_byte_shift)
  also have "\<dots> = take_bit 24 w"
    by (rule bit_word_eqI) (auto simp: bit_simps)
  finally show ?thesis using w by simp
qed

lemma take_bit_ucast_byte: "take_bit 24 (push_bit k (ucast b :: u32)) = push_bit k (ucast b)"
  if "k \<le> 16" for b :: u8
  using that by (intro bit_word_eqI) (auto simp: bit_simps dest: bit_imp_le_length)

lemma zero_byte_push_byte:
  "zero_byte (push_bit 8 (ucast b)) = ucast b"
  "zero_byte (push_bit 16 (ucast b)) = push_bit 8 (ucast b)"
  "zero_byte (push_bit 24 (ucast b)) = push_bit 16 (ucast b)" for b :: u8
  using take_bit_ucast_byte [of 0 b] take_bit_ucast_byte [of 8 b] take_bit_ucast_byte [of 16 b]
    zero_byte_push [of "ucast b"] zero_byte_push [of "push_bit 8 (ucast b)"] zero_byte_push [of "push_bit 16 (ucast b)"]
  by (simp_all add: push_bit_push_bit)

text \<open>A register is the sum of its four bytes.\<close>

lemma word_bytes:
  "w = ucast (ucast w :: u8) XOR push_bit 8 (ucast (ucast (drop_bit 8 w) :: u8)) XOR
    push_bit 16 (ucast (ucast (drop_bit 16 w) :: u8)) XOR push_bit 24 (ucast (ucast (drop_bit 24 w) :: u8))"
  for w :: u32
  by (rule bit_word_eqI) (auto simp: bit_simps)

lemma from_le_4: "from_le_bytes [b0, b1, b2, b3] =
    (ucast b0 XOR push_bit 8 (ucast b1) XOR push_bit 16 (ucast b2) XOR push_bit 24 (ucast b3) :: u32)"
  by (rule bit_word_eqI) (auto simp: bit_simps dest: bit_imp_le_length)

lemma table_byte_eq: "table_byte k n w = (zero_byte ^^ Suc k) (ucast (ucast (drop_bit n w) :: u8))"
proof -
  have "drop_bit n w AND 0xFF = ucast (ucast (drop_bit n w) :: u8)"
    unfolding and_FF by (rule bit_word_eqI) (auto simp: bit_simps)
  then show ?thesis by (simp add: table_byte_def tables_eq del: funpow.simps)
qed

lemma zero_bytes_numeral:
  "(zero_byte ^^ 2) x = zero_byte (zero_byte x)" "(zero_byte ^^ 3) x = zero_byte (zero_byte (zero_byte x))"
  "(zero_byte ^^ 4) x = zero_byte (zero_byte (zero_byte (zero_byte x)))"
  by (simp_all add: eval_nat_numeral)

lemma zero_byte_bytes:
  "(zero_byte ^^ 4) w = (zero_byte ^^ 4) (ucast (ucast w :: u8)) XOR (zero_byte ^^ 3) (ucast (ucast (drop_bit 8 w) :: u8)) XOR
    (zero_byte ^^ 2) (ucast (ucast (drop_bit 16 w) :: u8)) XOR zero_byte (ucast (ucast (drop_bit 24 w) :: u8))"
  by (subst word_bytes [of w]) (simp only: zero_bytes_numeral zero_byte_xor zero_byte_push_byte)

lemma crc_ref_4: "crc_ref s [b0, b1, b2, b3] = (zero_byte ^^ 4) (s XOR from_le_bytes [b0, b1, b2, b3])"
  unfolding from_le_4 by (simp only: crc_ref_simps zero_bytes_numeral zero_byte_xor zero_byte_push_byte ac_simps)

lemma tables_low:
  "table_byte (k + 3) 0 w XOR table_byte (k + 2) 8 w XOR table_byte (k + 1) 16 w XOR table_byte k 24 w =
    (zero_byte ^^ (k + 4)) w"
proof -
  have "Suc (k + 3) = k + 4" "Suc (k + 2) = k + 3" "Suc (k + 1) = k + 2" by simp_all
  then have shift: "(zero_byte ^^ Suc (k + 3)) x = (zero_byte ^^ k) ((zero_byte ^^ 4) x)"
      "(zero_byte ^^ Suc (k + 2)) x = (zero_byte ^^ k) ((zero_byte ^^ 3) x)"
      "(zero_byte ^^ Suc (k + 1)) x = (zero_byte ^^ k) ((zero_byte ^^ 2) x)"
      "(zero_byte ^^ Suc k) x = (zero_byte ^^ k) (zero_byte x)"
      "(zero_byte ^^ (k + 4)) x = (zero_byte ^^ k) ((zero_byte ^^ 4) x)" for x
    by (simp_all only: funpow_add comp_apply funpow_swap1 funpow.simps)
  show ?thesis
    unfolding table_byte_eq shift(1-4) drop_bit_0 id_apply
    unfolding shift(5) zero_byte_bytes [of w] by (simp only: zero_bytes_xor)
qed

lemma length_8: "length xs = 8 \<Longrightarrow> \<exists>a b c d e f g h. xs = [a, b, c, d, e, f, g, h]"
  by (auto simp: eval_nat_numeral length_Suc_conv)

lemma slice_step_ref: "length chunk = 8 \<Longrightarrow> slice_step s chunk = crc_ref s chunk"
proof -
  assume "length chunk = 8"
  then obtain b0 b1 b2 b3 b4 b5 b6 b7 where chunk: "chunk = [b0, b1, b2, b3] @ [b4, b5, b6, b7]"
    using length_8 [of chunk] by auto
  let ?low = "from_le_bytes [b0, b1, b2, b3] XOR s" and ?high = "from_le_bytes [b4, b5, b6, b7] :: u32"
  have low: "table_byte 7 0 ?low XOR table_byte 6 8 ?low XOR table_byte 5 16 ?low XOR table_byte 4 24 ?low = (zero_byte ^^ 8) ?low"
    using tables_low [of 4 ?low] by simp
  have high: "table_byte 3 0 ?high XOR table_byte 2 8 ?high XOR table_byte 1 16 ?high XOR table_byte 0 24 ?high = (zero_byte ^^ 4) ?high"
    using tables_low [of 0 ?high] by (simp only: add_0)
  have "take 4 chunk = [b0, b1, b2, b3]" "drop 4 chunk = [b4, b5, b6, b7]"
    by (simp_all add: chunk)
  then have "slice_step s chunk = (table_byte 7 0 ?low XOR table_byte 6 8 ?low XOR table_byte 5 16 ?low XOR table_byte 4 24 ?low)
      XOR (table_byte 3 0 ?high XOR table_byte 2 8 ?high XOR table_byte 1 16 ?high XOR table_byte 0 24 ?high)"
    by (simp only: slice_step_def Let_def xor.assoc)
  also have "\<dots> = (zero_byte ^^ 8) ?low XOR (zero_byte ^^ 4) ?high"
    unfolding low high ..
  also have "\<dots> = (zero_byte ^^ 4) ((zero_byte ^^ 4) ?low XOR ?high)"
    by (simp add: zero_bytes_xor funpow_add [of 4 4, simplified] del: from_le_bytes.simps)
  also have "\<dots> = crc_ref s chunk"
    unfolding chunk crc_ref_append crc_ref_4 by (simp add: ac_simps del: from_le_bytes.simps)
  finally show ?thesis .
qed

lemma split_chunk_cases:
  obtains (none) "split_chunk data = None" | (chunk) c t where "split_chunk data = Some (c, t)" "data = c @ t" "length c = 8"
proof (cases "length data < 8")
  case False
  then have "split_chunk data = Some (take 8 data, drop 8 data)" by (simp add: split_chunk_def slice_def)
  with False show thesis by (intro chunk [of "take 8 data" "drop 8 data"]) simp_all
qed (simp add: none split_chunk_def slice_def)

lemma update_state_scalar_ref: "update_state_scalar s data = crc_ref s data"
proof (induction s data rule: update_state_scalar.induct)
  case (1 s data)
  have bytes: "foldl byte_step s data = crc_ref s data" for s data
    by (simp add: crc_ref_def byte_step_ref cong: foldl_cong)
  show ?case
  proof (cases data rule: split_chunk_cases)
    case none
    then show ?thesis by (simp add: update_state_scalar.simps bytes)
  next
    case (chunk c t)
    then show ?thesis
      using 1 [OF chunk(1) refl] by (subst update_state_scalar.simps) (simp add: slice_step_ref crc_ref_append)
  qed
qed

section \<open>The hardware kernel is the reference\<close>

lemma hw_chunk_ref: "length chunk = 8 \<Longrightarrow> hw_chunk s chunk = crc_ref s chunk"
proof -
  assume l: "length chunk = 8"
  have "ucast (ucast s :: u64) = s" "ucast (ucast (crc_ref s chunk) :: u64) = crc_ref s chunk"
    by (auto intro!: bit_word_eqI simp: bit_simps)
  then show ?thesis
    using to_le_from_le [of chunk 8, OF l, where 'a = 64] by (simp add: hw_chunk_def mm_crc32_u64_def crc_ref_def)
qed

lemma single_stream_ref: "single_stream s data = crc_ref s data"
proof (induction s data rule: single_stream.induct)
  case (1 s data)
  show ?case
  proof (cases data rule: split_chunk_cases)
    case none
    then show ?thesis by (simp add: single_stream.simps crc_ref_def)
  next
    case (chunk c t)
    then show ?thesis
      using 1 [OF chunk(1) refl] by (subst single_stream.simps) (simp add: hw_chunk_ref crc_ref_append)
  qed
qed

lemma lockstep_ref:
  "length ra = 8 * n \<Longrightarrow> length rb = 8 * n \<Longrightarrow> length rc = 8 * n \<Longrightarrow>
    lockstep (a, b, c) ra rb rc = (crc_ref a ra, crc_ref b rb, crc_ref c rc)"
proof (induction n arbitrary: a b c ra rb rc)
  case 0
  then show ?case by (simp add: lockstep.simps split_chunk_def slice_def)
next
  case (Suc n)
  have cut: "split_chunk xs = Some (take 8 xs, drop 8 xs)" "length (take 8 xs) = 8" "length (drop 8 xs) = 8 * n"
      "crc_ref s xs = crc_ref (crc_ref s (take 8 xs)) (drop 8 xs)"
    if "length xs = 8 * Suc n" for xs s
    using that crc_ref_append [of s "take 8 xs" "drop 8 xs"] by (simp_all add: split_chunk_def slice_def)
  show ?case
    using Suc.IH [OF cut(3) cut(3) cut(3), OF Suc.prems]
    by (subst lockstep.simps) (simp add: cut(1,4) [OF Suc.prems(1)] cut(1,4) [OF Suc.prems(2)] cut(1,4) [OF Suc.prems(3)]
      hw_chunk_ref [OF cut(2) [OF Suc.prems(1)]] hw_chunk_ref [OF cut(2) [OF Suc.prems(2)]]
      hw_chunk_ref [OF cut(2) [OF Suc.prems(3)]])
qed

section \<open>Combining registers\<close>

lemma bit_push_drop: "bit (push_bit k (drop_bit k v)) n \<longleftrightarrow> k \<le> n \<and> bit v n" for v :: u32
  by (auto simp: bit_simps dest: bit_imp_le_length)

lemma push_drop_split:
  "push_bit i (drop_bit i v) =
    (if drop_bit i v AND 1 \<noteq> 0 then push_bit i 1 else 0) XOR push_bit (i + 1) (drop_bit (i + 1) v)" for v :: u32
proof (rule bit_word_eqI)
  fix n
  assume "n < LENGTH(32)"
  moreover have "drop_bit i v AND 1 \<noteq> 0 \<longleftrightarrow> bit v i"
    by (simp add: and_one_eq mod_2_eq_odd even_drop_bit_iff_not_bit)
  moreover have "bit (push_bit i (1 :: u32)) n \<longleftrightarrow> n = i" if "n < LENGTH(32)"
    using that by (auto simp: bit_simps)
  ultimately show "bit (push_bit i (drop_bit i v)) n =
      bit ((if drop_bit i v AND 1 \<noteq> 0 then push_bit i 1 else 0) XOR push_bit (i + 1) (drop_bit (i + 1) v)) n"
    unfolding bit_xor_iff bit_push_drop by auto
qed

text \<open>The images of the basis determine a linear operator.\<close>

lemma apply_from_linear:
  assumes lin: "\<And>x y. f (x XOR y) = f x XOR f y" and m: "\<And>i. i < 32 \<Longrightarrow> m ! i = f (push_bit i 1)"
  shows "apply_from m acc (drop_bit i v) i = acc XOR f (push_bit i (drop_bit i v))"
proof (induction "32 - i" arbitrary: acc i)
  case 0
  then have "drop_bit i v = 0" by (intro bit_word_eqI) (auto simp: bit_simps)
  moreover have "f 0 = 0" using lin [of 0 0] by simp
  ultimately show ?case by (simp add: apply_from.simps)
next
  case (Suc n)
  then have i: "i < 32" by simp
  let ?acc = "if drop_bit i v AND 1 \<noteq> 0 then acc XOR m ! i else acc"
  have zero: "f 0 = 0" using lin [of 0 0] by simp
  show ?case
  proof (cases "drop_bit i v = 0")
    case True
    then show ?thesis using zero by (simp add: apply_from.simps)
  next
    case False
    then have "apply_from m acc (drop_bit i v) i = apply_from m ?acc (drop_bit (i + 1) v) (i + 1)"
      by (subst apply_from.simps) (simp add: drop_bit_drop_bit)
    also have "\<dots> = ?acc XOR f (push_bit (i + 1) (drop_bit (i + 1) v))"
      using Suc.hyps by (intro Suc.hyps(1)) simp
    also have "\<dots> = acc XOR f (push_bit i (drop_bit i v))"
      unfolding push_drop_split [of i v] lin using m [OF i] zero by (simp add: xor.assoc)
    finally show ?thesis .
  qed
qed

lemma apply_linear:
  assumes "\<And>x y. f (x XOR y) = f x XOR f y" and "m = map (\<lambda>i. f (push_bit i 1)) [0..<32]"
  shows "apply_matrix m v = f v"
  using apply_from_linear [of f m 0 0 v] assms by (simp add: apply_matrix_def)

lemma one_zero_byte_operator_eq: "one_zero_byte_operator = map (\<lambda>i. zero_byte (push_bit i 1)) [0..<32]"
  by (simp add: one_zero_byte_operator_def update_state_scalar_ref)

lemma chain_entry_eq: "chain_entry k = map (\<lambda>i. (zero_byte ^^ (2 ^ k)) (push_bit i 1)) [0..<32]"
proof (induction k)
  case 0
  then show ?case by (simp add: one_zero_byte_operator_eq)
next
  case (Suc k)
  have "apply_matrix (chain_entry k) v = (zero_byte ^^ (2 ^ k)) v" for v
    by (rule apply_linear [OF zero_bytes_xor Suc])
  then show ?case
    by (simp add: square_def Suc mult_2 funpow_add)
qed

lemma shift_from_eq: "n * 2 ^ i < 2 ^ 64 \<Longrightarrow> shift_from acc n i = (zero_byte ^^ (n * 2 ^ i)) acc"
proof (induction acc n i rule: shift_from.induct)
  case (1 acc n i)
  show ?case
  proof (cases "n = 0")
    case False
    have "2 ^ i \<le> n * 2 ^ i" using False by simp
    then have "(2 :: nat) ^ i < 2 ^ 64" using "1.prems" by linarith
    then have i: "i < 64" by (simp only: power_strict_increasing_iff)
    have chain: "apply_matrix (doubling_chain ! i) v = (zero_byte ^^ (2 ^ i)) v" for v
      using i by (simp add: doubling_chain_def apply_linear [OF zero_bytes_xor chain_entry_eq])
    have n: "n * 2 ^ i = n div 2 * 2 ^ (i + 1) + (if odd n then 2 ^ i else 0)"
      using div_mult_mod_eq [of n 2] by (cases "even n") (auto elim!: evenE oddE simp: algebra_simps)
    have "shift_from acc n i = shift_from (if odd n then apply_matrix (doubling_chain ! i) acc else acc) (n div 2) (i + 1)"
      using False by (subst shift_from.simps) simp
    also have "\<dots> = (zero_byte ^^ (n div 2 * 2 ^ (i + 1))) (if odd n then apply_matrix (doubling_chain ! i) acc else acc)"
      using "1.prems" n by (intro "1.IH" [OF False]) linarith
    also have "\<dots> = (zero_byte ^^ (n * 2 ^ i)) acc"
      unfolding n by (simp add: chain funpow_add)
    finally show ?thesis .
  qed (simp add: shift_from.simps)
qed

lemma combine_ref: "length ys < 2 ^ 64 \<Longrightarrow> combine s (crc_ref 0 ys) (length ys) = crc_ref s ys"
  using crc_ref_xor [of 0 s ys] shift_from_eq [of "length ys" 0 s]
  by (simp add: combine_def shift_zero_bytes_def ac_simps)

lemma interleaved_ref:
  assumes "length data < 2 ^ 64"
  shows "interleaved s data = crc_ref s data"
proof (cases "length data div 3 div 8 * 8 = 0")
  case True
  then show ?thesis by (simp add: interleaved_def Let_def single_stream_ref)
next
  case False
  define third where "third = length data div 3 div 8 * 8"
  define a b c d where "a = take third data" and "b = take third (drop third data)"
    and "c = take third (drop third (drop third data))" and "d = drop third (drop third (drop third data))"
  have "third * 3 \<le> length data" unfolding third_def by linarith
  then have len: "length a = third" "length b = third" "length c = third"
    by (simp_all add: a_def b_def c_def)
  have data: "data = a @ b @ c @ d"
    unfolding a_def b_def c_def d_def by (simp only: append_take_drop_id)
  have "third < 2 ^ 64" using assms len data by simp
  then have comb: "combine t (crc_ref 0 b) third = crc_ref t b" "combine t (crc_ref 0 c) third = crc_ref t c" for t
    using combine_ref [of b t] combine_ref [of c t] len by simp_all
  have "lockstep (s, 0, 0) a b c = (crc_ref s a, crc_ref 0 b, crc_ref 0 c)"
    by (rule lockstep_ref [of _ "length data div 3 div 8"]) (simp_all add: len third_def)
  then have "interleaved s data = crc_ref (crc_ref (crc_ref (crc_ref s a) b) c) d"
    using False by (simp add: interleaved_def Let_def single_stream_ref comb
      third_def [symmetric] a_def [symmetric] b_def [symmetric] c_def [symmetric] d_def [symmetric] del: drop_drop)
  then show ?thesis unfolding data crc_ref_append .
qed

lemma update_state_ref: "length data < 2 ^ 64 \<Longrightarrow> update_state hw s data = crc_ref s data"
  by (simp add: update_state_def update_state_hw_def update_state_scalar_ref single_stream_ref interleaved_ref)

section \<open>Damage in four consecutive bytes\<close>

lemma crc_bit_eq_0: "crc_bit c = 0 \<Longrightarrow> c = 0"
proof (cases "odd c")
  case True
  assume "crc_bit c = 0"
  then have "drop_bit 1 c = crc32c_polynomial"
    using True by (simp only: crc_bit_odd if_True xor_eq_0 not_False_eq_True)
  then have "bit (drop_bit 1 c) 31 = bit crc32c_polynomial 31" by simp
  moreover have "bit crc32c_polynomial 31" by (simp add: crc32c_polynomial_def)
  moreover have "\<not> bit (drop_bit 1 c) 31"
    using bit_imp_le_length [of c 32] by (auto simp: bit_drop_bit_eq)
  ultimately show "c = 0" by simp
next
  case False
  assume "crc_bit c = 0"
  then have "drop_bit 1 c = 0" using False by (simp add: crc_bit_odd)
  moreover have "take_bit 1 c = 0" using False by (simp only: take_bit_eq_mod power_one_right even_iff_mod_2_eq_zero not_not)
  ultimately show "c = 0" using bits_ident [of 1 c] by simp
qed

lemma zero_byte_inj: "(zero_byte ^^ n) a = (zero_byte ^^ n) b \<longleftrightarrow> a = b"
proof -
  have bits: "(crc_bit ^^ k) c = 0 \<Longrightarrow> c = 0" for k c
    by (induction k) (auto dest: crc_bit_eq_0)
  have zero: "(zero_byte ^^ n) c = 0 \<Longrightarrow> c = 0" for c
    by (induction n) (auto simp: zero_byte_def dest: bits)
  show ?thesis
    using zero [of "a XOR b"] by (auto simp: zero_bytes_xor xor_eq_0)
qed

lemma crc_ref_quad: "length xs = 4 \<Longrightarrow> crc_ref s xs = (zero_byte ^^ 4) (s XOR from_le_bytes xs)"
proof -
  assume "length xs = 4"
  then obtain a b c d where xs: "xs = [a, b, c, d]"
    by (auto simp: eval_nat_numeral length_Suc_conv)
  show ?thesis unfolding xs crc_ref_4 ..
qed

lemma crc_ref_inj_4:
  assumes "length v = 4" and "length w = 4" and "crc_ref s v = crc_ref s w"
  shows "v = w"
proof -
  have "(zero_byte ^^ 4) (s XOR from_le_bytes v) = (zero_byte ^^ 4) (s XOR from_le_bytes w)"
    using assms(3) crc_ref_quad [OF assms(1), of s] crc_ref_quad [OF assms(2), of s] by argo
  then have le: "(from_le_bytes v :: u32) = from_le_bytes w"
    by (rule zero_byte_inj [THEN iffD1, THEN xor_cancel [THEN iffD1]])
  have fits: "8 * 4 \<le> LENGTH(32)" by simp
  show ?thesis
    using to_le_from_le [OF assms(1) fits] to_le_from_le [OF assms(2) fits] unfolding le by (rule trans [OF sym])
qed

lemma crc_ref_state_inj: "crc_ref s ys = crc_ref t ys \<longleftrightarrow> s = t"
proof -
  have "s XOR (s XOR t) = t" by (metis xor.assoc xor.left_neutral xor_self_eq)
  then have "crc_ref t ys = crc_ref s ys XOR (zero_byte ^^ length ys) (s XOR t)"
    using crc_ref_xor [of s "s XOR t" ys] by simp
  then have "crc_ref s ys = crc_ref t ys \<longleftrightarrow> (zero_byte ^^ length ys) (s XOR t) = 0"
    using xor_cancel [of "crc_ref s ys" 0] by auto
  also have "\<dots> \<longleftrightarrow> s XOR t = 0"
    using zero_byte_inj [of "length ys" "s XOR t" 0] by simp
  finally show ?thesis by (simp add: xor_eq_0)
qed

lemma crc_ref_burst:
  assumes "length v = length w" and "length v \<le> 4" and "crc_ref s (xs @ v @ ys) = crc_ref s (xs @ w @ ys)"
  shows "v = w"
proof -
  let ?z = "replicate (4 - length v) 0 :: u8 list"
  have "crc_ref (crc_ref s xs) v = crc_ref (crc_ref s xs) w"
    using assms(3) by (simp add: crc_ref_append crc_ref_state_inj)
  then have "crc_ref (crc_ref s xs) (v @ ?z) = crc_ref (crc_ref s xs) (w @ ?z)"
    by (simp add: crc_ref_append)
  then have "v @ ?z = w @ ?z"
    using assms(1,2) by (intro crc_ref_inj_4) simp_all
  then show ?thesis by simp
qed

section \<open>Properties\<close>

text \<open>
  C19: Every kernel computes the same checksum. For every buffer the machine can hold, the
  slice-by-8 tables, the hardware instructions and the three interleaved streams that are put
  together with the cached powers of the zero-byte operator leave the register that dividing by
  the polynomial bit by bit leaves; and a checksum can be resumed at any point of a stream, on
  another kernel too.
\<close>

theorem crc_kernels_agree:
  assumes "length xs + length ys < 2 ^ 64"
  shows "update_state hw s (xs @ ys) = foldl (\<lambda>r b :: u8. (crc_bit ^^ 8) (r XOR ucast b)) s (xs @ ys) \<and>
    crc32c_append hw (crc32c hw' xs) ys = crc32c hw'' (xs @ ys)"
proof -
  have "(\<lambda>r b. (crc_bit ^^ 8) (r XOR ucast b)) = mm_crc32_u8"
    by (simp add: fun_eq_iff mm_crc32_u8_def)
  then show ?thesis
    using assms by (simp add: crc32c_append_def crc32c_def update_state_ref crc_ref_append)
      (simp add: crc_ref_def)
qed

lemma crc_lengths: "length [1, 2, 3 :: u8] + length [4 :: u8] < 2 ^ 64" "length [1, 2, 3, 4, 5 :: u8] < 2 ^ 64"
  by simp_all

theorem crc_kernels_agree_witness:
  "update_state True (- 1) ([1, 2, 3] @ [4]) = foldl (\<lambda>r b :: u8. (crc_bit ^^ 8) (r XOR ucast b)) (- 1) ([1, 2, 3] @ [4]) \<and>
    crc32c_append False (crc32c True [1, 2, 3]) [4] = crc32c False ([1, 2, 3] @ [4])"
  using crc_kernels_agree [of "[1, 2, 3]" "[4]" True "- 1" True False]
    crc_kernels_agree [of "[1, 2, 3]" "[4]" False "- 1" True False] crc_lengths
  by blast

text \<open>
  The checksum detects every damage that is confined to four consecutive bytes: two buffers
  that differ only there have different checksums.
\<close>

lemma crc_detects_bursts:
  assumes "length v = length w" and "length v \<le> 4" and "v \<noteq> w" and "length (xs @ v @ ys) < 2 ^ 64"
  shows "crc32c hw (xs @ v @ ys) \<noteq> crc32c hw' (xs @ w @ ys)"
  using crc_ref_burst [of v w "- 1" xs ys] assms
  by (auto simp: crc32c_def crc32c_append_def update_state_ref)

lemma crc_detects_bursts_witness: "crc32c True [1, 2, 3, 4, 5] \<noteq> crc32c True [1, 9, 3, 8, 5]"
  using crc_detects_bursts [of "[2, 3, 4]" "[9, 3, 8]" "[1]" "[5]" True True] crc_lengths(2)
  by (simp only: append_Cons append_Nil list.size numeral_eq_one_iff) simp

end
