(* ===== verification/Wire_Frame.thy ===== *)
theory Wire_Frame
  imports Wire_Crc Wire_Metadata
begin

text \<open>
  The frame layer of \<^verbatim>\<open>crates/astrs-wire/src\<close>: frame kinds, flags, headers and limits
  (\<^verbatim>\<open>frame/kind.rs\<close>, \<^verbatim>\<open>flags.rs\<close>, \<^verbatim>\<open>header.rs\<close>, \<^verbatim>\<open>limits.rs\<close>), writing and decoding of
  frames (\<^verbatim>\<open>frame/mod.rs\<close>), the typed codec on top (\<^verbatim>\<open>codec.rs\<close>) and the errors of all of
  them (\<^verbatim>\<open>error.rs\<close>).

  A buffer is a list of bytes; the \<^verbatim>\<open>Vec\<close> that the writers append to is threaded through
  them, so that what an error leaves in it is visible. The payload codec is a third-party
  crate: its size, encode and decode functions are the fields of a record that the operations
  take, and its errors are a type variable. \<^verbatim>\<open>usize\<close> has 64 bits.
\<close>

unbundle bit_operations_syntax

section \<open>Kinds\<close>

datatype frame_kind = Control | ControlReply | CoordinatorEvent | DaemonEvent | NodeRequest | NodeEvent
  | PeerEvent | DataFrame | LogFrame | Telemetry

fun kind_as_u16 :: "frame_kind \<Rightarrow> u16" where
  "kind_as_u16 Control = 0"
| "kind_as_u16 ControlReply = 1"
| "kind_as_u16 CoordinatorEvent = 2"
| "kind_as_u16 DaemonEvent = 3"
| "kind_as_u16 NodeRequest = 4"
| "kind_as_u16 NodeEvent = 5"
| "kind_as_u16 PeerEvent = 6"
| "kind_as_u16 DataFrame = 7"
| "kind_as_u16 LogFrame = 8"
| "kind_as_u16 Telemetry = 9"

definition is_bulk :: "frame_kind \<Rightarrow> bool" where
  "is_bulk k \<longleftrightarrow> k \<in> {DataFrame, LogFrame, Telemetry}"

definition is_control_plane :: "frame_kind \<Rightarrow> bool" where
  "is_control_plane k \<longleftrightarrow> \<not> is_bulk k"

section \<open>Errors\<close>

datatype compression = NoCompression | Lz4 | Zstd

definition compression_is_enabled :: "compression \<Rightarrow> bool" where
  "compression_is_enabled c \<longleftrightarrow> c \<noteq> NoCompression"

datatype 'x auth_token_error = BadLength nat nat | NotLowercaseHex nat nat | RandomnessUnavailable 'x

datatype 'x wire_error =
    BadMagic "u8 list" "u8 list"
  | UnsupportedFrameVersion u8 u8
  | UnknownKind u16
  | ReservedFlags u8 u8
  | ConflictingCompression
  | CompressedPayload compression
  | MissingCrc
  | FrameTooLarge nat nat
  | Truncated nat nat
  | CrcMismatch u32 u32
  | TrailingBytes nat nat
  | SizeHintMismatch nat nat
  | KindMismatch frame_kind frame_kind
  | Codec 'x
  | Io 'x
  | WireId id_error
  | WireAuth "'x auth_token_error"

fun is_protocol_violation :: "'x wire_error \<Rightarrow> bool" where
  "is_protocol_violation (Io _) = False"
| "is_protocol_violation (SizeHintMismatch _ _) = False"
| "is_protocol_violation _ = True"

fun is_incomplete :: "'x wire_error \<Rightarrow> bool" where
  "is_incomplete (Truncated _ _) = True"
| "is_incomplete _ = False"

definition kind_from_u16 :: "u16 \<Rightarrow> 'x wire_error + frame_kind" where
  "kind_from_u16 v =
    (if v = 0 then Inr Control else if v = 1 then Inr ControlReply else if v = 2 then Inr CoordinatorEvent
     else if v = 3 then Inr DaemonEvent else if v = 4 then Inr NodeRequest else if v = 5 then Inr NodeEvent
     else if v = 6 then Inr PeerEvent else if v = 7 then Inr DataFrame else if v = 8 then Inr LogFrame
     else if v = 9 then Inr Telemetry else Inl (UnknownKind v))"

section \<open>Flags\<close>

type_synonym frame_flags = u8

definition flags_empty :: frame_flags where
  "flags_empty = 0"

definition flag_crc :: frame_flags where
  "flag_crc = 1"

definition flag_lz4 :: frame_flags where
  "flag_lz4 = 2"

definition flag_zstd :: frame_flags where
  "flag_zstd = 4"

definition known_mask :: u8 where
  "known_mask = 7"

definition compression_mask :: u8 where
  "compression_mask = 6"

definition flags_from_bits :: "u8 \<Rightarrow> 'x wire_error + frame_flags" where
  "flags_from_bits bits =
    (let reserved = bits AND NOT known_mask
     in if reserved \<noteq> 0 then Inl (ReservedFlags bits reserved)
        else if bits AND compression_mask = compression_mask then Inl ConflictingCompression
        else Inr bits)"

definition flags_from_bits_truncate :: "u8 \<Rightarrow> frame_flags" where
  "flags_from_bits_truncate bits = bits AND known_mask"

definition flags_contains :: "frame_flags \<Rightarrow> frame_flags \<Rightarrow> bool" where
  "flags_contains f g \<longleftrightarrow> f AND g = g"

definition flags_is_empty :: "frame_flags \<Rightarrow> bool" where
  "flags_is_empty f \<longleftrightarrow> f = 0"

definition flags_has_crc :: "frame_flags \<Rightarrow> bool" where
  "flags_has_crc f = flags_contains f flag_crc"

definition flags_with_crc :: "bool \<Rightarrow> frame_flags \<Rightarrow> frame_flags" where
  "flags_with_crc enabled f = (if enabled then f OR flag_crc else f AND NOT flag_crc)"

definition flags_compression :: "frame_flags \<Rightarrow> compression" where
  "flags_compression f =
    (if f AND flag_lz4 \<noteq> 0 then Lz4 else if f AND flag_zstd \<noteq> 0 then Zstd else NoCompression)"

definition flags_with_compression :: "compression \<Rightarrow> frame_flags \<Rightarrow> frame_flags" where
  "flags_with_compression c f =
    (let cleared = f AND NOT compression_mask
     in case c of NoCompression \<Rightarrow> cleared | Lz4 \<Rightarrow> cleared OR flag_lz4 | Zstd \<Rightarrow> cleared OR flag_zstd)"

definition flags_sub :: "frame_flags \<Rightarrow> frame_flags \<Rightarrow> frame_flags" where
  "flags_sub f g = f AND NOT g"

section \<open>Limits\<close>

definition max_supported_payload_bytes :: nat where
  "max_supported_payload_bytes = u32_max"

definition default_max_payload_bytes :: nat where
  "default_max_payload_bytes = 64 * 1024 * 1024"

record frame_limits =
  max_payload_bytes :: nat
  require_crc :: bool

definition limits_new :: frame_limits where
  "limits_new = \<lparr> max_payload_bytes = default_max_payload_bytes, require_crc = False \<rparr>"

definition limits_network :: frame_limits where
  "limits_network = \<lparr> max_payload_bytes = default_max_payload_bytes, require_crc = True \<rparr>"

definition limits_uds :: frame_limits where
  "limits_uds = limits_new"

definition with_max_payload_bytes :: "nat \<Rightarrow> frame_limits \<Rightarrow> frame_limits" where
  "with_max_payload_bytes bytes l = l \<lparr> max_payload_bytes :=
     (if max_supported_payload_bytes < bytes then max_supported_payload_bytes else bytes) \<rparr>"

definition with_require_crc :: "bool \<Rightarrow> frame_limits \<Rightarrow> frame_limits" where
  "with_require_crc required l = l \<lparr> require_crc := required \<rparr>"

definition check_payload_len :: "frame_limits \<Rightarrow> nat \<Rightarrow> 'x wire_error + unit" where
  "check_payload_len l len =
    (if max_payload_bytes l < len then Inl (FrameTooLarge len (max_payload_bytes l)) else Inr ())"

definition limits_intersect :: "frame_limits \<Rightarrow> frame_limits \<Rightarrow> frame_limits" where
  "limits_intersect l m =
    \<lparr> max_payload_bytes = (if max_payload_bytes l < max_payload_bytes m then max_payload_bytes l else max_payload_bytes m),
      require_crc = (require_crc l \<or> require_crc m) \<rparr>"

section \<open>Headers\<close>

definition magic :: "u8 list" where
  "magic = [65, 83]"

definition frame_version :: u8 where
  "frame_version = 1"

definition header_len :: nat where
  "header_len = 10"

definition crc_len :: nat where
  "crc_len = 4"

definition max_frame_bytes :: "frame_limits \<Rightarrow> nat" where
  "max_frame_bytes l = header_len + max_payload_bytes l + crc_len"

record frame_header =
  fh_version :: u8
  fh_flags :: frame_flags
  fh_kind :: frame_kind
  fh_payload_len :: u32

definition header_new :: "frame_kind \<Rightarrow> frame_flags \<Rightarrow> u32 \<Rightarrow> frame_header" where
  "header_new kind flags len = \<lparr> fh_version = frame_version, fh_flags = flags, fh_kind = kind, fh_payload_len = len \<rparr>"

definition payload_len_usize :: "frame_header \<Rightarrow> 'x wire_error + nat" where
  "payload_len_usize h =
    (if u64_max < unat (fh_payload_len h) then Inl (FrameTooLarge u64_max u64_max) else Inr (unat (fh_payload_len h)))"

definition has_crc :: "frame_header \<Rightarrow> bool" where
  "has_crc h = flags_has_crc (fh_flags h)"

definition trailer_len :: "frame_header \<Rightarrow> nat" where
  "trailer_len h = (if has_crc h then crc_len else 0)"

definition total_len :: "frame_header \<Rightarrow> nat" where
  "total_len h = header_len + unat (fh_payload_len h) + trailer_len h"

definition header_to_bytes :: "frame_header \<Rightarrow> u8 list" where
  "header_to_bytes h =
    magic @ [fh_version h, fh_flags h] @ to_le_bytes 2 (kind_as_u16 (fh_kind h)) @ to_le_bytes 4 (fh_payload_len h)"

definition write_into :: "frame_header \<Rightarrow> u8 list \<Rightarrow> ('x wire_error, unit, u8 list) outcome" where
  "write_into h dst =
    (if length dst < header_len then err (Truncated header_len (length dst)) dst
     else ok () (header_to_bytes h @ drop header_len dst))"

definition header_parse :: "u8 list \<Rightarrow> 'x wire_error + frame_header" where
  "header_parse bytes =
    (if length bytes < header_len then Inl (Truncated header_len (length bytes))
     else let header = take header_len bytes
     in if take 2 header \<noteq> magic then Inl (BadMagic magic (take 2 header))
        else if header ! 2 \<noteq> frame_version then Inl (UnsupportedFrameVersion (header ! 2) frame_version)
        else case flags_from_bits (header ! 3) of
            Inl e \<Rightarrow> Inl e
          | Inr flags \<Rightarrow> (case kind_from_u16 (from_le_bytes [header ! 4, header ! 5]) of
                Inl e \<Rightarrow> Inl e
              | Inr kind \<Rightarrow> Inr \<lparr> fh_version = header ! 2, fh_flags = flags, fh_kind = kind,
                  fh_payload_len = from_le_bytes [header ! 6, header ! 7, header ! 8, header ! 9] \<rparr>))"

section \<open>Frames\<close>

record frame =
  f_header :: frame_header
  f_payload :: "u8 list"

definition frame_new :: "frame_kind \<Rightarrow> frame_flags \<Rightarrow> u8 list \<Rightarrow> 'x wire_error + frame" where
  "frame_new kind flags payload =
    (if u32_max < length payload then Inl (FrameTooLarge (length payload) max_supported_payload_bytes)
     else Inr \<lparr> f_header = header_new kind flags (word_of_nat (length payload)), f_payload = payload \<rparr>)"

definition expect_kind :: "frame_kind \<Rightarrow> frame \<Rightarrow> 'x wire_error + unit" where
  "expect_kind expected v =
    (let found = fh_kind (f_header v) in if found = expected then Inr () else Inl (KindMismatch expected found))"

definition reject_compression :: "frame_flags \<Rightarrow> 'x wire_error + unit" where
  "reject_compression flags =
    (let c = flags_compression flags in if compression_is_enabled c then Inl (CompressedPayload c) else Inr ())"

definition write_frame ::
    "bool \<Rightarrow> frame_kind \<Rightarrow> frame_flags \<Rightarrow> u8 list \<Rightarrow> frame_limits \<Rightarrow> u8 list \<Rightarrow> ('x wire_error, nat, u8 list) outcome" where
  "write_frame hw kind flags payload limits out = (case check_payload_len limits (length payload) of
      Inl e \<Rightarrow> err e out
    | Inr _ \<Rightarrow>
        if u32_max < length payload then err (FrameTooLarge (length payload) max_supported_payload_bytes) out
        else let header = header_new kind flags (word_of_nat (length payload));
                 header_bytes = header_to_bytes header;
                 out = out @ header_bytes @ payload;
                 out = (if flags_has_crc flags
                        then out @ to_le_bytes 4 (crc_finalize (crc_chain hw (crc_chain hw crc_new header_bytes) payload))
                        else out)
             in ok (total_len header) out)"

definition encode_frame :: "bool \<Rightarrow> frame_kind \<Rightarrow> frame_flags \<Rightarrow> u8 list \<Rightarrow> frame_limits \<Rightarrow> 'x wire_error + u8 list" where
  "encode_frame hw kind flags payload limits = (case write_frame hw kind flags payload limits [] of
      (Inl e, _) \<Rightarrow> Inl e
    | (Inr _, out) \<Rightarrow> Inr out)"

definition decode_frame_prefix :: "bool \<Rightarrow> u8 list \<Rightarrow> frame_limits \<Rightarrow> 'x wire_error + frame" where
  "decode_frame_prefix hw buf limits = (case header_parse buf of
      Inl e \<Rightarrow> Inl e
    | Inr header \<Rightarrow> (case payload_len_usize header of
          Inl e \<Rightarrow> Inl e
        | Inr payload_len \<Rightarrow> (case check_payload_len limits payload_len of
              Inl e \<Rightarrow> Inl e
            | Inr _ \<Rightarrow>
                if require_crc limits \<and> \<not> has_crc header then Inl MissingCrc
                else let total = total_len header
                in if length buf < total then Inl (Truncated total (length buf))
                   else let payload = take payload_len (drop header_len buf);
                            expected = from_le_bytes (take crc_len (drop (header_len + payload_len) buf));
                            computed = crc32c hw (take (header_len + payload_len) buf)
                        in if has_crc header \<and> expected \<noteq> computed then Inl (CrcMismatch expected computed)
                           else Inr \<lparr> f_header = header, f_payload = payload \<rparr>)))"

definition decode_frame :: "bool \<Rightarrow> u8 list \<Rightarrow> frame_limits \<Rightarrow> 'x wire_error + frame" where
  "decode_frame hw buf limits = (case decode_frame_prefix hw buf limits of
      Inl e \<Rightarrow> Inl e
    | Inr view \<Rightarrow>
        let consumed = total_len (f_header view)
        in if consumed \<noteq> length buf then Inl (TrailingBytes consumed (length buf - consumed)) else Inr view)"

definition frame_encode_into :: "bool \<Rightarrow> frame \<Rightarrow> frame_limits \<Rightarrow> u8 list \<Rightarrow> ('x wire_error, nat, u8 list) outcome" where
  "frame_encode_into hw f limits out =
    write_frame hw (fh_kind (f_header f)) (fh_flags (f_header f)) (f_payload f) limits out"

section \<open>Typed messages\<close>

text \<open>
  What the payload codec does with a message: its size, the bytes written and whether the
  encoder failed after them, and what a decoder reads off a buffer and how much of it.
\<close>

record ('m, 'x) codec =
  encoded_size :: "'m \<Rightarrow> 'x + nat"
  encode_into_writer :: "'m \<Rightarrow> ('x + unit) \<times> u8 list"
  decode_from_slice :: "u8 list \<Rightarrow> 'x + ('m \<times> nat)"

definition encode_size_hint :: "('m, 'x) codec \<Rightarrow> 'm \<Rightarrow> 'x wire_error + nat" where
  "encode_size_hint c m = (case encoded_size c m of Inl e \<Rightarrow> Inl (Codec e) | Inr n \<Rightarrow> Inr n)"

definition encode_presized :: "('m, 'x) codec \<Rightarrow> 'm \<Rightarrow> u8 list \<Rightarrow> ('x wire_error, nat, u8 list) outcome" where
  "encode_presized c m out = (case encode_size_hint c m of
      Inl e \<Rightarrow> err e out
    | Inr hint \<Rightarrow>
        let start = length out; (result, bytes) = encode_into_writer c m; out = out @ bytes
        in case result of
            Inl e \<Rightarrow> err (Codec e) (take start out)
          | Inr _ \<Rightarrow>
              let written = length out - start
              in if written \<noteq> hint then err (SizeHintMismatch hint written) (take start out)
                 else ok written out)"

definition encode_to_vec :: "('m, 'x) codec \<Rightarrow> 'm \<Rightarrow> 'x wire_error + u8 list" where
  "encode_to_vec c m = (case encode_size_hint c m of
      Inl e \<Rightarrow> Inl e
    | Inr hint \<Rightarrow> (case encode_presized c m [] of (Inl e, _) \<Rightarrow> Inl e | (Inr _, out) \<Rightarrow> Inr out))"

definition decode_prefix :: "('m, 'x) codec \<Rightarrow> u8 list \<Rightarrow> 'x wire_error + ('m \<times> nat)" where
  "decode_prefix c bytes = (case decode_from_slice c bytes of Inl e \<Rightarrow> Inl (Codec e) | Inr r \<Rightarrow> Inr r)"

definition decode_exact :: "('m, 'x) codec \<Rightarrow> u8 list \<Rightarrow> 'x wire_error + 'm" where
  "decode_exact c bytes = (case decode_prefix c bytes of
      Inl e \<Rightarrow> Inl e
    | Inr (v, consumed) \<Rightarrow>
        if consumed \<noteq> length bytes then Inl (TrailingBytes consumed (length bytes - consumed)) else Inr v)"

definition view_decode :: "('m, 'x) codec \<Rightarrow> frame \<Rightarrow> 'x wire_error + 'm" where
  "view_decode c v = (case reject_compression (fh_flags (f_header v)) of
      Inl e \<Rightarrow> Inl e
    | Inr _ \<Rightarrow> decode_exact c (f_payload v))"

definition decode_as :: "('m, 'x) codec \<Rightarrow> frame_kind \<Rightarrow> frame \<Rightarrow> 'x wire_error + 'm" where
  "decode_as c expected v = (case expect_kind expected v of Inl e \<Rightarrow> Inl e | Inr _ \<Rightarrow> view_decode c v)"

definition from_message ::
    "('m, 'x) codec \<Rightarrow> frame_kind \<Rightarrow> frame_flags \<Rightarrow> 'm \<Rightarrow> frame_limits \<Rightarrow> 'x wire_error + frame" where
  "from_message c kind flags m limits = (case reject_compression flags of
      Inl e \<Rightarrow> Inl e
    | Inr _ \<Rightarrow> (case encode_size_hint c m of
          Inl e \<Rightarrow> Inl e
        | Inr hint \<Rightarrow> (case check_payload_len limits hint of
              Inl e \<Rightarrow> Inl e
            | Inr _ \<Rightarrow> (case encode_presized c m [] of
                  (Inl e, _) \<Rightarrow> Inl e
                | (Inr _, payload) \<Rightarrow> frame_new kind flags payload))))"

text \<open>The part of \<^verbatim>\<open>write_message\<close> after the payload has been encoded behind the header's place.\<close>

definition finish_message ::
    "bool \<Rightarrow> frame_kind \<Rightarrow> frame_flags \<Rightarrow> frame_limits \<Rightarrow> nat \<Rightarrow> nat \<Rightarrow> u8 list \<Rightarrow> ('x wire_error, nat, u8 list) outcome" where
  "finish_message hw kind flags limits start payload_len out = (case check_payload_len limits payload_len of
      Inl e \<Rightarrow> err e (take start out)
    | Inr _ \<Rightarrow>
        if u32_max < payload_len
        then err (FrameTooLarge payload_len max_supported_payload_bytes) (take start out)
        else (case write_into (header_new kind flags (word_of_nat payload_len)) (drop start out) of
            (Inl e, _) \<Rightarrow> err e (take start out)
          | (Inr _, framed) \<Rightarrow>
              let out = take start out @ framed
              in if flags_has_crc flags
                 then if length out < start + header_len + payload_len
                      then err (Truncated (header_len + payload_len) (length out - start)) (take start out)
                      else let out' = out @ to_le_bytes 4 (crc32c hw (take (header_len + payload_len) (drop start out)))
                           in ok (length out' - start) out'
                 else ok (length out - start) out))"

definition write_message ::
    "bool \<Rightarrow> ('m, 'x) codec \<Rightarrow> frame_kind \<Rightarrow> frame_flags \<Rightarrow> 'm \<Rightarrow> frame_limits \<Rightarrow> u8 list \<Rightarrow> ('x wire_error, nat, u8 list) outcome" where
  "write_message hw c kind flags m limits out = (case reject_compression flags of
      Inl e \<Rightarrow> err e out
    | Inr _ \<Rightarrow> (case encode_size_hint c m of
          Inl e \<Rightarrow> err e out
        | Inr hint \<Rightarrow> (case check_payload_len limits hint of
              Inl e \<Rightarrow> err e out
            | Inr _ \<Rightarrow>
                let start = length out
                in case encode_presized c m (out @ replicate header_len 0) of
                    (Inl e, out') \<Rightarrow> err e (take start out')
                  | (Inr payload_len, out') \<Rightarrow> finish_message hw kind flags limits start payload_len out')))"

definition encode_message ::
    "bool \<Rightarrow> ('m, 'x) codec \<Rightarrow> frame_kind \<Rightarrow> frame_flags \<Rightarrow> 'm \<Rightarrow> frame_limits \<Rightarrow> 'x wire_error + u8 list" where
  "encode_message hw c kind flags m limits = (case write_message hw c kind flags m limits [] of
      (Inl e, _) \<Rightarrow> Inl e
    | (Inr _, out) \<Rightarrow> Inr out)"

section \<open>Headers and their bytes\<close>

lemma kind_from_as [simp]: "kind_from_u16 (kind_as_u16 k) = Inr k"
  by (cases k) (simp_all add: kind_from_u16_def)

lemma kind_as_from: "kind_from_u16 v = Inr k \<Longrightarrow> kind_as_u16 k = v"
  by (auto simp: kind_from_u16_def split: if_splits)

text \<open>The flags that \<^verbatim>\<open>from_bits\<close> lets through, and the headers that a peer of this version sends.\<close>

definition flags_ok :: "frame_flags \<Rightarrow> bool" where
  "flags_ok f \<longleftrightarrow> f AND NOT known_mask = 0 \<and> f AND compression_mask \<noteq> compression_mask"

definition header_ok :: "frame_header \<Rightarrow> bool" where
  "header_ok h \<longleftrightarrow> fh_version h = frame_version \<and> flags_ok (fh_flags h)"

lemma flags_from_bits_ok: "flags_from_bits b = Inr f \<longleftrightarrow> f = b \<and> flags_ok b"
  by (auto simp: flags_from_bits_def flags_ok_def Let_def)

lemma flags_from_bits_simp: "flags_ok b \<Longrightarrow> flags_from_bits b = Inr b"
  by (simp add: flags_from_bits_ok)

lemma length_magic [simp]: "length magic = 2"
  by (simp add: magic_def)

lemma length_header_to_bytes [simp]: "length (header_to_bytes h) = header_len"
  by (simp add: header_to_bytes_def header_len_def)

lemma header_bytes_unfold:
  "header_to_bytes h = [65, 83, fh_version h, fh_flags h] @ to_le_bytes 2 (kind_as_u16 (fh_kind h)) @ to_le_bytes 4 (fh_payload_len h)"
  by (simp add: header_to_bytes_def magic_def)

lemma length_10: "length xs = 10 \<Longrightarrow> \<exists>a b c d e f g h i j. xs = [a, b, c, d, e, f, g, h, i, j]"
  by (auto simp: eval_nat_numeral length_Suc_conv)

lemma to_le_2: "\<exists>a b. to_le_bytes 2 w = [a, b]"
  using length_to_le [of 2 w] by (auto simp: eval_nat_numeral length_Suc_conv)

lemma to_le_4: "\<exists>a b c d. to_le_bytes 4 w = [a, b, c, d]"
  using length_to_le [of 4 w] by (auto simp: eval_nat_numeral length_Suc_conv)

lemma header_parse_print:
  assumes "header_ok h"
  shows "header_parse (header_to_bytes h @ rest) = Inr h"
proof -
  obtain a b where k: "to_le_bytes 2 (kind_as_u16 (fh_kind h)) = [a, b]" using to_le_2 by blast
  obtain c d e f where l: "to_le_bytes 4 (fh_payload_len h) = [c, d, e, f]" using to_le_4 by blast
  have "from_le_bytes [a, b] = kind_as_u16 (fh_kind h)"
    using from_le_to_le_self [of 2 "kind_as_u16 (fh_kind h)"] unfolding k by simp
  moreover have "from_le_bytes [c, d, e, f] = fh_payload_len h"
    using from_le_to_le_self [of 4 "fh_payload_len h"] unfolding l by simp
  moreover have "take header_len (header_to_bytes h @ rest) = [65, 83, frame_version, fh_flags h, a, b, c, d, e, f]"
    using assms by (simp add: header_bytes_unfold k l header_len_def header_ok_def)
  moreover have "\<not> length (header_to_bytes h @ rest) < header_len" by simp
  ultimately show ?thesis
    using assms
    by (simp add: header_parse_def Let_def magic_def header_ok_def flags_from_bits_simp del: from_le_bytes.simps take_append)
qed

lemma header_print_parse:
  assumes "(header_parse buf :: 'x wire_error + frame_header) = Inr h"
  shows "header_ok h \<and> header_len \<le> length buf \<and> take header_len buf = header_to_bytes h"
proof -
  have len: "header_len \<le> length buf"
    using assms by (auto simp: header_parse_def split: if_splits)
  then obtain m n v g a b c d e f where t: "take header_len buf = [m, n, v, g, a, b, c, d, e, f]"
    using length_10 [of "take header_len buf"] by (auto simp: header_len_def)
  obtain kind where h: "[m, n] = magic" "v = frame_version" "flags_ok g"
      "(kind_from_u16 (from_le_bytes [a, b]) :: 'x wire_error + frame_kind) = Inr kind"
      "h = \<lparr> fh_version = v, fh_flags = g, fh_kind = kind, fh_payload_len = from_le_bytes [c, d, e, f] \<rparr>"
    using assms len unfolding header_parse_def Let_def t
    by (auto simp: flags_from_bits_ok simp del: from_le_bytes.simps split: if_splits sum.splits)
  have "to_le_bytes 2 (kind_as_u16 kind) = [a, b]"
    using kind_as_from [OF h(4)] to_le_from_le [of "[a, b]" 2, where 'a = 16] by simp
  moreover have "to_le_bytes 4 (from_le_bytes [c, d, e, f] :: u32) = [c, d, e, f]"
    by (rule to_le_from_le) simp_all
  ultimately show ?thesis
    using h len by (simp add: t header_bytes_unfold header_ok_def magic_def del: from_le_bytes.simps)
qed

section \<open>Frames and their bytes\<close>

definition checksum :: "u8 list \<Rightarrow> u32" where
  "checksum bs = NOT (crc_ref (- 1) bs)"

definition trailer :: "frame_header \<Rightarrow> u8 list \<Rightarrow> u8 list" where
  "trailer h payload = (if has_crc h then to_le_bytes 4 (checksum (header_to_bytes h @ payload)) else [])"

definition frame_bytes :: "frame \<Rightarrow> u8 list" where
  "frame_bytes f = header_to_bytes (f_header f) @ f_payload f @ trailer (f_header f) (f_payload f)"

text \<open>A frame that a connection with these limits may carry.\<close>

definition frame_ok :: "frame_limits \<Rightarrow> frame \<Rightarrow> bool" where
  "frame_ok limits f \<longleftrightarrow> header_ok (f_header f) \<and> unat (fh_payload_len (f_header f)) = length (f_payload f) \<and>
     length (f_payload f) \<le> max_payload_bytes limits \<and> (require_crc limits \<longrightarrow> has_crc (f_header f))"

lemma crc32c_checksum: "length bs < 2 ^ 64 \<Longrightarrow> crc32c hw bs = checksum bs"
  by (simp add: crc32c_def crc32c_append_def update_state_ref checksum_def)

lemma length_trailer [simp]: "length (trailer h p) = trailer_len h"
  by (simp add: trailer_def trailer_len_def crc_len_def)

lemma length_frame_bytes: "unat (fh_payload_len (f_header f)) = length (f_payload f) \<Longrightarrow> length (frame_bytes f) = total_len (f_header f)"
  by (simp add: frame_bytes_def total_len_def)

lemma payload_len_usize_eq [simp]: "payload_len_usize h = Inr (unat (fh_payload_len h))"
proof -
  have "unat (fh_payload_len h) < 2 ^ 32" using unsigned_less [of "fh_payload_len h"] by simp
  then show ?thesis by (simp add: payload_len_usize_def u64_max_def)
qed

lemma header_payload_short: "header_len + unat (fh_payload_len h) < 2 ^ 64"
proof -
  have "unat (fh_payload_len h) < 2 ^ 32" using unsigned_less [of "fh_payload_len h"] by simp
  then show ?thesis by (simp add: header_len_def)
qed

lemma decode_prefix_accepts:
  assumes "frame_ok limits f"
  shows "decode_frame_prefix hw (frame_bytes f @ rest) limits = Inr f"
proof -
  let ?h = "f_header f" and ?p = "f_payload f"
  let ?buf = "header_to_bytes ?h @ ?p @ trailer ?h ?p @ rest"
  have ok: "header_ok ?h" "unat (fh_payload_len ?h) = length ?p" using assms by (simp_all add: frame_ok_def)
  have "header_len + length ?p < 2 ^ 64" using header_payload_short [of ?h] ok(2) by simp
  then have crc: "crc32c hw (header_to_bytes ?h @ ?p) = checksum (header_to_bytes ?h @ ?p)"
    by (intro crc32c_checksum) simp
  have cut: "take (header_len + length ?p) ?buf = header_to_bytes ?h @ ?p"
      "drop (header_len + length ?p) ?buf = trailer ?h ?p @ rest" "take (length ?p) (drop header_len ?buf) = ?p"
    by simp_all
  have "from_le_bytes (take crc_len (trailer ?h ?p @ rest)) = checksum (header_to_bytes ?h @ ?p)" if "has_crc ?h"
    using that from_le_to_le_self [of 4 "checksum (header_to_bytes ?h @ ?p)"] by (simp add: trailer_def crc_len_def)
  then show ?thesis
    using assms unfolding decode_frame_prefix_def frame_bytes_def append_assoc header_parse_print [OF ok(1)]
    by (simp add: frame_ok_def check_payload_len_def total_len_def Let_def ok(2) cut crc del: drop_append take_append)
qed

lemma decode_prefix_exact:
  assumes "(decode_frame_prefix hw buf limits :: 'x wire_error + frame) = Inr f"
  shows "frame_ok limits f \<and> (\<exists>rest. buf = frame_bytes f @ rest)"
proof -
  obtain h where parse: "(header_parse buf :: 'x wire_error + frame_header) = Inr h"
    using assms by (auto simp: decode_frame_prefix_def split: sum.splits)
  let ?n = "unat (fh_payload_len h)"
  let ?p = "take ?n (drop header_len buf)" and ?t = "take crc_len (drop (header_len + ?n) buf)"
  have f: "f = \<lparr> f_header = h, f_payload = ?p \<rparr>" and lim: "?n \<le> max_payload_bytes limits" "require_crc limits \<longrightarrow> has_crc h"
    and total: "total_len h \<le> length buf"
    and sum: "has_crc h \<longrightarrow> from_le_bytes ?t = crc32c hw (take (header_len + ?n) buf)"
    using assms parse by (auto simp: decode_frame_prefix_def check_payload_len_def Let_def split: if_splits sum.splits)
  have hd: "header_ok h" "header_len \<le> length buf" "take header_len buf = header_to_bytes h"
    using header_print_parse [OF parse] by simp_all
  have len: "length ?p = ?n" using total hd(2) by (simp add: total_len_def)
  have body: "take (header_len + ?n) buf = header_to_bytes h @ ?p"
    by (simp add: take_add hd(3))
  have "trailer h ?p = take (trailer_len h) (drop (header_len + ?n) buf)"
  proof (cases "has_crc h")
    case True
    have "length ?t = 4" using total True by (simp add: total_len_def trailer_len_def crc_len_def)
    then have "to_le_bytes 4 (from_le_bytes ?t :: u32) = ?t" by (intro to_le_from_le) simp_all
    moreover have "crc32c hw (take (header_len + ?n) buf) = checksum (header_to_bytes h @ ?p)"
      using header_payload_short [of h] unfolding body by (intro crc32c_checksum) (simp add: len)
    ultimately show ?thesis using True sum by (simp add: trailer_def trailer_len_def)
  qed (simp add: trailer_def trailer_len_def)
  then have "buf = frame_bytes f @ drop (header_len + ?n + trailer_len h) buf"
    unfolding f frame_bytes_def
    by (simp add: hd(3) [symmetric]) (metis append_take_drop_id add.commute drop_drop)
  then show ?thesis using f lim hd(1) len by (auto simp: frame_ok_def)
qed

lemma decode_prefix_iff:
  "decode_frame_prefix hw buf limits = Inr f \<longleftrightarrow> frame_ok limits f \<and> (\<exists>rest. buf = frame_bytes f @ rest)"
  using decode_prefix_exact decode_prefix_accepts by metis

lemma decode_frame_iff: "decode_frame hw buf limits = Inr f \<longleftrightarrow> frame_ok limits f \<and> buf = frame_bytes f"
proof
  assume "frame_ok limits f \<and> buf = frame_bytes f"
  then have "frame_ok limits f" "buf = frame_bytes f @ []" "length buf = total_len (f_header f)"
    by (simp_all add: frame_ok_def length_frame_bytes)
  then show "decode_frame hw buf limits = Inr f"
    unfolding decode_frame_def by (simp only: decode_prefix_accepts) simp
next
  assume "decode_frame hw buf limits = Inr f"
  then have "frame_ok limits f \<and> (\<exists>rest. buf = frame_bytes f @ rest)" "total_len (f_header f) = length buf"
    using decode_prefix_iff [of hw buf limits f]
    by (auto simp: decode_frame_def Let_def split: sum.splits if_splits)
  then show "frame_ok limits f \<and> buf = frame_bytes f"
    by (auto simp: frame_ok_def length_frame_bytes)
qed

text \<open>The frame that the writers produce for a payload.\<close>

definition framed :: "frame_kind \<Rightarrow> frame_flags \<Rightarrow> u8 list \<Rightarrow> frame" where
  "framed kind flags payload = \<lparr> f_header = header_new kind flags (word_of_nat (length payload)), f_payload = payload \<rparr>"

lemma unat_length: "length xs \<le> u32_max \<Longrightarrow> unat (word_of_nat (length xs) :: u32) = length xs"
  by (simp add: unsigned_of_nat take_bit_nat_eq_self u32_max_def)

lemma crc_chain_checksum:
  "length (xs @ ys) < 2 ^ 64 \<Longrightarrow> crc_finalize (crc_chain hw (crc_chain hw crc_new xs) ys) = checksum (xs @ ys)"
  by (simp add: crc_finalize_def crc_chain_def crc_update_def crc_new_def update_state_ref checksum_def crc_ref_append)

lemma framed_short: "length payload \<le> u32_max \<Longrightarrow> length (header_to_bytes h @ payload) < 2 ^ 64"
  by (simp add: header_len_def u32_max_def)

lemma write_frame_eq:
  "write_frame hw kind flags payload limits out =
    (if max_payload_bytes limits < length payload then err (FrameTooLarge (length payload) (max_payload_bytes limits)) out
     else if u32_max < length payload then err (FrameTooLarge (length payload) max_supported_payload_bytes) out
     else ok (length (frame_bytes (framed kind flags payload))) (out @ frame_bytes (framed kind flags payload)))"
proof (cases "u32_max < length payload")
  case False
  then have short: "length payload \<le> u32_max" by simp
  let ?h = "header_new kind flags (word_of_nat (length payload))"
  have "length (frame_bytes (framed kind flags payload)) = total_len ?h"
    using length_frame_bytes [of "framed kind flags payload"] unat_length [OF short]
    by (simp add: framed_def header_new_def)
  then show ?thesis
    using False crc_chain_checksum [OF framed_short [OF short], of hw ?h]
    by (simp add: write_frame_def check_payload_len_def Let_def framed_def frame_bytes_def trailer_def has_crc_def header_new_def)
qed (simp add: write_frame_def check_payload_len_def)

lemma encode_frame_iff:
  "encode_frame hw kind flags payload limits = Inr buf \<longleftrightarrow>
    length payload \<le> max_payload_bytes limits \<and> length payload \<le> u32_max \<and> buf = frame_bytes (framed kind flags payload)"
  by (auto simp: encode_frame_def write_frame_eq ok_def err_def)

lemma frame_ok_framed:
  assumes "frame_ok limits f"
  shows "f = framed (fh_kind (f_header f)) (fh_flags (f_header f)) (f_payload f) \<and> length (f_payload f) \<le> u32_max"
proof -
  have len: "unat (fh_payload_len (f_header f)) = length (f_payload f)" using assms by (simp add: frame_ok_def)
  then have "word_of_nat (length (f_payload f)) = fh_payload_len (f_header f)" by (simp add: len [symmetric])
  moreover have "length (f_payload f) \<le> u32_max"
    using unsigned_less [of "fh_payload_len (f_header f)", where 'a = nat] len by (simp add: u32_max_def)
  ultimately show ?thesis
    using assms by (simp add: framed_def header_new_def frame_ok_def header_ok_def)
qed

lemma framed_ok:
  "length payload \<le> u32_max \<Longrightarrow> length payload \<le> max_payload_bytes limits \<Longrightarrow> flags_ok flags \<Longrightarrow>
    require_crc limits \<longrightarrow> flags_has_crc flags \<Longrightarrow> frame_ok limits (framed kind flags payload)"
  by (simp add: frame_ok_def framed_def header_ok_def header_new_def has_crc_def unat_length)

section \<open>Writing messages\<close>

lemma encode_presized_append:
  "encode_presized c m out = (case encode_presized c m [] of
      (Inl e, _) \<Rightarrow> err e out
    | (Inr n, bs) \<Rightarrow> ok n (out @ bs))"
  by (auto simp: encode_presized_def Let_def ok_def err_def split: sum.splits prod.splits)

lemma encode_presized_ok:
  "encode_presized c m [] = (Inr n, bs) \<longleftrightarrow>
    encoded_size c m = Inr n \<and> encode_into_writer c m = (Inr (), bs) \<and> n = length bs"
  by (auto simp: encode_presized_def encode_size_hint_def Let_def ok_def err_def split: sum.splits prod.splits if_splits)

lemma finish_message_eq:
  assumes "payload_len = length bs"
  shows "finish_message hw kind flags limits (length out) payload_len (out @ replicate header_len 0 @ bs) =
    write_frame hw kind flags bs limits out"
proof (cases "max_payload_bytes limits < length bs \<or> u32_max < length bs")
  case True
  then show ?thesis
    using assms by (auto simp: finish_message_def write_frame_eq check_payload_len_def)
next
  case False
  let ?h = "header_new kind flags (word_of_nat (length bs))"
  have "crc32c hw (header_to_bytes ?h @ bs) = checksum (header_to_bytes ?h @ bs)"
    using False by (intro crc32c_checksum framed_short) simp
  then show ?thesis
    using False assms
    by (simp add: finish_message_def write_frame_eq check_payload_len_def write_into_def ok_def Let_def framed_def
      frame_bytes_def trailer_def has_crc_def header_new_def)
qed

lemma write_message_eq:
  "write_message hw c kind flags m limits out = (case reject_compression flags of
      Inl e \<Rightarrow> err e out
    | Inr _ \<Rightarrow> (case encode_size_hint c m of
          Inl e \<Rightarrow> err e out
        | Inr hint \<Rightarrow> (case check_payload_len limits hint of
              Inl e \<Rightarrow> err e out
            | Inr _ \<Rightarrow> (case encode_presized c m [] of
                  (Inl e, _) \<Rightarrow> err e out
                | (Inr _, bs) \<Rightarrow> write_frame hw kind flags bs limits out))))"
proof -
  have "(case encode_presized c m (out @ replicate header_len 0) of
          (Inl e, out') \<Rightarrow> err e (take (length out) out')
        | (Inr payload_len, out') \<Rightarrow> finish_message hw kind flags limits (length out) payload_len out') =
      (case encode_presized c m [] of
          (Inl e, _) \<Rightarrow> err e out
        | (Inr _, bs) \<Rightarrow> write_frame hw kind flags bs limits out)"
  proof (cases "encode_presized c m []")
    case (Pair r bs)
    then show ?thesis
      using finish_message_eq [of _ bs hw kind flags limits out]
      by (subst encode_presized_append) (auto simp: ok_def err_def encode_presized_ok split: sum.splits)
  qed
  then show ?thesis unfolding write_message_def Let_def by (rule arg_cong [where f = "\<lambda>t. case reject_compression flags of
      Inl e \<Rightarrow> err e out
    | Inr _ \<Rightarrow> (case encode_size_hint c m of
          Inl e \<Rightarrow> err e out
        | Inr hint \<Rightarrow> (case check_payload_len limits hint of Inl e \<Rightarrow> err e out | Inr _ \<Rightarrow> t))"])
qed

lemma write_frame_err: "write_frame hw kind flags bs limits out = (Inl e, out') \<Longrightarrow> out' = out"
  by (auto simp: write_frame_eq ok_def err_def split: if_splits)

lemma write_frame_appends:
  "write_frame hw kind flags bs limits out = (Inr n, out') \<Longrightarrow>
    n = length out' - length out \<and> (\<exists>buf. out' = out @ buf \<and> encode_frame hw' kind flags bs limits = Inr buf)"
  by (auto simp: write_frame_eq ok_def err_def encode_frame_iff split: if_splits)

section \<open>Damaged frames\<close>

text \<open>With its checksum appended every buffer leaves the same register.\<close>

lemma checksum_residue: "crc_ref s (bs @ to_le_bytes 4 (NOT (crc_ref s bs))) = (zero_byte ^^ 4) (- 1)"
proof -
  have "from_le_bytes (to_le_bytes 4 (NOT (crc_ref s bs))) = NOT (crc_ref s bs)"
    by (rule from_le_to_le_self) simp
  then show ?thesis
    by (simp add: crc_ref_append crc_ref_quad)
qed

lemma checksum_burst:
  assumes "length v = length w" and "length v \<le> 4" and "v \<noteq> w"
    and good: "xs @ v @ ys = body @ to_le_bytes 4 (checksum body)"
    and bad: "xs @ w @ ys = body' @ to_le_bytes 4 (checksum body')"
  shows False
proof -
  have "crc_ref (- 1) (xs @ v @ ys) = crc_ref (- 1) (xs @ w @ ys)"
    unfolding good bad checksum_def checksum_residue ..
  with crc_ref_burst [OF assms(1,2)] assms(3) show False by blast
qed

lemma damaged_rejected:
  assumes ok: "frame_ok limits f" and crc: "has_crc (f_header f)" and bytes: "frame_bytes f = xs @ v @ ys"
    and burst: "length v = length w" "length v \<le> 4" "v \<noteq> w" and place: "header_len \<le> length xs"
  shows "\<exists>e c. e \<noteq> c \<and> decode_frame hw (xs @ w @ ys) limits = Inl (CrcMismatch e c)"
proof -
  let ?h = "f_header f" and ?n = "length (f_payload f)" and ?buf = "xs @ w @ ys"
  have n: "unat (fh_payload_len ?h) = ?n" using ok by (simp add: frame_ok_def)
  have total: "length ?buf = total_len ?h" "total_len ?h = header_len + ?n + crc_len"
    using length_frame_bytes [OF n] bytes burst(1) crc n by (simp_all add: total_len_def trailer_len_def)
  have xs: "xs = header_to_bytes ?h @ drop header_len xs"
    using bytes place by (metis append_eq_append_conv_if append_take_drop_id frame_bytes_def length_header_to_bytes)
  then have parse: "header_parse ?buf = Inr ?h"
    using header_parse_print [of ?h "drop header_len xs @ w @ ys"] ok unfolding frame_ok_def by (metis append.assoc)
  let ?body = "take (header_len + ?n) ?buf" and ?t = "take crc_len (drop (header_len + ?n) ?buf)"
  have "drop (header_len + ?n) ?buf = ?t" using total by (simp only: take_all_iff) simp
  then have t: "?buf = ?body @ ?t" by (metis append_take_drop_id)
  have t4: "length ?t = 4" using total by (simp add: crc_len_def)
  have "length ?body < 2 ^ 64" using header_payload_short [of ?h] n by simp
  then have sum: "crc32c hw ?body = checksum ?body" by (rule crc32c_checksum)
  have "from_le_bytes ?t \<noteq> checksum ?body"
  proof
    assume "from_le_bytes ?t = checksum ?body"
    then have "?t = to_le_bytes 4 (checksum ?body)"
      using to_le_from_le [OF t4, where 'a = 32] by simp
    with t have "?buf = ?body @ to_le_bytes 4 (checksum ?body)" by argo
    moreover have "xs @ v @ ys = (header_to_bytes ?h @ f_payload f) @ to_le_bytes 4 (checksum (header_to_bytes ?h @ f_payload f))"
      using bytes crc by (simp add: frame_bytes_def trailer_def)
    ultimately show False using checksum_burst [OF burst] by blast
  qed
  then have "from_le_bytes ?t \<noteq> crc32c hw ?body" unfolding sum .
  then show ?thesis
    using ok crc total unfolding decode_frame_def decode_frame_prefix_def parse
    by (simp add: Let_def check_payload_len_def frame_ok_def n)
qed

section \<open>Properties\<close>

text \<open>The codec of raw bytes, an instance of the contract a payload codec keeps.\<close>

definition bytes_codec :: "(u8 list, unit) codec" where
  "bytes_codec = \<lparr> encoded_size = \<lambda>m. Inr (length m), encode_into_writer = \<lambda>m. (Inr (), m),
    decode_from_slice = \<lambda>bs. Inr (bs, length bs) \<rparr>"

text \<open>
  C17: The frame codec is exact. What \<^verbatim>\<open>decode_frame\<close> accepts is precisely what \<^verbatim>\<open>encode_frame\<close>
  writes for some frame the limits admit, on whichever processor either runs, and it returns
  that frame: every byte of an accepted buffer is accounted for, and no two buffers decode to
  the same frame.
\<close>

theorem frame_codec_exact:
  "decode_frame hw buf limits = Inr f \<longleftrightarrow>
    frame_ok limits f \<and> encode_frame hw' (fh_kind (f_header f)) (fh_flags (f_header f)) (f_payload f) limits = Inr buf"
  using frame_ok_framed [of limits f] by (auto simp: decode_frame_iff encode_frame_iff frame_ok_def)

text \<open>
  C18: Damage is detected. If up to four consecutive bytes of the payload or the trailer of a
  frame with a checksum are changed, in whatever way, the receiver reports a checksum mismatch.
\<close>

theorem frame_damage_detected:
  assumes "encode_frame hw kind flags payload limits = Inr (xs @ v @ ys)"
    and "flags_ok flags" and "flags_has_crc flags"
    and "length v = length w" and "length v \<le> 4" and "v \<noteq> w" and "header_len \<le> length xs"
  shows "\<exists>e c. e \<noteq> c \<and> decode_frame hw' (xs @ w @ ys) limits = Inl (CrcMismatch e c)"
proof (rule damaged_rejected)
  show "frame_ok limits (framed kind flags payload)"
    using assms by (intro framed_ok) (simp_all add: encode_frame_iff)
  show "frame_bytes (framed kind flags payload) = xs @ v @ ys"
    using assms(1) by (simp add: encode_frame_iff)
  show "has_crc (f_header (framed kind flags payload))"
    using assms(3) by (simp add: framed_def header_new_def has_crc_def)
qed (use assms in simp_all)

theorem frame_damage_detected_witness:
  "encode_frame True DataFrame flag_crc [1, 2, 3] limits_uds =
      Inr (header_to_bytes (header_new DataFrame flag_crc 3) @ [1, 2, 3] @ trailer (header_new DataFrame flag_crc 3) [1, 2, 3]) \<and>
    (\<exists>e c. e \<noteq> c \<and> decode_frame False
      (header_to_bytes (header_new DataFrame flag_crc 3) @ [1, 7, 3] @ trailer (header_new DataFrame flag_crc 3) [1, 2, 3])
      limits_uds = Inl (CrcMismatch e c))"
proof -
  let ?xs = "header_to_bytes (header_new DataFrame flag_crc 3)" and ?ys = "trailer (header_new DataFrame flag_crc 3) [1, 2, 3]"
  have enc: "encode_frame True DataFrame flag_crc [1, 2, 3] limits_uds = Inr (?xs @ [1, 2, 3] @ ?ys)"
    by (simp add: encode_frame_iff frame_bytes_def framed_def limits_uds_def limits_new_def u32_max_def
      default_max_payload_bytes_def)
  moreover have "flags_ok flag_crc" and "flags_has_crc flag_crc"
    by (simp_all add: flags_ok_def flag_crc_def known_mask_def compression_mask_def flag_lz4_def flag_zstd_def
      flags_has_crc_def flags_contains_def)
  ultimately show ?thesis
    using frame_damage_detected [OF enc, of "[1, 7, 3]" False] by simp
qed

text \<open>
  C31: Writing a message is all or nothing. Whatever the payload codec does, even if it fails
  half-way or promises a wrong size, an error leaves the output as it was; otherwise exactly the
  frame of the encoded payload has been appended, and its length is returned.
\<close>

theorem write_message_atomic:
  "case write_message hw c kind flags m limits out of
      (Inl e, out') \<Rightarrow> out' = out
    | (Inr n, out') \<Rightarrow> n = length out' - length out \<and>
        (\<exists>buf. out' = out @ buf \<and> encode_frame hw' kind flags (snd (encode_into_writer c m)) limits = Inr buf)"
  unfolding write_message_eq
  by (auto simp: err_def encode_presized_ok dest: write_frame_err write_frame_appends [where hw' = hw']
    split: sum.split prod.split)

text \<open>
  Messages survive the wire. When the payload codec keeps its contract on a message - it
  writes as many bytes as it announces and decodes them to the message - and the message fits
  the limits, encoding it to a frame, decoding the frame and decoding its payload as the same
  kind gives the message back.
\<close>

lemma message_roundtrip:
  fixes c :: "('m, 'x) codec"
  assumes "encoded_size c m = Inr (length bs)" and "encode_into_writer c m = (Inr (), bs)"
    and "decode_from_slice c bs = Inr (m, length bs)"
    and "flags \<in> {flags_empty, flag_crc}" and "require_crc limits \<longrightarrow> flags = flag_crc"
    and "length bs \<le> max_payload_bytes limits" and "length bs \<le> u32_max"
  shows "\<exists>buf f. encode_message hw c kind flags m limits = Inr buf \<and>
    (decode_frame hw' buf limits :: 'x wire_error + frame) = Inr f \<and> decode_as c kind f = Inr m"
proof -
  have flags: "flags_ok flags" "flags_compression flags = NoCompression" "require_crc limits \<longrightarrow> flags_has_crc flags"
    using assms(4,5) by (auto simp: flags_ok_def flags_compression_def flags_empty_def flag_crc_def flag_lz4_def
      flag_zstd_def known_mask_def compression_mask_def flags_has_crc_def flags_contains_def)
  let ?f = "framed kind flags bs"
  have "encode_message hw c kind flags m limits = Inr (frame_bytes ?f)"
    using assms flags
    by (simp add: encode_message_def write_message_eq reject_compression_def compression_is_enabled_def encode_size_hint_def
      check_payload_len_def encode_presized_ok [THEN iffD2] write_frame_eq ok_def)
  moreover have "(decode_frame hw' (frame_bytes ?f) limits :: 'x wire_error + frame) = Inr ?f"
    using assms flags by (simp add: decode_frame_iff framed_ok)
  moreover have "decode_as c kind ?f = Inr m"
    using assms(3) flags(2)
    by (simp add: decode_as_def expect_kind_def framed_def header_new_def view_decode_def reject_compression_def
      compression_is_enabled_def decode_exact_def decode_prefix_def)
  ultimately show ?thesis by blast
qed

lemma message_roundtrip_witness:
  "\<exists>buf f. encode_message True bytes_codec LogFrame flag_crc [104, 105] limits_network = Inr buf \<and>
    (decode_frame False buf limits_network :: unit wire_error + frame) = Inr f \<and>
    decode_as bytes_codec LogFrame f = Inr [104, 105]"
  by (rule message_roundtrip [where bs = "[104, 105]"])
    (simp_all add: bytes_codec_def limits_network_def limits_new_def default_max_payload_bytes_def u32_max_def)

end
