(* ===== verification/Wire_Buffer.thy ===== *)
theory Wire_Buffer
  imports Wire_Frame
begin

text \<open>
  The reassembly buffer of the wire protocol (\<^verbatim>\<open>crates/astrs-wire/src/io/buffer.rs\<close>), which turns
  the byte runs of a stream transport back into frames. The storage is one fully initialised
  vector with two cursors; consumed bytes are dropped by moving the first cursor, and the
  frame handed out last is released at the start of the next call.

  A \<^verbatim>\<open>usize\<close> is a \<^typ>\<open>nat\<close>: the invariant \<open>fb_inv\<close> keeps every subtraction of the code defined, and
  the lengths are lengths of vectors. A borrowed frame is modelled by its contents.

  The abstract buffer is the list of bytes received and not yet consumed: \<open>stream\<close> reads it off
  the concrete one and \<open>deframe\<close> says what asking it for a frame means.
\<close>

section \<open>The buffer\<close>

definition default_buffer_capacity :: nat where
  "default_buffer_capacity = 64 * 1024"

record frame_buffer =
  fb_storage :: "u8 list"
  fb_start :: nat
  fb_end :: nat
  fb_pending :: nat
  fb_limits :: frame_limits

definition fb_with_capacity :: "frame_limits \<Rightarrow> nat \<Rightarrow> frame_buffer" where
  "fb_with_capacity limits capacity =
    \<lparr> fb_storage = replicate (max capacity header_len) 0, fb_start = 0, fb_end = 0, fb_pending = 0, fb_limits = limits \<rparr>"

definition fb_new :: "frame_limits \<Rightarrow> frame_buffer" where
  "fb_new limits = fb_with_capacity limits default_buffer_capacity"

definition fb_set_limits :: "frame_limits \<Rightarrow> frame_buffer \<Rightarrow> frame_buffer" where
  "fb_set_limits limits b = b \<lparr> fb_limits := limits \<rparr>"

definition buffered :: "frame_buffer \<Rightarrow> nat" where
  "buffered b = fb_end b - fb_start b"

definition fb_is_empty :: "frame_buffer \<Rightarrow> bool" where
  "fb_is_empty b \<longleftrightarrow> buffered b = 0"

definition fb_capacity :: "frame_buffer \<Rightarrow> nat" where
  "fb_capacity b = length (fb_storage b)"

definition fb_clear :: "frame_buffer \<Rightarrow> frame_buffer" where
  "fb_clear b = b \<lparr> fb_start := 0, fb_end := 0, fb_pending := 0 \<rparr>"

definition filled :: "frame_buffer \<Rightarrow> u8 list" where
  "filled b = (if fb_start b \<le> fb_end b \<and> fb_end b \<le> length (fb_storage b)
    then take (fb_end b - fb_start b) (drop (fb_start b) (fb_storage b)) else [])"

definition needed :: "frame_buffer \<Rightarrow> 'x wire_error + nat" where
  "needed b =
    (if buffered b < header_len then Inr (header_len - buffered b)
     else case header_parse (filled b) of
         Inl e \<Rightarrow> Inl e
       | Inr header \<Rightarrow> (case payload_len_usize header of
             Inl e \<Rightarrow> Inl e
           | Inr payload_len \<Rightarrow> (case check_payload_len (fb_limits b) payload_len of
                 Inl e \<Rightarrow> Inl e
               | Inr _ \<Rightarrow> Inr (max (sat_sub (total_len header) (buffered b)) 1))))"

definition compact :: "frame_buffer \<Rightarrow> frame_buffer" where
  "compact b =
    (if fb_start b = 0 then b
     else let n = buffered b;
              storage = (if 0 < n then take n (drop (fb_start b) (fb_storage b)) @ drop n (fb_storage b) else fb_storage b)
          in b \<lparr> fb_storage := storage, fb_start := 0, fb_end := n \<rparr>)"

definition reserve :: "nat \<Rightarrow> frame_buffer \<Rightarrow> frame_buffer" where
  "reserve additional b =
    (if additional \<le> length (fb_storage b) - fb_end b then b
     else let b = compact b; required = fb_end b + additional
          in if length (fb_storage b) < required
             then let target = max required (min (length (fb_storage b) * 2) u64_max)
                  in b \<lparr> fb_storage := fb_storage b @ replicate (target - length (fb_storage b)) 0 \<rparr>
             else b)"

text \<open>Copying bytes to the place the end cursor shows.\<close>

definition write_at_end :: "u8 list \<Rightarrow> frame_buffer \<Rightarrow> frame_buffer" where
  "write_at_end bytes b = b \<lparr> fb_storage :=
    take (fb_end b) (fb_storage b) @ bytes @ drop (fb_end b + length bytes) (fb_storage b) \<rparr>"

definition push :: "u8 list \<Rightarrow> frame_buffer \<Rightarrow> frame_buffer" where
  "push bytes b =
    (let b = reserve (length bytes) b
     in if fb_end b + length bytes \<le> length (fb_storage b)
        then let b = write_at_end bytes b in b \<lparr> fb_end := fb_end b + length bytes \<rparr>
        else b)"

text \<open>The writable region is given by its length; the reader fills a prefix of it.\<close>

definition spare_mut :: "nat \<Rightarrow> frame_buffer \<Rightarrow> nat \<times> frame_buffer" where
  "spare_mut at_least b =
    (let b = reserve (max at_least 1) b in (length (fb_storage b) - fb_end b, b))"

definition commit :: "nat \<Rightarrow> frame_buffer \<Rightarrow> frame_buffer" where
  "commit written b =
    (let available = length (fb_storage b) - fb_end b
     in b \<lparr> fb_end := fb_end b + (if available < written then available else written) \<rparr>)"

definition advance :: "frame_buffer \<Rightarrow> frame_buffer" where
  "advance b =
    (if fb_pending b = 0 then b
     else let b = b \<lparr> fb_start := fb_start b + fb_pending b, fb_pending := 0 \<rparr>
          in if fb_start b = fb_end b then b \<lparr> fb_start := 0, fb_end := 0 \<rparr> else b)"

definition frame_ready :: "frame_buffer \<Rightarrow> 'x wire_error + bool" where
  "frame_ready b =
    (if buffered b < header_len then Inr False
     else case header_parse (filled b) of
         Inl e \<Rightarrow> Inl e
       | Inr header \<Rightarrow> (case payload_len_usize header of
             Inl e \<Rightarrow> Inl e
           | Inr payload_len \<Rightarrow> (case check_payload_len (fb_limits b) payload_len of
                 Inl e \<Rightarrow> Inl e
               | Inr _ \<Rightarrow>
                   if require_crc (fb_limits b) \<and> \<not> has_crc header then Inl MissingCrc
                   else Inr (total_len header \<le> buffered b))))"

definition fb_next_frame :: "bool \<Rightarrow> frame_buffer \<Rightarrow> ('x wire_error, frame option, frame_buffer) outcome" where
  "fb_next_frame hw b =
    (let b = advance b
     in case frame_ready b of
         Inl e \<Rightarrow> err e b
       | Inr ready \<Rightarrow>
           if \<not> ready then ok None b
           else case header_parse (filled b) of
               Inl e \<Rightarrow> err e b
             | Inr header \<Rightarrow>
                 let total = total_len header; found = buffered b; b = b \<lparr> fb_pending := total \<rparr>
                 in if length (fb_storage b) < fb_start b + total then err (Truncated total found) b
                    else case decode_frame_prefix hw (take total (drop (fb_start b) (fb_storage b))) (fb_limits b) of
                        Inl e \<Rightarrow> err e b
                      | Inr view \<Rightarrow> ok (Some view) b)"

definition to_owned_frame :: "frame \<Rightarrow> frame" where
  "to_owned_frame view = \<lparr> f_header = f_header view, f_payload = f_payload view \<rparr>"

definition next_owned_frame :: "bool \<Rightarrow> frame_buffer \<Rightarrow> ('x wire_error, frame option, frame_buffer) outcome" where
  "next_owned_frame hw b = try_then (fb_next_frame hw b) (\<lambda>v. ok (map_option to_owned_frame v))"

section \<open>The invariant and the abstract stream\<close>

definition fb_inv :: "frame_buffer \<Rightarrow> bool" where
  "fb_inv b \<longleftrightarrow> fb_start b \<le> fb_end b \<and> fb_end b \<le> length (fb_storage b) \<and> fb_pending b \<le> buffered b"

definition stream :: "frame_buffer \<Rightarrow> u8 list" where
  "stream b = drop (fb_pending b) (filled b)"

lemma filled_eq: "fb_inv b \<Longrightarrow> filled b = take (buffered b) (drop (fb_start b) (fb_storage b))"
  by (simp add: fb_inv_def filled_def buffered_def)

lemma length_filled: "fb_inv b \<Longrightarrow> length (filled b) = buffered b"
  by (auto simp: fb_inv_def filled_def buffered_def)

lemma length_stream: "fb_inv b \<Longrightarrow> length (stream b) = buffered b - fb_pending b"
  by (simp add: stream_def length_filled)

lemma with_capacity_inv [simp]: "fb_inv (fb_with_capacity limits c)"
  by (simp add: fb_inv_def fb_with_capacity_def buffered_def)

lemma with_capacity_stream [simp]: "stream (fb_with_capacity limits c) = []"
  by (simp add: stream_def filled_def fb_with_capacity_def)

lemma with_capacity_limits [simp]: "fb_limits (fb_with_capacity limits c) = limits"
  by (simp add: fb_with_capacity_def)

lemma set_limits_inv [simp]: "fb_inv (fb_set_limits limits b) = fb_inv b"
  by (simp add: fb_inv_def fb_set_limits_def buffered_def)

lemma set_limits_stream [simp]: "stream (fb_set_limits limits b) = stream b"
  by (simp add: stream_def filled_def fb_set_limits_def)

lemma clear_inv [simp]: "fb_inv (fb_clear b)"
  by (simp add: fb_inv_def fb_clear_def buffered_def)

lemma clear_stream [simp]: "stream (fb_clear b) = []"
  by (simp add: stream_def filled_def fb_clear_def)

lemma set_limits_limits [simp]: "fb_limits (fb_set_limits limits b) = limits"
  by (simp add: fb_set_limits_def)

lemma clear_limits [simp]: "fb_limits (fb_clear b) = fb_limits b"
  by (simp add: fb_clear_def)

lemma compact_facts:
  assumes "fb_inv b"
  shows "fb_inv (compact b)" and "filled (compact b) = filled b" and "fb_pending (compact b) = fb_pending b"
    and "fb_limits (compact b) = fb_limits b" and "length (fb_storage (compact b)) = length (fb_storage b)"
    and "fb_end (compact b) = buffered b \<and> fb_start (compact b) = 0 \<or> compact b = b \<and> fb_start b = 0"
  using assms by (auto simp: fb_inv_def compact_def filled_def buffered_def Let_def)

lemma compact_end: "fb_inv b \<Longrightarrow> fb_end (compact b) = buffered b"
  using compact_facts(6) [of b] by (auto simp: buffered_def)

lemma grow_facts:
  assumes "fb_inv b"
  shows "fb_inv (b \<lparr> fb_storage := fb_storage b @ xs \<rparr>)" and "filled (b \<lparr> fb_storage := fb_storage b @ xs \<rparr>) = filled b"
  using assms by (simp_all add: fb_inv_def filled_def buffered_def)

lemma reserve_facts:
  assumes inv: "fb_inv b"
  shows "fb_inv (reserve n b)" and "filled (reserve n b) = filled b" and "fb_pending (reserve n b) = fb_pending b"
    and "fb_limits (reserve n b) = fb_limits b" and "fb_end (reserve n b) + n \<le> length (fb_storage (reserve n b))"
  using inv compact_facts(1-5) [OF inv] grow_facts [OF compact_facts(1) [OF inv]]
  by (simp_all add: reserve_def Let_def) (auto simp: fb_inv_def)

lemma reserve_stream [simp]: "fb_inv b \<Longrightarrow> stream (reserve n b) = stream b"
  by (simp add: stream_def reserve_facts)

lemma reserve_capacity: "fb_inv b \<Longrightarrow> length (fb_storage (reserve n b)) \<le> max (length (fb_storage b)) (2 * (buffered b + n))"
  using compact_facts(5) [of b] compact_end [of b] by (auto simp: reserve_def Let_def)

lemma received:
  assumes "fb_inv b" and "fb_end b + length bs \<le> length (fb_storage b)"
  shows "fb_inv ((write_at_end bs b) \<lparr> fb_end := fb_end b + length bs \<rparr>)"
    and "stream ((write_at_end bs b) \<lparr> fb_end := fb_end b + length bs \<rparr>) = stream b @ bs"
  using assms by (auto simp: fb_inv_def stream_def filled_def write_at_end_def buffered_def drop_take)

lemma push_facts:
  assumes "fb_inv b"
  shows "fb_inv (push bs b)" and "stream (push bs b) = stream b @ bs" and "fb_limits (push bs b) = fb_limits b"
proof -
  let ?r = "reserve (length bs) b"
  have r: "fb_inv ?r" "stream ?r = stream b" "fb_limits ?r = fb_limits b" "fb_end ?r + length bs \<le> length (fb_storage ?r)"
    using assms by (simp_all add: reserve_facts)
  have "push bs b = (write_at_end bs ?r) \<lparr> fb_end := fb_end ?r + length bs \<rparr>"
    using r(4) by (simp add: push_def Let_def write_at_end_def)
  then show "fb_inv (push bs b)" and "stream (push bs b) = stream b @ bs" and "fb_limits (push bs b) = fb_limits b"
    using received [OF r(1,4)] r(2,3) by (simp_all add: write_at_end_def)
qed

lemma commit_inv: "fb_inv b \<Longrightarrow> fb_inv (commit n b)"
  by (auto simp: fb_inv_def commit_def Let_def buffered_def)

lemma commit_received:
  "fb_end b + length bs \<le> length (fb_storage b) \<Longrightarrow>
    commit (length bs) (write_at_end bs b) = (write_at_end bs b) \<lparr> fb_end := fb_end b + length bs \<rparr>"
  by (auto simp: commit_def write_at_end_def Let_def)

lemma advance_facts:
  assumes "fb_inv b"
  shows "fb_inv (advance b)" and "filled (advance b) = stream b" and "fb_pending (advance b) = 0"
    and "fb_limits (advance b) = fb_limits b" and "length (fb_storage (advance b)) = length (fb_storage b)"
  using assms by (auto simp: fb_inv_def advance_def filled_def stream_def buffered_def Let_def add.commute drop_take)

lemma advance_stream [simp]: "fb_inv b \<Longrightarrow> stream (advance b) = stream b"
  by (simp add: stream_def [of "advance b"] advance_facts)

lemma advance_buffered: "fb_inv b \<Longrightarrow> buffered (advance b) = length (stream b)"
  using length_filled [of "advance b"] by (simp add: advance_facts)

section \<open>Asking for a frame\<close>

text \<open>The checks a header must pass before the payload has arrived.\<close>

definition admit :: "frame_limits \<Rightarrow> u8 list \<Rightarrow> 'x wire_error + frame_header" where
  "admit limits bs = (case header_parse bs of
      Inl e \<Rightarrow> Inl e
    | Inr h \<Rightarrow> (case check_payload_len limits (unat (fh_payload_len h)) of
          Inl e \<Rightarrow> Inl e
        | Inr _ \<Rightarrow> if require_crc limits \<and> \<not> has_crc h then Inl MissingCrc else Inr h))"

text \<open>
  What asking a byte stream for its next frame means: the frame at its head, which is consumed;
  nothing, if the head is the beginning of a frame; or an error. A frame with a wrong checksum is
  consumed, since its length is known; after any other error the stream is left as it is.
\<close>

definition deframe :: "bool \<Rightarrow> frame_limits \<Rightarrow> u8 list \<Rightarrow> ('x wire_error + frame option) \<times> u8 list" where
  "deframe hw limits bs = (case decode_frame_prefix hw bs limits of
      Inr f \<Rightarrow> (Inr (Some f), drop (total_len (f_header f)) bs)
    | Inl (Truncated e n) \<Rightarrow> (Inr None, bs)
    | Inl (CrcMismatch e c) \<Rightarrow>
        (Inl (CrcMismatch e c), case (header_parse bs :: unit wire_error + frame_header) of Inl _ \<Rightarrow> bs | Inr h \<Rightarrow> drop (total_len h) bs)
    | Inl e \<Rightarrow> (Inl e, bs))"

lemma header_len_le_total [simp]: "header_len \<le> total_len h"
  by (simp add: total_len_def)

lemma total_len_pos [simp]: "0 < total_len h"
  by (simp add: total_len_def header_len_def)

lemma header_parse_take: "header_len \<le> n \<Longrightarrow> header_parse (take n bs) = header_parse bs"
  by (auto simp: header_parse_def min_def)

lemma header_parse_short: "length bs < header_len \<Longrightarrow> header_parse bs = Inl (Truncated header_len (length bs))"
  by (simp add: header_parse_def)

lemma kind_from_u16_error: "kind_from_u16 v = Inl e \<Longrightarrow> e = UnknownKind v"
  by (simp add: kind_from_u16_def split: if_split_asm)

lemma flags_from_bits_error: "flags_from_bits v = Inl e \<Longrightarrow> e = ReservedFlags v (v AND NOT known_mask) \<or> e = ConflictingCompression"
  by (simp add: flags_from_bits_def Let_def split: if_split_asm)

lemma header_parse_error:
  "header_parse bs = (Inl e :: 'x wire_error + frame_header) \<Longrightarrow> header_len \<le> length bs \<Longrightarrow>
    \<not> is_incomplete e \<and> (\<forall>x c. e \<noteq> CrcMismatch x c)"
  by (auto simp: header_parse_def Let_def dest!: kind_from_u16_error flags_from_bits_error split: if_split_asm sum.split_asm)

lemma admit_error:
  "admit limits bs = (Inl e :: 'x wire_error + frame_header) \<Longrightarrow> header_len \<le> length bs \<Longrightarrow>
    \<not> is_incomplete e \<and> (\<forall>x c. e \<noteq> CrcMismatch x c)"
  using header_parse_error [of bs e]
  by (auto simp: admit_def check_payload_len_def split: if_splits sum.splits)

lemma admit_take: "header_len \<le> n \<Longrightarrow> admit limits (take n bs) = admit limits bs"
  by (simp add: admit_def header_parse_take)

lemma admit_append: "header_len \<le> length bs \<Longrightarrow> admit limits (bs @ ys) = admit limits bs"
  by (subst admit_take [of "length bs", symmetric]) simp_all

lemma header_parse_any:
  assumes "(header_parse bs :: 'x wire_error + frame_header) = Inr h"
  shows "header_parse bs = Inr h"
  using header_print_parse [OF assms] header_parse_print [of h "drop header_len bs"] by (metis append_take_drop_id)

lemma admit_header:
  "(admit limits bs :: 'x wire_error + frame_header) = Inr h \<Longrightarrow> (header_parse bs :: 'x wire_error + frame_header) = Inr h"
  by (simp add: admit_def split: sum.split_asm if_split_asm)

lemmas admit_parse = header_parse_any [OF admit_header]

lemma frame_ready_admit:
  assumes "fb_inv b"
  shows "frame_ready b = (if length (filled b) < header_len then Inr False
    else case admit (fb_limits b) (filled b) of Inl e \<Rightarrow> Inl e | Inr h \<Rightarrow> Inr (total_len h \<le> length (filled b)))"
  using assms by (auto simp: frame_ready_def admit_def length_filled split: sum.split)

lemma needed_admit:
  assumes "fb_inv b" and "frame_ready b = (Inr False :: 'x wire_error + bool)"
  shows "needed b = (if length (filled b) < header_len then Inr (header_len - length (filled b))
    else case (admit (fb_limits b) (filled b) :: 'x wire_error + frame_header) of
      Inl e \<Rightarrow> Inl e | Inr h \<Rightarrow> Inr (total_len h - length (filled b)))"
  using assms
  by (auto simp: needed_def frame_ready_def admit_def length_filled sat_sub_def split: sum.splits if_splits)

lemma decode_prefix_admit:
  "decode_frame_prefix hw bs limits = (case admit limits bs of
      Inl e \<Rightarrow> Inl e
    | Inr h \<Rightarrow> if length bs < total_len h then Inl (Truncated (total_len h) (length bs))
        else decode_frame_prefix hw (take (total_len h) bs) limits)"
proof (cases "admit limits bs :: 'a wire_error + frame_header")
  case (Inr h)
  then have h: "header_parse bs = (Inr h :: 'a wire_error + frame_header)" by (rule admit_parse)
  have ok: "check_payload_len limits (unat (fh_payload_len h)) = (Inr () :: 'a wire_error + unit)"
      "require_crc limits \<longrightarrow> has_crc h"
    using Inr by (simp_all add: admit_def h split: sum.split_asm if_split_asm)
  let ?n = "unat (fh_payload_len h)" and ?cut = "take (total_len h) bs"
  have cut: "take ?n (drop header_len ?cut) = take ?n (drop header_len bs)"
      "take (header_len + ?n) ?cut = take (header_len + ?n) bs"
      "has_crc h \<longrightarrow> take crc_len (drop (header_len + ?n) ?cut) = take crc_len (drop (header_len + ?n) bs)"
    by (simp_all add: total_len_def trailer_len_def drop_take min_def)
  have "length ?cut = total_len h" if "\<not> length bs < total_len h" using that by simp
  then show ?thesis
    unfolding Inr decode_frame_prefix_def header_parse_take [OF header_len_le_total] h
    using cut(3) ok(2) by (cases "has_crc h") (simp_all add: ok cut(1,2) Let_def del: take_take length_take)
qed (auto simp: admit_def decode_frame_prefix_def split: sum.splits if_splits)

lemma decode_complete:
  assumes "admit limits bs = (Inr h :: 'x wire_error + frame_header)" and "total_len h \<le> length bs"
  shows "case (decode_frame_prefix hw (take (total_len h) bs) limits :: 'x wire_error + frame) of
      Inl e \<Rightarrow> \<exists>x c. e = CrcMismatch x c | Inr f \<Rightarrow> f_header f = h"
  using assms admit_parse [OF assms(1)]
  by (auto simp: decode_frame_prefix_def header_parse_take admit_def Let_def split: sum.splits if_splits)

lemma deframe_admit:
  "deframe hw limits bs =
    (if length bs < header_len then (Inr None, bs)
     else case (admit limits bs :: 'x wire_error + frame_header) of
         Inl e \<Rightarrow> (Inl e, bs)
       | Inr h \<Rightarrow>
           if length bs < total_len h then (Inr None, bs)
           else ((case decode_frame_prefix hw (take (total_len h) bs) limits of Inl e \<Rightarrow> Inl e | Inr f \<Rightarrow> Inr (Some f)),
                 drop (total_len h) bs))"
proof (cases "length bs < header_len")
  case True
  then show ?thesis by (simp add: deframe_def decode_frame_prefix_def header_parse_short)
next
  case False
  show ?thesis
  proof (cases "admit limits bs :: 'x wire_error + frame_header")
    case (Inl e)
    then show ?thesis
      using False admit_error [OF Inl] unfolding deframe_def decode_prefix_admit [of hw bs] by (cases e) auto
  next
    case (Inr h)
    have "(header_parse bs :: unit wire_error + frame_header) = Inr h" by (rule admit_parse [OF Inr])
    then show ?thesis
      using False Inr decode_complete [OF Inr, of hw] unfolding deframe_def decode_prefix_admit [of hw bs]
      by (auto split: sum.splits)
  qed
qed

lemma frame_bytes_in_storage:
  assumes "fb_inv b" and "n \<le> length (filled b)"
  shows "fb_start b + n \<le> length (fb_storage b)" and "take n (drop (fb_start b) (fb_storage b)) = take n (filled b)"
  using assms by (auto simp: fb_inv_def filled_def)

lemma pending_facts:
  assumes "fb_inv b" and "n \<le> length (filled b)"
  shows "fb_inv (b \<lparr> fb_pending := n \<rparr>)" and "stream (b \<lparr> fb_pending := n \<rparr>) = drop n (filled b)"
  using assms by (auto simp: fb_inv_def filled_def stream_def buffered_def)

lemma next_frame_released:
  assumes inv: "fb_inv b" and none: "fb_pending b = 0"
  shows "case fb_next_frame hw b of (r, b') \<Rightarrow>
    deframe hw (fb_limits b) (filled b) = (r :: 'x wire_error + frame option, stream b') \<and> fb_inv b' \<and> fb_limits b' = fb_limits b"
proof -
  have adv: "advance b = b" "stream b = filled b" using none by (simp_all add: advance_def stream_def)
  consider "length (filled b) < header_len"
    | e where "header_len \<le> length (filled b)" "(admit (fb_limits b) (filled b) :: 'x wire_error + frame_header) = Inl e"
    | h where "header_len \<le> length (filled b)" "(admit (fb_limits b) (filled b) :: 'x wire_error + frame_header) = Inr h"
        "length (filled b) < total_len h"
    | h where "header_len \<le> length (filled b)" "(admit (fb_limits b) (filled b) :: 'x wire_error + frame_header) = Inr h"
        "total_len h \<le> length (filled b)"
    by (cases "admit (fb_limits b) (filled b) :: 'x wire_error + frame_header") force+
  then show ?thesis
  proof cases
    case (4 h)
    have "(header_parse (filled b) :: 'x wire_error + frame_header) = Inr h" by (rule admit_parse [OF 4(2)])
    then show ?thesis
      using 4 inv frame_bytes_in_storage [OF inv 4(3)] pending_facts [OF inv 4(3)]
      by (simp add: fb_next_frame_def adv frame_ready_admit deframe_admit Let_def ok_def err_def split: sum.split)
  qed (use inv in \<open>simp_all add: fb_next_frame_def adv frame_ready_admit deframe_admit ok_def err_def\<close>)
qed

lemma next_frame_advance: "fb_inv b \<Longrightarrow> fb_next_frame hw (advance b) = fb_next_frame hw b"
  by (simp add: fb_next_frame_def advance_facts advance_def [of "advance b"])

lemma next_frame_deframe:
  assumes "fb_inv b" and "fb_next_frame hw b = (r, b')"
  shows "deframe hw (fb_limits b) (stream b) = (r, stream b')" and "fb_inv b'" and "fb_limits b' = fb_limits b"
proof -
  have "fb_inv (advance b)" "fb_pending (advance b) = 0" by (simp_all add: advance_facts assms(1))
  from next_frame_released [OF this, of hw, where 'x = 'a]
  show "deframe hw (fb_limits b) (stream b) = (r, stream b')" and "fb_inv b'" and "fb_limits b' = fb_limits b"
    by (simp_all add: next_frame_advance advance_facts assms)
qed

lemma next_frame_capacity:
  "fb_inv b \<Longrightarrow> fb_next_frame hw b = (r, b') \<Longrightarrow> fb_capacity b' = fb_capacity b"
  using advance_facts(5) [of b]
  by (auto simp: fb_next_frame_def fb_capacity_def ok_def err_def Let_def split: sum.splits if_splits)

section \<open>The buffer implements the stream\<close>

text \<open>
  A forward simulation between two state machines that answer calls: the concrete one keeps its
  invariant and gives the answers of the abstract one. Then any sequence of calls is answered
  alike.
\<close>

primrec answers :: "('c \<Rightarrow> 's \<Rightarrow> 'r \<times> 's) \<Rightarrow> 'c list \<Rightarrow> 's \<Rightarrow> 'r list" where
  "answers step [] s = []"
| "answers step (c # cs) s = (case step c s of (r, s') \<Rightarrow> r # answers step cs s')"

locale simulation =
  fixes cstep :: "'c \<Rightarrow> 's \<Rightarrow> 'r \<times> 's" and astep :: "'c \<Rightarrow> 'a \<Rightarrow> 'r \<times> 'a"
    and inv :: "'s \<Rightarrow> bool" and abs :: "'s \<Rightarrow> 'a"
  assumes step_simulates: "inv s \<Longrightarrow> cstep c s = (r, s') \<Longrightarrow> inv s' \<and> astep c (abs s) = (r, abs s')"
begin

lemma answers_simulate: "inv s \<Longrightarrow> answers cstep cs s = answers astep cs (abs s)"
proof (induction cs arbitrary: s)
  case (Cons c cs)
  obtain r s' where step: "cstep c s = (r, s')" by fastforce
  from step_simulates [OF Cons.prems step] Cons.IH [of s'] show ?case by (simp add: step)
qed simp

end

text \<open>
  The calls on the buffer. \<open>Read n bs\<close> is a read of the transport: the caller asks for a region of
  at least \<open>n\<close> bytes, the transport places \<open>bs\<close> in it, as far as the caller asked for, and the caller
  commits what was placed.
\<close>

datatype buffer_call =
    Push "u8 list"
  | Read nat "u8 list"
  | Reserve nat
  | Advance
  | NextFrame
  | NextOwnedFrame
  | Clear
  | SetLimits frame_limits

definition fill_spare :: "nat \<Rightarrow> u8 list \<Rightarrow> frame_buffer \<Rightarrow> frame_buffer" where
  "fill_spare n bs b =
    (case spare_mut n b of (spare, b) \<Rightarrow> let bs = take spare bs in commit (length bs) (write_at_end bs b))"

primrec buffer_step :: "bool \<Rightarrow> buffer_call \<Rightarrow> frame_buffer \<Rightarrow> ('x wire_error + frame option) option \<times> frame_buffer" where
  "buffer_step hw (Push bs) b = (None, push bs b)"
| "buffer_step hw (Read n bs) b = (None, fill_spare n (take (max n 1) bs) b)"
| "buffer_step hw (Reserve n) b = (None, reserve n b)"
| "buffer_step hw Advance b = (None, advance b)"
| "buffer_step hw NextFrame b = (case fb_next_frame hw b of (r, b') \<Rightarrow> (Some r, b'))"
| "buffer_step hw NextOwnedFrame b = (case next_owned_frame hw b of (r, b') \<Rightarrow> (Some r, b'))"
| "buffer_step hw Clear b = (None, fb_clear b)"
| "buffer_step hw (SetLimits limits) b = (None, fb_set_limits limits b)"

text \<open>The same calls on a policy and a list of bytes.\<close>

primrec stream_step ::
    "bool \<Rightarrow> buffer_call \<Rightarrow> frame_limits \<times> u8 list \<Rightarrow> ('x wire_error + frame option) option \<times> (frame_limits \<times> u8 list)" where
  "stream_step hw (Push bs) s = (None, (fst s, snd s @ bs))"
| "stream_step hw (Read n bs) s = (None, (fst s, snd s @ take (max n 1) bs))"
| "stream_step hw (Reserve n) s = (None, s)"
| "stream_step hw Advance s = (None, s)"
| "stream_step hw NextFrame s = (case deframe hw (fst s) (snd s) of (r, bs) \<Rightarrow> (Some r, (fst s, bs)))"
| "stream_step hw NextOwnedFrame s = (case deframe hw (fst s) (snd s) of (r, bs) \<Rightarrow> (Some r, (fst s, bs)))"
| "stream_step hw Clear s = (None, (fst s, []))"
| "stream_step hw (SetLimits limits) s = (None, (limits, snd s))"

lemma fill_spare_facts:
  assumes "fb_inv b" and "length bs \<le> max n 1"
  shows "fb_inv (fill_spare n bs b)" and "stream (fill_spare n bs b) = stream b @ bs" and "fb_limits (fill_spare n bs b) = fb_limits b"
proof -
  let ?r = "reserve (max n 1) b"
  have r: "fb_inv ?r" "stream ?r = stream b" "fb_limits ?r = fb_limits b" "fb_end ?r + length bs \<le> length (fb_storage ?r)"
    using assms reserve_facts [OF assms(1), of "max n 1"] by simp_all
  have "fill_spare n bs b = (write_at_end bs ?r) \<lparr> fb_end := fb_end ?r + length bs \<rparr>"
    using r(4) by (simp add: fill_spare_def spare_mut_def Let_def commit_received)
  then show "fb_inv (fill_spare n bs b)" and "stream (fill_spare n bs b) = stream b @ bs" and "fb_limits (fill_spare n bs b) = fb_limits b"
    using received [OF r(1,4)] r(2,3) by (simp_all add: write_at_end_def)
qed

lemma to_owned_frame_id [simp]: "to_owned_frame = (\<lambda>view. view)"
  by (simp add: to_owned_frame_def fun_eq_iff)

lemma next_owned_frame_eq: "next_owned_frame hw b = fb_next_frame hw b"
  by (simp add: next_owned_frame_def try_then_def ok_def option.map_ident split: prod.split sum.split)

interpretation fbuf: simulation "buffer_step hw" "stream_step hw" fb_inv "\<lambda>b. (fb_limits b, stream b)" for hw
proof unfold_locales
  fix c b r b'
  assume "fb_inv b" and "buffer_step hw c b = (r, b')"
  then show "fb_inv b' \<and> stream_step hw c (fb_limits b, stream b) = (r, (fb_limits b', stream b'))"
    by (cases c) (auto simp: push_facts fill_spare_facts reserve_facts advance_facts next_owned_frame_eq next_frame_deframe
      split: prod.splits)
qed

section \<open>Properties\<close>

text \<open>
  C16: The reassembly buffer implements the byte stream. Whatever is pushed, read into the spare
  region, reserved, released, cleared and asked for, and whenever the buffer compacts or grows,
  every call is answered as the list of the bytes received and not yet consumed answers it: with
  the frame at its head, with nothing while that frame is incomplete, or with the error of the
  decoder.
\<close>

theorem buffer_implements_stream:
  "answers (buffer_step hw) calls (fb_with_capacity limits capacity) = answers (stream_step hw) calls (limits, [])"
  using fbuf.answers_simulate [of "fb_with_capacity limits capacity" hw calls] by simp

end
