(* ===== verification/Wire_Io.thy ===== *)
theory Wire_Io
  imports Wire_Buffer
begin

text \<open>
  Blocking framed I/O (\<^verbatim>\<open>crates/astrs-wire/src/io/sync_io.rs\<close>) and the message trait it serves
  (\<^verbatim>\<open>WireMessage\<close> in \<^verbatim>\<open>crates/astrs-wire/src/messages/mod.rs\<close>): \<^verbatim>\<open>FrameReader\<close> pulls chunks off a byte
  stream until the reassembly buffer holds a frame, \<^verbatim>\<open>FrameWriter\<close> encodes frames into a queue and
  writes it out.

  The streams are parameters. A \<^verbatim>\<open>Read\<close> implementation is a function \<open>read\<close> from the length of the
  region it may fill and its state to a result and its new state; the locale \<open>byte_source\<close> states
  what the documentation of \<^verbatim>\<open>std::io::Read\<close> promises of it. A \<^verbatim>\<open>Write\<close> implementation is the pair of
  \<^verbatim>\<open>write_all\<close> and \<^verbatim>\<open>flush\<close>.

  The loop of \<^verbatim>\<open>next_frame\<close> may run as long as the stream is interrupted, so it is a partial function
  whose value is \<^const>\<open>None\<close> if it never ends.
\<close>

section \<open>Messages\<close>

record ('m, 'x) wire_message = "('m, 'x) codec" +
  msg_kind :: frame_kind
  variant_names :: "string list"
  variant_index :: "'m \<Rightarrow> nat"

abbreviation msg_codec :: "('m, 'x) wire_message \<Rightarrow> ('m, 'x) codec" where
  "msg_codec \<equiv> codec.truncate"

definition variant_name :: "('m, 'x) wire_message \<Rightarrow> 'm \<Rightarrow> string" where
  "variant_name t m =
    (if variant_index t m < length (variant_names t) then variant_names t ! variant_index t m else ''<unknown>'')"

definition write_frame_into ::
    "bool \<Rightarrow> ('m, 'x) wire_message \<Rightarrow> 'm \<Rightarrow> frame_flags \<Rightarrow> frame_limits \<Rightarrow> u8 list \<Rightarrow> ('x wire_error, nat, u8 list) outcome" where
  "write_frame_into hw t m flags limits out = write_message hw (msg_codec t) (msg_kind t) flags m limits out"

definition to_frame :: "bool \<Rightarrow> ('m, 'x) wire_message \<Rightarrow> 'm \<Rightarrow> frame_flags \<Rightarrow> frame_limits \<Rightarrow> 'x wire_error + u8 list" where
  "to_frame hw t m flags limits = (case write_frame_into hw t m flags limits [] of (Inl e, _) \<Rightarrow> Inl e | (Inr _, out) \<Rightarrow> Inr out)"

definition message_frame :: "('m, 'x) wire_message \<Rightarrow> 'm \<Rightarrow> frame_flags \<Rightarrow> frame_limits \<Rightarrow> 'x wire_error + frame" where
  "message_frame t m flags limits = from_message (msg_codec t) (msg_kind t) flags m limits"

definition from_frame :: "('m, 'x) wire_message \<Rightarrow> frame \<Rightarrow> 'x wire_error + 'm" where
  "from_frame t view = decode_as (msg_codec t) (msg_kind t) view"

definition from_payload :: "('m, 'x) wire_message \<Rightarrow> u8 list \<Rightarrow> 'x wire_error + 'm" where
  "from_payload t payload = decode_exact (msg_codec t) payload"

definition from_bytes :: "bool \<Rightarrow> ('m, 'x) wire_message \<Rightarrow> u8 list \<Rightarrow> frame_limits \<Rightarrow> 'x wire_error + 'm" where
  "from_bytes hw t bytes limits = (case decode_frame hw bytes limits of Inl e \<Rightarrow> Inl e | Inr view \<Rightarrow> from_frame t view)"

section \<open>The reader\<close>

datatype 'x read_result =
    Got "u8 list"
  | Interrupted
  | Failed 'x

record 's frame_reader =
  rd_inner :: 's
  rd_buffer :: frame_buffer
  rd_eof :: bool
  rd_frames_read :: nat
  rd_bytes_read :: nat

definition reader_with_capacity :: "'s \<Rightarrow> frame_limits \<Rightarrow> nat \<Rightarrow> 's frame_reader" where
  "reader_with_capacity inner limits capacity =
    \<lparr> rd_inner = inner, rd_buffer = fb_with_capacity limits capacity, rd_eof = False, rd_frames_read = 0, rd_bytes_read = 0 \<rparr>"

definition reader_new :: "'s \<Rightarrow> frame_limits \<Rightarrow> 's frame_reader" where
  "reader_new inner limits = reader_with_capacity inner limits default_buffer_capacity"

definition reader_limits :: "'s frame_reader \<Rightarrow> frame_limits" where
  "reader_limits r = fb_limits (rd_buffer r)"

definition reader_set_limits :: "frame_limits \<Rightarrow> 's frame_reader \<Rightarrow> 's frame_reader" where
  "reader_set_limits limits r = r \<lparr> rd_buffer := fb_set_limits limits (rd_buffer r) \<rparr>"

definition reader_buffered :: "'s frame_reader \<Rightarrow> nat" where
  "reader_buffered r = buffered (rd_buffer r)"

definition reader_fill ::
    "(nat \<Rightarrow> 's \<Rightarrow> 'x read_result \<times> 's) \<Rightarrow> 's frame_reader \<Rightarrow> ('x wire_error, bool, 's frame_reader) outcome" where
  "reader_fill read r =
    (if rd_eof r then ok False r
     else case needed (rd_buffer r) of
         Inl e \<Rightarrow> err e r
       | Inr n \<Rightarrow> (case spare_mut n (rd_buffer r) of (spare, b) \<Rightarrow> (case read spare (rd_inner r) of (res, s) \<Rightarrow>
           let r = r \<lparr> rd_inner := s, rd_buffer := b \<rparr>
           in case res of
               Interrupted \<Rightarrow> ok True r
             | Failed e \<Rightarrow> err (Io e) r
             | Got bs \<Rightarrow>
                 if bs = [] then ok False (r \<lparr> rd_eof := True \<rparr>)
                 else ok True (r \<lparr> rd_buffer := commit (length bs) (write_at_end (take spare bs) b),
                                   rd_bytes_read := wrap_add (rd_bytes_read r) (length bs) \<rparr>))))"

text \<open>The loop of \<^verbatim>\<open>next_frame\<close>: whether a frame is ready, or the stream has ended between frames.\<close>

partial_function (option) reader_loop ::
    "(nat \<Rightarrow> 's \<Rightarrow> 'x read_result \<times> 's) \<Rightarrow> 's frame_reader \<Rightarrow> ('x wire_error, bool, 's frame_reader) outcome option" where
  "reader_loop read r = (case frame_ready (rd_buffer r) of
      Inl e \<Rightarrow> Some (err e r)
    | Inr ready \<Rightarrow>
        if ready then Some (ok True r)
        else (case reader_fill read r of
            (Inl e, r) \<Rightarrow> Some (err e r)
          | (Inr again, r) \<Rightarrow>
              if again then reader_loop read r
              else if buffered (rd_buffer r) = 0 then Some (ok False r)
              else (case needed (rd_buffer r) of
                  Inl e \<Rightarrow> Some (err e r)
                | Inr n \<Rightarrow> Some (err (Truncated (buffered (rd_buffer r) + n) (buffered (rd_buffer r))) r))))"

definition reader_next_frame ::
    "bool \<Rightarrow> (nat \<Rightarrow> 's \<Rightarrow> 'x read_result \<times> 's) \<Rightarrow> 's frame_reader \<Rightarrow> ('x wire_error, frame option, 's frame_reader) outcome option" where
  "reader_next_frame hw read r =
    (let r = r \<lparr> rd_buffer := advance (rd_buffer r) \<rparr>
     in case reader_loop read r of
         None \<Rightarrow> None
       | Some (Inl e, r) \<Rightarrow> Some (err e r)
       | Some (Inr found, r) \<Rightarrow>
           if \<not> found then Some (ok None r)
           else let r = r \<lparr> rd_frames_read := wrap_add (rd_frames_read r) 1 \<rparr>
                in case fb_next_frame hw (rd_buffer r) of (res, b) \<Rightarrow> Some (res, r \<lparr> rd_buffer := b \<rparr>))"

definition reader_read_frame ::
    "bool \<Rightarrow> (nat \<Rightarrow> 's \<Rightarrow> 'x read_result \<times> 's) \<Rightarrow> 's frame_reader \<Rightarrow> ('x wire_error, frame option, 's frame_reader) outcome option" where
  "reader_read_frame hw read r =
    map_option (\<lambda>res. try_then res (\<lambda>v. ok (map_option to_owned_frame v))) (reader_next_frame hw read r)"

definition reader_read_message ::
    "bool \<Rightarrow> ('m, 'x) wire_message \<Rightarrow> (nat \<Rightarrow> 's \<Rightarrow> 'x read_result \<times> 's) \<Rightarrow> 's frame_reader \<Rightarrow>
      ('x wire_error, 'm option, 's frame_reader) outcome option" where
  "reader_read_message hw t read r =
    map_option (\<lambda>res. try_then res (\<lambda>v r. case v of
        None \<Rightarrow> ok None r
      | Some view \<Rightarrow> (case from_frame t view of Inl e \<Rightarrow> err e r | Inr m \<Rightarrow> ok (Some m) r)))
      (reader_next_frame hw read r)"

section \<open>The writer\<close>

record 'w frame_writer =
  wr_inner :: 'w
  wr_pending :: "u8 list"
  wr_limits :: frame_limits
  wr_flags :: frame_flags
  wr_frames_written :: nat
  wr_bytes_written :: nat

definition writer_new :: "'w \<Rightarrow> frame_limits \<Rightarrow> 'w frame_writer" where
  "writer_new inner limits =
    \<lparr> wr_inner = inner, wr_pending = [], wr_limits = limits,
      wr_flags = (if require_crc limits then flag_crc else flags_empty), wr_frames_written = 0, wr_bytes_written = 0 \<rparr>"

definition writer_set_flags :: "frame_flags \<Rightarrow> 'w frame_writer \<Rightarrow> ('x wire_error, unit, 'w frame_writer) outcome" where
  "writer_set_flags flags w =
    (let c = flags_compression flags
     in if compression_is_enabled c then err (CompressedPayload c) w else ok () (w \<lparr> wr_flags := flags \<rparr>))"

definition writer_set_limits :: "frame_limits \<Rightarrow> 'w frame_writer \<Rightarrow> 'w frame_writer" where
  "writer_set_limits limits w = w \<lparr> wr_limits := limits \<rparr>"

definition writer_queued :: "'w frame_writer \<Rightarrow> nat" where
  "writer_queued w = length (wr_pending w)"

definition writer_pending_bytes :: "'w frame_writer \<Rightarrow> nat" where
  "writer_pending_bytes w = length (wr_pending w)"

text \<open>The part the three queueing methods share: append to the queue and count the frame.\<close>

definition queued_frame :: "('x wire_error, nat, u8 list) outcome \<Rightarrow> 'w frame_writer \<Rightarrow> ('x wire_error, nat, 'w frame_writer) outcome" where
  "queued_frame res w = (case res of
      (Inl e, pending) \<Rightarrow> err e (w \<lparr> wr_pending := pending \<rparr>)
    | (Inr written, pending) \<Rightarrow>
        ok written (w \<lparr> wr_pending := pending, wr_frames_written := wrap_add (wr_frames_written w) 1 \<rparr>))"

definition writer_queue ::
    "bool \<Rightarrow> ('m, 'x) wire_message \<Rightarrow> 'm \<Rightarrow> 'w frame_writer \<Rightarrow> ('x wire_error, nat, 'w frame_writer) outcome" where
  "writer_queue hw t m w = queued_frame (write_frame_into hw t m (wr_flags w) (wr_limits w) (wr_pending w)) w"

definition writer_queue_frame ::
    "bool \<Rightarrow> frame_kind \<Rightarrow> frame_flags \<Rightarrow> u8 list \<Rightarrow> 'w frame_writer \<Rightarrow> ('x wire_error, nat, 'w frame_writer) outcome" where
  "writer_queue_frame hw kind flags payload w = queued_frame (write_frame hw kind flags payload (wr_limits w) (wr_pending w)) w"

definition writer_queue_payload ::
    "bool \<Rightarrow> ('m, 'x) codec \<Rightarrow> frame_kind \<Rightarrow> 'm \<Rightarrow> 'w frame_writer \<Rightarrow> ('x wire_error, nat, 'w frame_writer) outcome" where
  "writer_queue_payload hw c kind m w = queued_frame (write_message hw c kind (wr_flags w) m (wr_limits w) (wr_pending w)) w"

definition writer_flush ::
    "(u8 list \<Rightarrow> 'w \<Rightarrow> ('x + unit) \<times> 'w) \<Rightarrow> ('w \<Rightarrow> ('x + unit) \<times> 'w) \<Rightarrow> 'w frame_writer \<Rightarrow> ('x wire_error, unit, 'w frame_writer) outcome" where
  "writer_flush write_all flush w =
    (let flush_inner = (\<lambda>w. case flush (wr_inner w) of
         (Inl e, inner) \<Rightarrow> err (Io e) (w \<lparr> wr_inner := inner \<rparr>)
       | (Inr _, inner) \<Rightarrow> ok () (w \<lparr> wr_inner := inner \<rparr>))
     in if wr_pending w = [] then flush_inner w
        else case write_all (wr_pending w) (wr_inner w) of
            (Inr _, inner) \<Rightarrow>
              flush_inner (w \<lparr> wr_inner := inner, wr_bytes_written := wrap_add (wr_bytes_written w) (length (wr_pending w)), wr_pending := [] \<rparr>)
          | (Inl e, inner) \<Rightarrow> err (Io e) (w \<lparr> wr_inner := inner, wr_pending := [] \<rparr>))"

definition writer_send ::
    "bool \<Rightarrow> ('m, 'x) wire_message \<Rightarrow> (u8 list \<Rightarrow> 'w \<Rightarrow> ('x + unit) \<times> 'w) \<Rightarrow> ('w \<Rightarrow> ('x + unit) \<times> 'w) \<Rightarrow> 'm \<Rightarrow> 'w frame_writer \<Rightarrow>
      ('x wire_error, nat, 'w frame_writer) outcome" where
  "writer_send hw t write_all flush m w =
    try_then (writer_queue hw t m w) (\<lambda>written w. try_then (writer_flush write_all flush w) (\<lambda>_. ok written))"

section \<open>Byte sources\<close>

text \<open>
  What a reader relies on: a read fills at most the region it was given, with the next bytes of the
  stream; an empty read into a region that is not empty is the end of the stream; an interrupted read
  consumed nothing and is not repeated for ever. Here \<open>rest\<close> is what the stream still holds and
  \<open>retries\<close> bounds the interruptions before the next bytes come. A read may also fail.
\<close>

locale byte_source =
  fixes read :: "nat \<Rightarrow> 's \<Rightarrow> 'x read_result \<times> 's" and rest :: "'s \<Rightarrow> u8 list" and retries :: "'s \<Rightarrow> nat"
  assumes read_got: "read n s = (Got bs, s') \<Longrightarrow> length bs \<le> n \<and> rest s = bs @ rest s'"
    and read_end: "0 < n \<Longrightarrow> read n s = (Got [], s') \<Longrightarrow> rest s = []"
    and read_interrupted: "read n s = (Interrupted, s') \<Longrightarrow> rest s' = rest s \<and> retries s' < retries s"

locale reliable_source = byte_source read rest retries
  for read :: "nat \<Rightarrow> 's \<Rightarrow> 'x read_result \<times> 's" and rest :: "'s \<Rightarrow> u8 list" and retries :: "'s \<Rightarrow> nat" +
  assumes read_reliable: "read n s \<noteq> (Failed e, s')"

text \<open>The bytes the reader has not handed out yet: those buffered and those still to come.\<close>

definition unread :: "('s \<Rightarrow> u8 list) \<Rightarrow> 's frame_reader \<Rightarrow> u8 list" where
  "unread rest r = stream (rd_buffer r) @ (if rd_eof r then [] else rest (rd_inner r))"

text \<open>Between two calls the buffer is well formed.\<close>

abbreviation rd_inv :: "'s frame_reader \<Rightarrow> bool" where
  "rd_inv r \<equiv> fb_inv (rd_buffer r)"

lemma needed_pos: "needed b = Inr n \<Longrightarrow> 0 < n"
  by (auto simp: needed_def split: if_splits sum.splits)

lemma spare_mut_facts:
  assumes "fb_inv b" and "spare_mut n b = (spare, b')"
  shows "fb_inv b'" and "stream b' = stream b" and "fb_pending b' = fb_pending b" and "fb_limits b' = fb_limits b"
    and "filled b' = filled b" and "fb_end b' + spare = length (fb_storage b')" and "0 < spare" and "n \<le> spare"
    and "length (fb_storage b') \<le> max (length (fb_storage b)) (2 * (buffered b + max n 1))"
  using assms reserve_facts [OF assms(1), of "max n 1"] reserve_capacity [OF assms(1), of "max n 1"]
  by (auto simp: spare_mut_def Let_def) linarith+

lemma fill_read_facts:
  assumes "fb_inv b" and "spare_mut n b = (spare, b')" and "length bs \<le> spare"
  shows "fb_inv (commit (length bs) (write_at_end (take spare bs) b'))"
    and "stream (commit (length bs) (write_at_end (take spare bs) b')) = stream b @ bs"
    and "fb_pending (commit (length bs) (write_at_end (take spare bs) b')) = fb_pending b"
    and "fb_limits (commit (length bs) (write_at_end (take spare bs) b')) = fb_limits b"
    and "length (fb_storage (commit (length bs) (write_at_end (take spare bs) b'))) = length (fb_storage b')"
proof -
  have len: "fb_end b' + length bs \<le> length (fb_storage b')" using spare_mut_facts(6) [OF assms(1,2)] assms(3) by simp
  have cut: "take spare bs = bs" using assms(3) by simp
  show "fb_inv (commit (length bs) (write_at_end (take spare bs) b'))"
    and "stream (commit (length bs) (write_at_end (take spare bs) b')) = stream b @ bs"
    and "fb_pending (commit (length bs) (write_at_end (take spare bs) b')) = fb_pending b"
    and "fb_limits (commit (length bs) (write_at_end (take spare bs) b')) = fb_limits b"
    and "length (fb_storage (commit (length bs) (write_at_end (take spare bs) b'))) = length (fb_storage b')"
    using received [OF spare_mut_facts(1) [OF assms(1,2)] len] spare_mut_facts [OF assms(1,2)] len
    unfolding cut commit_received [OF len] by (simp_all add: write_at_end_def)
qed

text \<open>
  What reading a frame means on the complete byte string a reader has not handed out: as \<^const>\<open>deframe\<close>,
  but the end of the string is the end of the stream, orderly if the string is empty and an error
  inside a frame.
\<close>

definition read_spec :: "bool \<Rightarrow> frame_limits \<Rightarrow> u8 list \<Rightarrow> ('x wire_error + frame option) \<times> u8 list" where
  "read_spec hw limits bs =
    (if bs = [] then (Inr None, [])
     else case (decode_frame_prefix hw bs limits :: 'x wire_error + frame) of
         Inl (Truncated e n) \<Rightarrow> (Inl (Truncated e n), bs)
       | _ \<Rightarrow> deframe hw limits bs)"

lemma read_spec_short: "bs \<noteq> [] \<Longrightarrow> length bs < header_len \<Longrightarrow> read_spec hw limits bs = (Inl (Truncated header_len (length bs)), bs)"
  by (simp add: read_spec_def decode_frame_prefix_def header_parse_short)

lemma read_spec_refused:
  assumes "header_len \<le> length bs" and adm: "admit limits bs = (Inl e :: 'x wire_error + frame_header)"
  shows "read_spec hw limits bs = (Inl e, bs)"
proof -
  have "bs \<noteq> []" using assms(1) by (auto simp: header_len_def)
  moreover have "decode_frame_prefix hw bs limits = Inl e" unfolding decode_prefix_admit [of hw bs] adm by simp
  ultimately show ?thesis
    using assms admit_error [OF adm assms(1)] by (cases e) (simp_all add: read_spec_def deframe_admit)
qed

lemma read_spec_partial:
  assumes "header_len \<le> length bs" and adm: "admit limits bs = (Inr h :: 'x wire_error + frame_header)" and "length bs < total_len h"
  shows "read_spec hw limits bs = (Inl (Truncated (total_len h) (length bs)) :: 'x wire_error + frame option, bs)"
proof -
  have "bs \<noteq> []" using assms(1) by (auto simp: header_len_def)
  moreover have "decode_frame_prefix hw bs limits = (Inl (Truncated (total_len h) (length bs)) :: 'x wire_error + frame)"
    unfolding decode_prefix_admit [of hw bs] adm using assms(3) by simp
  ultimately show ?thesis by (simp add: read_spec_def)
qed

lemma read_spec_ready:
  assumes adm: "admit limits bs = (Inr h :: 'x wire_error + frame_header)" and "total_len h \<le> length bs"
  shows "read_spec hw limits (bs @ more_bytes) =
    (fst (deframe hw limits bs) :: 'x wire_error + frame option, snd (deframe hw limits bs :: ('x wire_error + frame option) \<times> u8 list) @ more_bytes)"
proof -
  have hl: "header_len \<le> length bs" using assms(2) header_len_le_total [of h] by linarith
  then have ne: "bs \<noteq> []" by (auto simp: header_len_def)
  have adm': "admit limits (bs @ more_bytes) = (Inr h :: 'x wire_error + frame_header)"
    using adm by (simp add: admit_append [OF hl])
  show ?thesis
    using assms(2) hl ne decode_complete [OF assms, of hw] adm adm'
    unfolding read_spec_def decode_prefix_admit [of hw "bs @ more_bytes"] deframe_admit
    by (auto split: sum.splits)
qed

text \<open>Each round of the loop brings bytes, an interruption, or the end.\<close>

definition todo :: "('s \<Rightarrow> u8 list) \<Rightarrow> ('s \<Rightarrow> nat) \<Rightarrow> 's frame_reader \<Rightarrow> nat \<times> nat" where
  "todo rest retries r = (length (rest (rd_inner r)), retries (rd_inner r))"

context byte_source
begin

lemma fill_facts:
  assumes "rd_inv r" and "reader_fill read r = (Inr again, r')"
  shows "rd_inv r' \<and> unread rest r' = unread rest r \<and> fb_pending (rd_buffer r') = fb_pending (rd_buffer r) \<and>
    reader_limits r' = reader_limits r \<and> (again \<or> rd_eof r' \<and> stream (rd_buffer r') = stream (rd_buffer r))"
proof (cases "rd_eof r")
  case False
  obtain n where n: "(needed (rd_buffer r) :: 'x wire_error + nat) = Inr n"
    using assms(2) False by (auto simp: reader_fill_def err_def split: sum.splits)
  obtain spare b where sp: "spare_mut n (rd_buffer r) = (spare, b)" by fastforce
  obtain res s where rd: "read spare (rd_inner r) = (res, s)" by fastforce
  note b = spare_mut_facts [OF assms(1) sp]
  show ?thesis
  proof (cases res)
    case (Got bs)
    with read_got [OF rd [unfolded Got]] read_end [OF b(7)] rd False assms(2) b fill_read_facts [OF assms(1) sp, of bs]
    show ?thesis
      by (cases "bs = []") (auto simp: reader_fill_def n sp rd Let_def ok_def unread_def reader_limits_def)
  qed (use False assms(2) b rd read_interrupted in
    \<open>auto simp: reader_fill_def n sp Let_def ok_def err_def unread_def reader_limits_def\<close>)
qed (use assms in \<open>auto simp: reader_fill_def ok_def\<close>)

lemma fill_progress:
  assumes "rd_inv r" and "reader_fill read r = (Inr True, r')"
  shows "(todo rest retries r', todo rest retries r) \<in> less_than <*lex*> less_than"
proof -
  obtain n where n: "(needed (rd_buffer r) :: 'x wire_error + nat) = Inr n" and eof: "\<not> rd_eof r"
    using assms(2) by (auto simp: reader_fill_def ok_def err_def split: sum.splits if_splits)
  obtain spare b where sp: "spare_mut n (rd_buffer r) = (spare, b)" by fastforce
  obtain res s where rd: "read spare (rd_inner r) = (res, s)" by fastforce
  show ?thesis
  proof (cases res)
    case (Got bs)
    with read_got [OF rd [unfolded Got]] eof assms(2) show ?thesis
      by (cases "bs = []") (auto simp: reader_fill_def n sp rd Let_def ok_def todo_def)
  qed (use eof assms(2) rd read_interrupted in \<open>auto simp: reader_fill_def n sp Let_def ok_def err_def todo_def\<close>)
qed

lemma loop_terminates: "rd_inv r \<Longrightarrow> \<exists>y. reader_loop read r = Some y"
proof (induction "todo rest retries r" arbitrary: r rule: wf_induct_rule [OF wf_lex_prod [OF wf_less_than wf_less_than]])
  case (1 r)
  obtain res r' where fill: "reader_fill read r = (res, r')" by fastforce
  have "\<exists>y. reader_loop read r' = Some y" if "res = Inr True"
    using 1 fill_progress fill_facts fill that by blast
  then show ?case
    by (subst reader_loop.simps) (auto simp: fill split: sum.split)
qed

lemma loop_induct [consumes 2, case_names stop fill]:
  assumes "rd_inv r" and "reader_loop read r = Some y"
    and stop: "\<And>r. rd_inv r \<Longrightarrow> (\<And>r'. frame_ready (rd_buffer r) = (Inr False :: 'x wire_error + bool) \<Longrightarrow> reader_fill read r \<noteq> (Inr True, r')) \<Longrightarrow>
      reader_loop read r = Some y \<Longrightarrow> P r"
    and fill: "\<And>r r'. rd_inv r \<Longrightarrow> rd_inv r' \<Longrightarrow> frame_ready (rd_buffer r) = (Inr False :: 'x wire_error + bool) \<Longrightarrow>
      reader_fill read r = (Inr True, r') \<Longrightarrow> reader_loop read r' = Some y \<Longrightarrow> P r' \<Longrightarrow> P r"
  shows "P r"
  using assms(1,2)
proof (induction "todo rest retries r" arbitrary: r rule: wf_induct_rule [OF wf_lex_prod [OF wf_less_than wf_less_than]])
  case (1 r)
  show ?case
  proof (cases "frame_ready (rd_buffer r) = (Inr False :: 'x wire_error + bool) \<and> (\<exists>r'. reader_fill read r = (Inr True, r'))")
    case True
    then obtain r' where r': "frame_ready (rd_buffer r) = (Inr False :: 'x wire_error + bool)" "reader_fill read r = (Inr True, r')" by blast
    then have "reader_loop read r' = Some y" using 1(3) by (subst (asm) reader_loop.simps) simp
    moreover have "rd_inv r'" using fill_facts [OF 1(2) r'(2)] by simp
    ultimately show ?thesis using 1(1) [OF fill_progress [OF 1(2) r'(2)]] fill [OF 1(2) _ r'] by blast
  next
    case False
    then show ?thesis using stop [OF 1(2)] 1(3) by blast
  qed
qed

end

text \<open>At the end of the stream the reader reports how far the frame got.\<close>

lemma frame_not_ready:
  assumes inv: "fb_inv b" and not_ready: "frame_ready b = (Inr False :: 'x wire_error + bool)"
  shows "\<exists>n. needed b = (Inr n :: 'x wire_error + nat) \<and>
    (filled b \<noteq> [] \<longrightarrow> read_spec hw (fb_limits b) (filled b) =
      (Inl (Truncated (buffered b + n) (buffered b)) :: 'x wire_error + frame option, filled b))"
proof (cases "length (filled b) < header_len")
  case True
  then show ?thesis
    using inv needed_admit [OF assms] by (simp add: read_spec_short length_filled)
next
  case False
  then obtain h where adm: "admit (fb_limits b) (filled b) = (Inr h :: 'x wire_error + frame_header)" and tot: "length (filled b) < total_len h"
    using not_ready unfolding frame_ready_admit [OF inv] by (auto split: sum.splits)
  then show ?thesis
    using False needed_admit [OF assms] read_spec_partial [OF _ adm tot] inv by (simp add: length_filled)
qed

lemma frame_ready_cong:
  "fb_inv b \<Longrightarrow> fb_inv b' \<Longrightarrow> filled b = filled b' \<Longrightarrow> fb_limits b = fb_limits b' \<Longrightarrow> frame_ready b = frame_ready b'"
  by (simp add: frame_ready_admit split: sum.split)

context reliable_source
begin

lemma fill_reliable:
  assumes "reader_fill read r = (Inl e, r')"
  shows "needed (rd_buffer r) = Inl e"
  using assms read_reliable by (auto simp: reader_fill_def ok_def err_def Let_def split: if_splits sum.splits prod.splits read_result.splits)

lemma fill_not_ready:
  assumes "rd_inv r" and "frame_ready (rd_buffer r) = (Inr False :: 'x wire_error + bool)"
  shows "\<exists>again r'. reader_fill read r = (Inr again, r')"
  using fill_reliable [of r] frame_not_ready [OF assms] by (cases "reader_fill read r") (auto, metis Inr_not_Inl sum.exhaust)

lemma loop_end:
  assumes inv: "rd_inv r" and pend: "fb_pending (rd_buffer r) = 0" and nr: "frame_ready (rd_buffer r) = (Inr False :: 'x wire_error + bool)"
    and fill: "reader_fill read r = (Inr False, r')"
  shows "\<exists>res. reader_loop read r = Some (res, r') \<and>
    (if unread rest r = [] then res = Inr False
     else \<exists>e. res = Inl e \<and> read_spec hw (reader_limits r) (unread rest r) = (Inl e, unread rest r))"
proof -
  let ?b = "rd_buffer r'"
  have f: "rd_inv r'" "unread rest r = filled ?b" "fb_pending ?b = 0" "fb_limits ?b = reader_limits r" "filled ?b = filled (rd_buffer r)"
    using fill_facts [OF inv fill] pend by (auto simp: unread_def stream_def reader_limits_def)
  have nr': "frame_ready ?b = (Inr False :: 'x wire_error + bool)"
    using nr frame_ready_cong [OF inv f(1), where 'a = 'x] f(4,5) by (simp add: reader_limits_def)
  have "filled ?b = [] \<longleftrightarrow> buffered ?b = 0" using length_filled [OF f(1)] by auto
  then show ?thesis
    using frame_not_ready [OF f(1) nr', of hw] f by (subst reader_loop.simps) (auto simp: nr fill ok_def err_def)
qed

lemma loop_spec:
  assumes "rd_inv r" and "reader_loop read r = Some (res, r')" and "fb_pending (rd_buffer r) = 0"
  shows "rd_inv r' \<and> fb_pending (rd_buffer r') = 0 \<and> reader_limits r' = reader_limits r \<and> unread rest r' = unread rest r \<and>
    (case res of
        Inl e \<Rightarrow> read_spec hw (reader_limits r) (unread rest r) = (Inl e, unread rest r)
      | Inr found \<Rightarrow> if found then frame_ready (rd_buffer r') = (Inr True :: 'x wire_error + bool) else unread rest r = [])"
  using assms
proof (induction rule: loop_induct)
  case (fill r r1)
  then show ?case using fill_facts [OF fill(1,4)] by (cases res) auto
next
  case (stop r)
  let ?b = "rd_buffer r"
  have str: "stream ?b = filled ?b" using stop(4) by (simp add: stream_def)
  note ready = frame_ready_admit [OF stop(1), where 'a = 'x]
  show ?case
  proof (cases "frame_ready ?b :: 'x wire_error + bool")
    case (Inl e)
    then have adm: "header_len \<le> length (filled ?b)" "admit (fb_limits ?b) (filled ?b) = (Inl e :: 'x wire_error + frame_header)"
      unfolding ready by (auto split: if_splits sum.splits)
    then have "read_spec hw (reader_limits r) (unread rest r) = (Inl e, unread rest r)"
      by (intro read_spec_refused) (simp_all add: unread_def str reader_limits_def admit_append)
    moreover have "reader_loop read r = Some (Inl e, r)" by (subst reader_loop.simps) (simp add: Inl err_def)
    ultimately show ?thesis using stop by simp
  next
    case (Inr rdy)
    show ?thesis
    proof (cases rdy)
      case True
      then have "reader_loop read r = Some (Inr True, r)" by (subst reader_loop.simps) (simp add: Inr ok_def)
      then show ?thesis using stop Inr True by simp
    next
      case False
      then have nr: "frame_ready ?b = (Inr False :: 'x wire_error + bool)" using Inr by simp
      obtain r1 where fill: "reader_fill read r = (Inr False, r1)" using fill_not_ready [OF stop(1) nr] stop(2) nr by (metis (full_types))
      show ?thesis
        using loop_end [OF stop(1,4) nr fill, of hw] fill_facts [OF stop(1) fill] stop(3,4)
        by (cases "unread rest r = []") (auto simp: ok_def err_def)
    qed
  qed
qed

lemma next_frame_reads:
  assumes inv: "rd_inv r"
  shows "\<exists>res r'. reader_next_frame hw read r = Some (res, r') \<and> rd_inv r' \<and> reader_limits r' = reader_limits r \<and>
    read_spec hw (reader_limits r) (unread rest r) = (res, unread rest r')"
proof -
  let ?r = "r \<lparr> rd_buffer := advance (rd_buffer r) \<rparr>"
  have a: "rd_inv ?r" "fb_pending (rd_buffer ?r) = 0" "reader_limits ?r = reader_limits r" "unread rest ?r = unread rest r"
    using inv by (simp_all add: advance_facts reader_limits_def unread_def)
  obtain res r1 where loop: "reader_loop read ?r = Some (res, r1)" using loop_terminates [OF a(1)] by auto
  note l = loop_spec [OF a(1) loop a(2), of hw]
  show ?thesis
  proof (cases "res = Inr True")
    case False
    with l a loop show ?thesis
      by (cases res) (auto simp: reader_next_frame_def ok_def err_def read_spec_def split: if_splits)
  next
    case True
    let ?b = "rd_buffer r1" and ?limits = "reader_limits r" and ?more = "if rd_eof r1 then [] else rest (rd_inner r1)"
    obtain res2 b2 where nx: "(fb_next_frame hw ?b :: ('x wire_error, frame option, frame_buffer) outcome) = (res2, b2)" by fastforce
    have b: "fb_inv ?b" "fb_limits ?b = ?limits" "filled ?b = stream ?b" "frame_ready ?b = (Inr True :: 'x wire_error + bool)"
      using l a True by (auto simp: reader_limits_def stream_def)
    obtain h where "admit ?limits (stream ?b) = (Inr h :: 'x wire_error + frame_header)" "total_len h \<le> length (stream ?b)"
      using b(4) unfolding frame_ready_admit [OF b(1)] b(2,3) by (auto split: if_splits sum.splits)
    from read_spec_ready [OF this, of hw ?more] next_frame_deframe [OF b(1) nx] b(2)
    have "read_spec hw ?limits (unread rest r1) = (res2, stream b2 @ ?more)" "fb_inv b2" "fb_limits b2 = ?limits"
      by (auto simp: unread_def)
    then show ?thesis
      using l a True loop nx by (simp add: reader_next_frame_def Let_def unread_def reader_limits_def)
  qed
qed

end

section \<open>Memory\<close>

lemma needed_bound:
  assumes inv: "fb_inv b" and not_ready: "frame_ready b = (Inr False :: 'x wire_error + bool)" and "needed b = (Inr n :: 'x wire_error + nat)"
  shows "buffered b + max n 1 \<le> max_frame_bytes (fb_limits b)"
proof (cases "length (filled b) < header_len")
  case True
  then show ?thesis using assms needed_admit [OF inv not_ready] by (simp add: length_filled max_frame_bytes_def)
next
  case False
  then obtain h where adm: "admit (fb_limits b) (filled b) = (Inr h :: 'x wire_error + frame_header)" and tot: "length (filled b) < total_len h"
    using not_ready unfolding frame_ready_admit [OF inv] by (auto split: sum.splits)
  have "unat (fh_payload_len h) \<le> max_payload_bytes (fb_limits b)"
    using adm by (auto simp: admit_def check_payload_len_def split: sum.splits if_splits)
  then show ?thesis
    using False adm tot assms needed_admit [OF inv not_ready]
    by (simp add: length_filled max_frame_bytes_def total_len_def trailer_len_def split: if_splits)
qed

context byte_source
begin

lemma fill_capacity:
  assumes inv: "rd_inv r" and not_ready: "frame_ready (rd_buffer r) = (Inr False :: 'x wire_error + bool)"
    and fill: "reader_fill read r = (res, r')"
  shows "fb_capacity (rd_buffer r') \<le> max (fb_capacity (rd_buffer r)) (2 * max_frame_bytes (reader_limits r))"
proof -
  obtain n where n: "needed (rd_buffer r) = (Inr n :: 'x wire_error + nat)" using frame_not_ready [OF inv not_ready] by blast
  obtain spare b where sp: "spare_mut n (rd_buffer r) = (spare, b)" by fastforce
  obtain out s where rd: "read spare (rd_inner r) = (out, s)" by fastforce
  have "fb_capacity b \<le> max (fb_capacity (rd_buffer r)) (2 * max_frame_bytes (reader_limits r))"
    using spare_mut_facts(9) [OF inv sp] needed_bound [OF inv not_ready n] by (auto simp: fb_capacity_def reader_limits_def)
  moreover have "fb_capacity (commit (length bs) (write_at_end (take spare bs) b)) = fb_capacity b" if "out = Got bs" for bs
    using fill_read_facts(5) [OF inv sp, of bs] read_got rd that by (simp add: fb_capacity_def)
  ultimately show ?thesis
    using fill by (auto simp: reader_fill_def n sp rd Let_def ok_def err_def split: if_splits read_result.splits)
qed

lemma loop_capacity:
  assumes "rd_inv r" and "reader_loop read r = Some (res, r')"
  shows "fb_capacity (rd_buffer r') \<le> max (fb_capacity (rd_buffer r)) (2 * max_frame_bytes (reader_limits r))"
  using assms
proof (induction rule: loop_induct)
  case (fill r r1)
  then show ?case using fill_capacity [OF fill(1,3,4)] fill_facts [OF fill(1,4)] by simp
next
  case (stop r)
  show ?case
  proof (cases "frame_ready (rd_buffer r) = (Inr False :: 'x wire_error + bool)")
    case True
    obtain out r1 where f: "reader_fill read r = (out, r1)" by fastforce
    then have "r' = r1" using stop True
      by (subst (asm) reader_loop.simps) (auto simp: ok_def err_def split: sum.splits if_splits)
    then show ?thesis using fill_capacity [OF stop(1) True f] by simp
  next
    case False
    then have "r' = r" using stop(3) by (subst (asm) reader_loop.simps) (auto simp: ok_def err_def split: sum.splits if_splits)
    then show ?thesis by simp
  qed
qed

lemma fill_inv: "rd_inv r \<Longrightarrow> reader_fill read r = (res, r') \<Longrightarrow> rd_inv r'"
proof (cases res)
  case (Inl e)
  assume "rd_inv r" and "reader_fill read r = (res, r')"
  then show ?thesis
    using Inl by (auto simp: reader_fill_def ok_def err_def Let_def dest: spare_mut_facts(1)
      split: if_splits sum.splits prod.splits read_result.splits)
qed (use fill_facts in blast)

lemma loop_inv:
  assumes "rd_inv r" and "reader_loop read r = Some (res, r')"
  shows "rd_inv r'"
  using assms
proof (induction rule: loop_induct)
  case (stop r)
  then show ?case
    by (subst (asm) reader_loop.simps) (auto simp: ok_def err_def dest: fill_inv split: sum.splits if_splits prod.splits)
qed

lemma next_frame_total:
  assumes inv: "rd_inv r"
  shows "\<exists>res r'. reader_next_frame hw read r = Some (res, r') \<and> rd_inv r' \<and>
    fb_capacity (rd_buffer r') \<le> max (fb_capacity (rd_buffer r)) (2 * max_frame_bytes (reader_limits r))"
proof -
  let ?r = "r \<lparr> rd_buffer := advance (rd_buffer r) \<rparr>"
  have a: "rd_inv ?r" "fb_capacity (rd_buffer ?r) = fb_capacity (rd_buffer r)" "reader_limits ?r = reader_limits r"
    using inv by (simp_all add: advance_facts reader_limits_def fb_capacity_def)
  obtain res r1 where loop: "reader_loop read ?r = Some (res, r1)" using loop_terminates [OF a(1)] by auto
  have r1: "rd_inv r1" "fb_capacity (rd_buffer r1) \<le> max (fb_capacity (rd_buffer r)) (2 * max_frame_bytes (reader_limits r))"
    using loop_inv [OF a(1) loop] loop_capacity [OF a(1) loop] a by simp_all
  obtain res2 b2 where nx: "(fb_next_frame hw (rd_buffer r1) :: ('x wire_error, frame option, frame_buffer) outcome) = (res2, b2)"
    by fastforce
  have "fb_inv b2" "fb_capacity b2 = fb_capacity (rd_buffer r1)"
    using next_frame_deframe(2) [OF r1(1) nx] next_frame_capacity [OF r1(1) nx] by simp_all
  then show ?thesis
    using loop r1 by (cases res) (auto simp: reader_next_frame_def Let_def nx ok_def err_def)
qed

end

section \<open>Two sources\<close>

text \<open>The \<^verbatim>\<open>Read\<close> implementation of byte slices in the standard library.\<close>

definition slice_read :: "nat \<Rightarrow> u8 list \<Rightarrow> 'x read_result \<times> u8 list" where
  "slice_read n s = (Got (take n s), drop n s)"

interpretation slice: reliable_source slice_read "\<lambda>s. s" "\<lambda>_. 0"
  by unfold_locales (auto simp: slice_read_def)

text \<open>A connection on which the bytes arrive in any runs, and reads may be interrupted in between.\<close>

datatype arrival = Run u8 "u8 list" | Signal

fun socket_read :: "nat \<Rightarrow> arrival list \<Rightarrow> 'x read_result \<times> arrival list" where
  "socket_read n [] = (Got [], [])"
| "socket_read n (Signal # es) = (Interrupted, es)"
| "socket_read n (Run b bs # es) =
    (Got (take n (b # bs)), case drop n (b # bs) of [] \<Rightarrow> es | c # cs \<Rightarrow> Run c cs # es)"

fun arriving :: "arrival list \<Rightarrow> u8 list" where
  "arriving [] = []"
| "arriving (Signal # es) = arriving es"
| "arriving (Run b bs # es) = b # bs @ arriving es"

interpretation socket: reliable_source socket_read arriving length
proof unfold_locales
  fix n bs and s s' :: "arrival list"
  assume "(socket_read n s :: 'x read_result \<times> arrival list) = (Got bs, s')"
  then show "length bs \<le> n \<and> arriving s = bs @ arriving s'"
    by (cases "(n, s)" rule: socket_read.cases) (auto split: list.splits, metis append_take_drop_id)
next
  fix n and s s' :: "arrival list"
  assume "0 < n" and "(socket_read n s :: 'x read_result \<times> arrival list) = (Got [], s')"
  then show "arriving s = []" by (cases "(n, s)" rule: socket_read.cases) auto
next
  fix n and s s' :: "arrival list"
  assume "(socket_read n s :: 'x read_result \<times> arrival list) = (Interrupted, s')"
  then show "arriving s' = arriving s \<and> length s' < length s" by (cases "(n, s)" rule: socket_read.cases) auto
next
  fix n and s s' :: "arrival list" and e :: 'x
  show "socket_read n s \<noteq> (Failed e, s')" by (cases "(n, s)" rule: socket_read.cases) auto
qed

section \<open>Delivery\<close>

text \<open>A batch of frames queued one after another, and as many reads.\<close>

definition queue_batch ::
    "bool \<Rightarrow> (frame_kind \<times> frame_flags \<times> u8 list) list \<Rightarrow> 'w frame_writer \<Rightarrow> ('x wire_error, unit, 'w frame_writer) outcome" where
  "queue_batch hw items w =
    for_each (\<lambda>(kind, flags, payload) w. try_then (writer_queue_frame hw kind flags payload w) (\<lambda>_. ok ())) items w"

primrec read_batch ::
    "bool \<Rightarrow> (nat \<Rightarrow> 's \<Rightarrow> 'x read_result \<times> 's) \<Rightarrow> nat \<Rightarrow> 's frame_reader \<Rightarrow> (('x wire_error + frame option) list \<times> 's frame_reader) option" where
  "read_batch hw read 0 r = Some ([], r)"
| "read_batch hw read (Suc n) r = (case reader_next_frame hw read r of
      None \<Rightarrow> None
    | Some (v, r) \<Rightarrow> map_option (apfst ((#) v)) (read_batch hw read n r))"

lemma queue_batch_pending:
  "queue_batch hw items w = (Inr () :: 'x wire_error + unit, w') \<Longrightarrow>
    wr_pending w' = wr_pending w @ concat (map (\<lambda>(kind, flags, payload). frame_bytes (framed kind flags payload)) items) \<and>
    wr_inner w' = wr_inner w \<and> wr_limits w' = wr_limits w \<and>
    (\<forall>(kind, flags, payload) \<in> set items. length payload \<le> u32_max \<and> length payload \<le> max_payload_bytes (wr_limits w))"
proof (induction items arbitrary: w)
  case (Cons i items)
  obtain kind flags payload where i: "i = (kind, flags, payload)" by (cases i)
  have "length payload \<le> max_payload_bytes (wr_limits w) \<and> length payload \<le> u32_max"
    using Cons.prems unfolding queue_batch_def
    by (auto simp: i writer_queue_frame_def queued_frame_def write_frame_eq ok_def err_def try_then_def split: if_splits)
  then show ?case
    using Cons.prems Cons.IH unfolding queue_batch_def
    by (fastforce simp: i writer_queue_frame_def queued_frame_def write_frame_eq ok_def err_def try_then_def)
qed (simp add: queue_batch_def ok_def)

lemma read_spec_frame:
  assumes "frame_ok limits f"
  shows "read_spec hw limits (frame_bytes f @ bs) = (Inr (Some f), bs)"
proof -
  have len: "length (frame_bytes f) = total_len (f_header f)"
    using assms by (simp add: frame_ok_def length_frame_bytes)
  then have "frame_bytes f \<noteq> []" using total_len_pos [of "f_header f"] by (metis list.size(3) less_irrefl)
  then show ?thesis
    using assms by (simp add: read_spec_def deframe_def decode_prefix_accepts len)
qed

context reliable_source
begin

lemma read_batch_frames:
  assumes "rd_inv r" and "unread rest r = concat (map frame_bytes fs)" and "\<And>f. f \<in> set fs \<Longrightarrow> frame_ok (reader_limits r) f"
  shows "\<exists>r'. read_batch hw read (Suc (length fs)) r = Some (map (\<lambda>f. Inr (Some f)) fs @ [Inr None], r') \<and> unread rest r' = []"
  using assms
proof (induction fs arbitrary: r)
  case Nil
  then show ?case using next_frame_reads [OF Nil(1), of hw] by (auto simp: read_spec_def)
next
  case (Cons f fs)
  obtain v r1 where r1: "reader_next_frame hw read r = Some (v, r1)" "rd_inv r1" "reader_limits r1 = reader_limits r"
      "read_spec hw (reader_limits r) (unread rest r) = (v, unread rest r1)"
    using next_frame_reads [OF Cons.prems(1)] by blast
  then have "v = Inr (Some f)" "unread rest r1 = concat (map frame_bytes fs)"
    using Cons.prems(2,3) read_spec_frame [of "reader_limits r" f hw, where 'a = 'x] by auto
  then show ?case
    using Cons.IH [OF r1(2)] Cons.prems(3) r1(1,3) by auto
qed

end

section \<open>Properties\<close>

text \<open>
  C30: A blocking read ends. Whatever the stream does - deliver any number of bytes at a time, be
  interrupted, fail, or end - as long as it holds finitely many bytes and is not interrupted for ever,
  \<^verbatim>\<open>next_frame\<close> returns, and leaves the buffer well formed for the next call.
\<close>

theorem next_frame_terminates:
  assumes "byte_source read rest retries" and "fb_inv (rd_buffer r)"
  shows "\<exists>res r'. reader_next_frame hw read r = Some (res, r') \<and> fb_inv (rd_buffer r')"
  using byte_source.next_frame_total [OF assms] by blast

theorem next_frame_terminates_witness:
  "\<exists>res r'. reader_next_frame True socket_read (reader_new [Run 65 [83], Signal, Run 1 []] limits_uds) =
    Some (res :: unit wire_error + frame option, r') \<and> fb_inv (rd_buffer r')"
  by (rule next_frame_terminates [OF socket.byte_source_axioms]) (simp add: reader_new_def reader_with_capacity_def)

text \<open>
  Memory is bounded by the policy, not by the peer. Whatever arrives, also a header that claims
  the largest payload there is, one read leaves the buffer no larger than it was or than twice the
  largest frame the limits admit.
\<close>

lemma reader_memory_bounded:
  assumes "byte_source read rest retries" and "fb_inv (rd_buffer r)" and "reader_next_frame hw read r = Some (res, r')"
  shows "fb_capacity (rd_buffer r') \<le> max (fb_capacity (rd_buffer r)) (2 * max_frame_bytes (reader_limits r))"
  using byte_source.next_frame_total [OF assms(1,2), of hw] assms(3) by auto

lemma reader_memory_bounded_witness:
  "\<exists>res r'. reader_next_frame True socket_read (reader_new [Run 65 [83]] limits_uds) = Some (res :: unit wire_error + frame option, r') \<and>
    fb_capacity (rd_buffer r') \<le> max (fb_capacity (rd_buffer (reader_new [Run 65 [83]] limits_uds)))
      (2 * max_frame_bytes (reader_limits (reader_new [Run 65 [83]] limits_uds)))"
proof -
  have inv: "fb_inv (rd_buffer (reader_new [Run 65 [83]] limits_uds))" by (simp add: reader_new_def reader_with_capacity_def)
  obtain res r' where "reader_next_frame True socket_read (reader_new [Run 65 [83]] limits_uds) = Some (res :: unit wire_error + frame option, r')"
    using socket.next_frame_total [OF inv] by blast
  with reader_memory_bounded [OF socket.byte_source_axioms inv this] show ?thesis by blast
qed

text \<open>
  C20: A reader gives what the byte string means. On a stream that does not fail, a read returns what
  reading the bytes not yet handed out as one string gives - the frame at its head, the orderly end of
  the stream, the report of a frame cut off by the end, or the error of the decoder - and what is
  left unread is what that leaves. Where the runs of bytes were divided does not matter.
\<close>

theorem reader_refines_byte_string:
  assumes "reliable_source read rest retries" and "fb_inv (rd_buffer r)"
  shows "\<exists>res r'. reader_next_frame hw read r = Some (res, r') \<and> fb_inv (rd_buffer r') \<and>
    read_spec hw (reader_limits r) (unread rest r) = (res, unread rest r')"
  using reliable_source.next_frame_reads [OF assms] by blast

theorem reader_refines_byte_string_witness:
  "\<exists>res r'. reader_next_frame True socket_read (reader_new [Run 65 [83], Signal, Run 1 []] limits_uds) =
      Some (res :: unit wire_error + frame option, r') \<and> fb_inv (rd_buffer r') \<and>
    read_spec True limits_uds [65, 83, 1] = (res, unread arriving r')"
  using reader_refines_byte_string [OF socket.reliable_source_axioms, of "reader_new [Run 65 [83], Signal, Run 1 []] limits_uds" True]
  by (simp add: reader_new_def reader_with_capacity_def reader_limits_def unread_def)

text \<open>
  C15: What is written is read. Frames queued on a writer and flushed to a byte vector come out of a
  reader on any stream that carries these bytes, however they are divided into runs and whatever reads
  are interrupted: every frame, in order, unchanged, and after the last one the orderly end of the
  stream.
\<close>

theorem frames_delivered:
  assumes "reliable_source read rest retries"
    and "queue_batch hw items (writer_new [] limits) = (Inr () :: 'x wire_error + unit, w)"
    and "writer_flush (\<lambda>bs out. (Inr (), out @ bs)) (\<lambda>out. (Inr (), out)) w = (Inr () :: 'x wire_error + unit, w')"
    and "rest s = wr_inner w'"
    and "\<forall>(kind, flags, payload) \<in> set items. flags_ok flags \<and> (require_crc limits \<longrightarrow> flags_has_crc flags)"
  shows "\<exists>r. read_batch hw' read (Suc (length items)) (reader_new s limits) =
    Some (map (\<lambda>(kind, flags, payload). Inr (Some (framed kind flags payload))) items @ [Inr None], r)"
proof -
  let ?fs = "map (\<lambda>(kind, flags, payload). framed kind flags payload) items"
  have w: "wr_pending w = concat (map (\<lambda>(kind, flags, payload). frame_bytes (framed kind flags payload)) items)" "wr_inner w = []"
      "\<forall>(kind, flags, payload) \<in> set items. length payload \<le> u32_max \<and> length payload \<le> max_payload_bytes limits"
    using queue_batch_pending [OF assms(2)] by (simp_all add: writer_new_def)
  have "wr_inner w' = concat (map frame_bytes ?fs)"
    using assms(3) w by (auto simp: writer_flush_def ok_def Let_def comp_def case_prod_unfold split: if_splits)
  moreover have "frame_ok limits f" if "f \<in> set ?fs" for f
    using that w(3) assms(5) by (auto intro!: framed_ok)
  ultimately show ?thesis
    using reliable_source.read_batch_frames [OF assms(1), of "reader_new s limits" ?fs hw'] assms(4)
    by (auto simp: reader_new_def reader_with_capacity_def reader_limits_def unread_def comp_def case_prod_unfold)
qed

lemma vec_flush_ok: "\<exists>w'. writer_flush (\<lambda>bs out. (Inr (), out @ bs)) (\<lambda>out. (Inr (), out)) w = (Inr (), w')"
  by (simp add: writer_flush_def ok_def Let_def)

lemma queue_batch_ok:
  assumes "\<forall>(kind, flags, payload) \<in> set items. length payload \<le> u32_max \<and> length payload \<le> max_payload_bytes (wr_limits (w :: 'w frame_writer))"
  shows "\<exists>w'. queue_batch hw items w = (Inr () :: 'x wire_error + unit, w')"
  using assms
proof (induction items arbitrary: w)
  case (Cons i items)
  obtain kind flags payload where i: "i = (kind, flags, payload)" by (cases i)
  let ?w = "w \<lparr> wr_pending := wr_pending w @ frame_bytes (framed kind flags payload), wr_frames_written := wrap_add (wr_frames_written w) 1 \<rparr>"
  have "queue_batch hw (i # items) w = (queue_batch hw items ?w :: ('x wire_error, unit, 'w frame_writer) outcome)"
    using Cons.prems by (simp add: queue_batch_def i writer_queue_frame_def queued_frame_def write_frame_eq ok_def try_then_def)
  then show ?case using Cons.IH [of ?w] Cons.prems by simp
qed (simp add: queue_batch_def ok_def)

theorem frames_delivered_witness:
  "\<exists>w w' r. queue_batch True [(DataFrame, flag_crc, [1, 2]), (LogFrame, flags_empty, [])] (writer_new ([] :: u8 list) limits_uds) = (Inr () :: unit wire_error + unit, w) \<and>
    writer_flush (\<lambda>bs out. (Inr (), out @ bs)) (\<lambda>out. (Inr (), out)) w = (Inr () :: unit wire_error + unit, w') \<and>
    read_batch False slice_read 3 (reader_new (wr_inner w') limits_uds) =
      Some ([Inr (Some (framed DataFrame flag_crc [1, 2])), Inr (Some (framed LogFrame flags_empty [])), Inr None] :: (unit wire_error + frame option) list, r)"
proof -
  let ?items = "[(DataFrame, flag_crc, [1, 2 :: u8]), (LogFrame, flags_empty, [])]"
  have "\<exists>w. queue_batch True ?items (writer_new ([] :: u8 list) limits_uds) = (Inr () :: unit wire_error + unit, w)"
    by (rule queue_batch_ok) (auto simp: writer_new_def limits_uds_def limits_new_def default_max_payload_bytes_def u32_max_def)
  then obtain w where w: "queue_batch True ?items (writer_new ([] :: u8 list) limits_uds) = (Inr () :: unit wire_error + unit, w)" ..
  from vec_flush_ok [of w]
  obtain w' where w': "writer_flush (\<lambda>bs out. (Inr (), out @ bs)) (\<lambda>out. (Inr (), out)) w = (Inr () :: unit wire_error + unit, w')" ..
  have flags: "\<forall>(kind, flags, payload) \<in> set ?items. flags_ok flags \<and> (require_crc limits_uds \<longrightarrow> flags_has_crc flags)"
    by (simp add: flags_ok_def flag_crc_def flags_empty_def known_mask_def compression_mask_def limits_uds_def limits_new_def)
  have "\<exists>r. read_batch False slice_read (Suc (length ?items)) (reader_new (wr_inner w') limits_uds) =
      Some (map (\<lambda>(kind, flags, payload). Inr (Some (framed kind flags payload))) ?items @ [Inr None] :: (unit wire_error + frame option) list, r)"
    by (rule frames_delivered [OF slice.reliable_source_axioms w w' refl flags])
  then show ?thesis using w w' by (auto simp: numeral_3_eq_3 simp del: read_batch.simps)
qed

end
