(* ===== verification/Raft_Wal.thy ===== *)
theory Raft_Wal
  imports Raft_Log Wire_Frame
begin

text \<open>
  The file-backed log of \<^verbatim>\<open>crates/astrs-raft/src/log/wal.rs\<close>: an append-only file of checksummed
  records behind a prologue, a snapshot sidecar, and an in-memory mirror that serves the reads.

  A file is a list of bytes, and the disk holds the two files. Every operation on the file system
  may fail: the disk carries a list of faults, one for each operation to come, and a write that
  fails may have written a part of its bytes. Stopping the process in the middle of an operation
  leaves the files as a fault at that point does, so a crash is a fault followed by opening the log
  again. The temporary files are written and then renamed; what they hold before is never read.
  The codec of the record bodies is third-party code and a parameter.
\<close>

section \<open>Constants and policies\<close>

definition file_magic :: "u8 list" where
  "file_magic = [65, 83, 84, 82, 83, 87, 65, 76]"

definition format_version :: u16 where
  "format_version = 1"

definition prologue_len :: nat where
  "prologue_len = length file_magic + 2"

definition record_overhead :: nat where
  "record_overhead = 12"

definition max_record_body :: nat where
  "max_record_body = 64 * 1024 * 1024"

definition tag_entry :: u32 where
  "tag_entry = from_le_bytes [65, 87, 101, 49]"

definition tag_hard_state :: u32 where
  "tag_hard_state = from_le_bytes [65, 87, 104, 49]"

definition tag_truncate :: u32 where
  "tag_truncate = from_le_bytes [65, 87, 116, 49]"

definition tag_snapshot :: u32 where
  "tag_snapshot = from_le_bytes [65, 87, 115, 49]"

datatype fsync_policy = Always | EveryN nat | Never

definition is_crash_safe :: "fsync_policy \<Rightarrow> bool" where
  "is_crash_safe p \<longleftrightarrow> p = Always"

fun should_sync :: "fsync_policy \<Rightarrow> nat \<Rightarrow> bool" where
  "should_sync Always writes = True"
| "should_sync (EveryN n) writes = (n \<le> 1 \<or> n \<le> writes)"
| "should_sync Never writes = False"

datatype recovery_outcome = Intact | TornTail | CorruptRecord

definition was_repaired :: "recovery_outcome \<Rightarrow> bool" where
  "was_repaired o' \<longleftrightarrow> o' \<noteq> Intact"

section \<open>The disk\<close>

record disk =
  d_wal :: "u8 list option"
  d_snap :: "u8 list option"
  d_faults :: "(nat \<times> string) option list"

definition next_fault :: "disk \<Rightarrow> (nat \<times> string) option \<times> disk" where
  "next_fault d = (case d_faults d of [] \<Rightarrow> (None, d) | f # fs \<Rightarrow> (f, d \<lparr> d_faults := fs \<rparr>))"

text \<open>An operation of the file system that has no effect when it fails.\<close>

definition fs_op :: "string \<Rightarrow> string \<Rightarrow> (disk \<Rightarrow> disk) \<Rightarrow> disk \<Rightarrow> (raft_error, unit, disk) outcome" where
  "fs_op what path f d = (case next_fault d of
      (Some (_, source), d) \<Rightarrow> err (raft_error.Io what path source) d
    | (None, d) \<Rightarrow> ok () (f d))"

text \<open>\<^verbatim>\<open>write_all\<close> on the append handle of the log file.\<close>

definition append_file :: "string \<Rightarrow> string \<Rightarrow> u8 list \<Rightarrow> disk \<Rightarrow> (raft_error, unit, disk) outcome" where
  "append_file what path bytes d = (case next_fault d of
      (Some (k, source), d) \<Rightarrow> err (raft_error.Io what path source) (d \<lparr> d_wal := map_option (\<lambda>old. old @ take k bytes) (d_wal d) \<rparr>)
    | (None, d) \<Rightarrow> ok () (d \<lparr> d_wal := map_option (\<lambda>old. old @ bytes) (d_wal d) \<rparr>))"

definition set_len :: "nat \<Rightarrow> disk \<Rightarrow> disk" where
  "set_len n d = d \<lparr> d_wal := map_option (take n) (d_wal d) \<rparr>"

section \<open>Records\<close>

record 'x wal_codec =
  c_entry :: "(log_entry, 'x) codec"
  c_hard :: "(hard_state, 'x) codec"
  c_index :: "(log_index, 'x) codec"
  c_meta :: "(snapshot_meta, 'x) codec"
  c_snapshot :: "(snapshot, 'x) codec"
  c_text :: "'x wire_error \<Rightarrow> string"

definition wire_err :: "'x wal_codec \<Rightarrow> 'x wire_error + 'a \<Rightarrow> raft_error + 'a" where
  "wire_err c r = (case r of Inl e \<Rightarrow> Inl (raft_error.Codec (c_text c e)) | Inr v \<Rightarrow> Inr v)"

definition record_crc :: "bool \<Rightarrow> u32 \<Rightarrow> u8 list \<Rightarrow> u32" where
  "record_crc hw tag body =
    crc_finalize (crc_update hw body (crc_update hw (to_le_bytes 4 (word_of_nat (length body) :: u32)) (crc_update hw (to_le_bytes 4 tag) crc_new)))"

definition append_framed :: "bool \<Rightarrow> u8 list \<Rightarrow> u32 \<Rightarrow> u8 list \<Rightarrow> raft_error + u8 list" where
  "append_framed hw out tag body =
    (if u32_max < length body then Inl (Corrupt 0 ''a record body larger than 4 GiB cannot be framed'')
     else Inr (out @ to_le_bytes 4 tag @ to_le_bytes 4 (word_of_nat (length body) :: u32) @ body @ to_le_bytes 4 (record_crc hw tag body)))"

datatype record_read = Complete u32 "u8 list" nat | Incomplete | BadChecksum

definition read_record :: "bool \<Rightarrow> u8 list \<Rightarrow> nat \<Rightarrow> raft_error + record_read" where
  "read_record hw bytes offset =
    (if length bytes < 8 then Inr Incomplete
     else let tag = from_le_bytes (take 4 bytes); declared = from_le_bytes (take 4 (drop 4 bytes)) :: u32
     in if max_record_body < unat declared
        then Inl (Corrupt offset ''a record declares a body larger than this build will read'')
        else let body_len = unat declared
        in if length bytes < 8 + body_len then Inr Incomplete
           else let body = take body_len (drop 8 bytes)
           in if length bytes < 8 + body_len + 4 then Inr Incomplete
              else let found = from_le_bytes (take 4 (drop (8 + body_len) bytes))
              in if found \<noteq> record_crc hw tag body then Inr BadChecksum
                 else Inr (Complete tag body (8 + body_len + 4)))"

definition apply_record :: "'x wal_codec \<Rightarrow> u32 \<Rightarrow> u8 list \<Rightarrow> memory_log \<Rightarrow> nat \<Rightarrow> raft_error + memory_log" where
  "apply_record c tag body mirror offset =
    (if tag = tag_entry then (case wire_err c (decode_exact (c_entry c) body) of
         Inl e \<Rightarrow> Inl e
       | Inr entry \<Rightarrow>
           (case (if le_index entry \<le> ml_last_index mirror \<and> \<not> is_empty_sentinel (le_index entry)
                  then ml_truncate_from (le_index entry) mirror else Inr mirror) of
               Inl e \<Rightarrow> Inl e
             | Inr mirror \<Rightarrow> ml_append [entry] mirror))
     else if tag = tag_hard_state then (case wire_err c (decode_exact (c_hard c) body) of
         Inl e \<Rightarrow> Inl e
       | Inr state \<Rightarrow> Inr (ml_save_hard_state state mirror))
     else if tag = tag_truncate then (case wire_err c (decode_exact (c_index c) body) of
         Inl e \<Rightarrow> Inl e
       | Inr index \<Rightarrow> if index < ml_first_index mirror then Inr mirror else ml_truncate_from index mirror)
     else if tag = tag_snapshot then (case wire_err c (decode_exact (c_meta c) body) of
         Inl e \<Rightarrow> Inl e
       | Inr meta \<Rightarrow>
           if (case ml_snapshot_meta mirror of Some existing \<Rightarrow> sm_last_index meta \<le> sm_last_index existing | None \<Rightarrow> False)
           then Inr mirror
           else ml_save_snapshot \<lparr> snap_meta = meta, snap_data = [] \<rparr> mirror)
     else Inl (Corrupt offset ''unknown record tag''))"

lemma read_record_total:
  "read_record hw bytes offset = Inr (Complete tag body len) \<Longrightarrow> 12 \<le> len \<and> len \<le> length bytes"
  by (auto simp: read_record_def Let_def split: if_splits)

text \<open>The loop of \<^verbatim>\<open>replay\<close>, on the bytes that remain and the offset of the first of them.\<close>

function replay_loop ::
    "bool \<Rightarrow> 'x wal_codec \<Rightarrow> u8 list \<Rightarrow> nat \<Rightarrow> memory_log \<Rightarrow> raft_error + (nat \<times> recovery_outcome \<times> memory_log)" where
  "replay_loop hw c remaining cursor mirror =
    (if remaining = [] then Inr (cursor, Intact, mirror)
     else case read_record hw remaining cursor of
         Inl e \<Rightarrow> Inl e
       | Inr (Complete tag body len) \<Rightarrow>
           (case apply_record c tag body mirror cursor of
               Inl e \<Rightarrow> Inl e
             | Inr mirror \<Rightarrow> replay_loop hw c (drop len remaining) (cursor + len) mirror)
       | Inr Incomplete \<Rightarrow> Inr (cursor, TornTail, mirror)
       | Inr BadChecksum \<Rightarrow> Inr (cursor, CorruptRecord, mirror))"
  by pat_completeness auto

termination
  by (relation "measure (\<lambda>(_, _, remaining, _, _). length remaining)") (auto dest: read_record_total)

declare replay_loop.simps [simp del]

definition replay :: "bool \<Rightarrow> 'x wal_codec \<Rightarrow> u8 list \<Rightarrow> memory_log \<Rightarrow> raft_error + (nat \<times> recovery_outcome \<times> memory_log)" where
  "replay hw c bytes mirror =
    (if length bytes < prologue_len then Inr (0, TornTail, mirror)
     else let prologue = take prologue_len bytes
     in if take (length file_magic) prologue \<noteq> file_magic
        then Inl (Corrupt 0 ''the file does not start with the ASTRSWAL magic'')
        else let version = from_le_bytes [prologue ! 8, prologue ! 9] :: u16
        in if format_version < version then Inl (UnsupportedVersion (unat version) (unat format_version))
           else replay_loop hw c (drop prologue_len bytes) prologue_len mirror)"

section \<open>The log\<close>

text \<open>
  The state of an open log. The handle is attached to the file at the path, except after that file was
  replaced and opening the new one failed: then the handle still writes to the replaced file, which no
  name leads to any more.
\<close>

record wal_log =
  wl_path :: string
  wl_disk :: disk
  wl_mirror :: memory_log
  wl_policy :: fsync_policy
  wl_unsynced :: nat
  wl_recovered_bytes :: nat
  wl_outcome :: recovery_outcome
  wl_attached :: bool

text \<open>What the code uses of \<^verbatim>\<open>std::path\<close>: the parent directory and replacing the extension.\<close>

definition parent_dir :: "string \<Rightarrow> string" where
  "parent_dir path = (case dropWhile (\<lambda>ch. ch \<noteq> CHR ''/'') (rev path) of
      [] \<Rightarrow> [] | [_] \<Rightarrow> ''/'' | _ # rest \<Rightarrow> rev rest)"

definition with_extension :: "string \<Rightarrow> string \<Rightarrow> string" where
  "with_extension path ext =
    (let name = rev (takeWhile (\<lambda>ch. ch \<noteq> CHR ''/'') (rev path));
         dir = take (length path - length name) path;
         stem = (case dropWhile (\<lambda>ch. ch \<noteq> CHR ''.'') (rev name) of _ # (x # xs) \<Rightarrow> rev (x # xs) | _ \<Rightarrow> name)
     in dir @ stem @ ''.'' @ ext)"

definition snapshot_sidecar :: "string \<Rightarrow> string" where
  "snapshot_sidecar path = path @ ''.snap''"

definition read_snapshot :: "bool \<Rightarrow> 'x wal_codec \<Rightarrow> string \<Rightarrow> disk \<Rightarrow> (raft_error, snapshot option, disk) outcome" where
  "read_snapshot hw c path d = try_then (fs_op ''reading the snapshot'' path id d) (\<lambda>_ d. case d_snap d of
      None \<Rightarrow> ok None d
    | Some bytes \<Rightarrow>
        if length bytes < 2 then ok None d
        else let version = from_le_bytes (take 2 bytes) :: u16
        in if format_version < version then err (UnsupportedVersion (unat version) (unat format_version)) d
           else (case read_record hw (drop 2 bytes) 2 of
               Inl e \<Rightarrow> err e d
             | Inr (Complete tag body len) \<Rightarrow>
                 if tag = tag_snapshot
                 then (case wire_err c (decode_exact (c_snapshot c) body) of Inl e \<Rightarrow> err e d | Inr s \<Rightarrow> ok (Some s) d)
                 else ok None d
             | Inr _ \<Rightarrow> ok None d))"

definition prologue :: "u8 list" where
  "prologue = file_magic @ to_le_bytes 2 format_version"

definition wal_open :: "bool \<Rightarrow> 'x wal_codec \<Rightarrow> string \<Rightarrow> fsync_policy \<Rightarrow> disk \<Rightarrow> (raft_error, wal_log, disk) outcome" where
  "wal_open hw c path policy d =
    try_then (if parent_dir path = [] then ok () d else fs_op ''creating the log directory'' (parent_dir path) id d) (\<lambda>_ d.
    try_then (fs_op ''reading the log'' path id d) (\<lambda>_ d.
    let existing = d_wal d in
    try_then (read_snapshot hw c (snapshot_sidecar path) d) (\<lambda>snapshot d.
    let mirror = (case snapshot of Some s \<Rightarrow> ml_install_snapshot s memory_log_new | None \<Rightarrow> memory_log_new) in
    case (case existing of Some bytes \<Rightarrow> replay hw c bytes mirror | None \<Rightarrow> Inr (prologue_len, Intact, mirror)) of
      Inl e \<Rightarrow> err e d
    | Inr (recovered, outcome, mirror) \<Rightarrow>
        try_then (fs_op ''opening the log'' path (\<lambda>d. case d_wal d of None \<Rightarrow> d \<lparr> d_wal := Some [] \<rparr> | Some _ \<Rightarrow> d) d) (\<lambda>_ d.
        try_then
          (if existing = None
           then try_then (append_file ''writing the prologue'' path prologue d) (\<lambda>_. fs_op ''syncing the prologue'' path id)
           else if was_repaired outcome
           then try_then (fs_op ''truncating a torn tail'' path (set_len recovered) d) (\<lambda>_. fs_op ''syncing a repaired log'' path id)
           else ok () d) (\<lambda>_ d.
        ok \<lparr> wl_path = path, wl_disk = d, wl_mirror = mirror, wl_policy = policy, wl_unsynced = 0,
             wl_recovered_bytes = recovered, wl_outcome = outcome, wl_attached = True \<rparr> d)))))"

text \<open>A step on the disk of an open log.\<close>

definition on_disk :: "(disk \<Rightarrow> (raft_error, unit, disk) outcome) \<Rightarrow> wal_log \<Rightarrow> (raft_error, unit, wal_log) outcome" where
  "on_disk f w = (case f (wl_disk w) of (r, d) \<Rightarrow> (r, w \<lparr> wl_disk := d \<rparr>))"

definition wal_sync :: "wal_log \<Rightarrow> (raft_error, unit, wal_log) outcome" where
  "wal_sync w = try_then (on_disk (fs_op ''syncing the log'' (wl_path w) id) w) (\<lambda>_ w. ok () (w \<lparr> wl_unsynced := 0 \<rparr>))"

definition write_record :: "bool \<Rightarrow> u32 \<Rightarrow> u8 list \<Rightarrow> wal_log \<Rightarrow> (raft_error, unit, wal_log) outcome" where
  "write_record hw tag body w = (case append_framed hw [] tag body of
      Inl e \<Rightarrow> err e w
    | Inr bytes \<Rightarrow>
        try_then (on_disk
          (if wl_attached w then append_file ''appending a record'' (wl_path w) bytes else fs_op ''appending a record'' (wl_path w) id) w) (\<lambda>_ w.
        let w = w \<lparr> wl_unsynced := min (wl_unsynced w + 1) u32_max \<rparr>
        in if should_sync (wl_policy w) (wl_unsynced w) then wal_sync w else ok () w))"

text \<open>Encoding a value and writing it as a record of a kind.\<close>

definition write_encoded :: "bool \<Rightarrow> 'x wal_codec \<Rightarrow> u32 \<Rightarrow> 'x wire_error + u8 list \<Rightarrow> wal_log \<Rightarrow> (raft_error, unit, wal_log) outcome" where
  "write_encoded hw c tag encoded w = (case wire_err c encoded of Inl e \<Rightarrow> err e w | Inr body \<Rightarrow> write_record hw tag body w)"

definition frame_encoded :: "bool \<Rightarrow> 'x wal_codec \<Rightarrow> u32 \<Rightarrow> 'x wire_error + u8 list \<Rightarrow> u8 list \<Rightarrow> raft_error + u8 list" where
  "frame_encoded hw c tag encoded out = (case wire_err c encoded of Inl e \<Rightarrow> Inl e | Inr body \<Rightarrow> append_framed hw out tag body)"

primrec frame_entries :: "bool \<Rightarrow> 'x wal_codec \<Rightarrow> log_entry list \<Rightarrow> u8 list \<Rightarrow> raft_error + u8 list" where
  "frame_entries hw c [] out = Inr out"
| "frame_entries hw c (e # es) out = (case frame_encoded hw c tag_entry (encode_to_vec (c_entry c) e) out of
      Inl r \<Rightarrow> Inl r | Inr out \<Rightarrow> frame_entries hw c es out)"

text \<open>The contents of a regenerated file.\<close>

definition regenerated :: "bool \<Rightarrow> 'x wal_codec \<Rightarrow> memory_log \<Rightarrow> raft_error + u8 list" where
  "regenerated hw c mirror =
    (case (case ml_snapshot_meta mirror of
             Some meta \<Rightarrow> frame_encoded hw c tag_snapshot (encode_to_vec (c_meta c) meta) prologue
           | None \<Rightarrow> Inr prologue) of
       Inl e \<Rightarrow> Inl e
     | Inr buffer \<Rightarrow> (case frame_encoded hw c tag_hard_state (encode_to_vec (c_hard c) (ml_hard mirror)) buffer of
           Inl e \<Rightarrow> Inl e
         | Inr buffer \<Rightarrow> frame_entries hw c (ml_held mirror) buffer))"

definition regenerate :: "bool \<Rightarrow> 'x wal_codec \<Rightarrow> wal_log \<Rightarrow> (raft_error, unit, wal_log) outcome" where
  "regenerate hw c w =
    (let temporary = with_extension (wl_path w) ''wal-regen'' in
     try_then (on_disk (fs_op ''creating a regenerated log'' temporary id) w) (\<lambda>_ w.
     case regenerated hw c (wl_mirror w) of
       Inl e \<Rightarrow> err e w
     | Inr buffer \<Rightarrow>
         try_then (on_disk (fs_op ''writing a regenerated log'' temporary id) w) (\<lambda>_ w.
         try_then (on_disk (fs_op ''syncing a regenerated log'' temporary id) w) (\<lambda>_ w.
         try_then (on_disk (fs_op ''installing a regenerated log'' (wl_path w) (\<lambda>d. d \<lparr> d_wal := Some buffer \<rparr>)) w) (\<lambda>_ w.
         try_then (on_disk (fs_op ''reopening a regenerated log'' (wl_path w) id) (w \<lparr> wl_attached := False \<rparr>)) (\<lambda>_ w.
         ok () (w \<lparr> wl_attached := True, wl_unsynced := 0, wl_recovered_bytes := length buffer \<rparr>)))))))"

definition write_snapshot_sidecar :: "bool \<Rightarrow> 'x wal_codec \<Rightarrow> snapshot \<Rightarrow> wal_log \<Rightarrow> (raft_error, unit, wal_log) outcome" where
  "write_snapshot_sidecar hw c s w =
    (let path = snapshot_sidecar (wl_path w); temporary = with_extension path ''snap-tmp'' in
     case frame_encoded hw c tag_snapshot (encode_to_vec (c_snapshot c) s) (to_le_bytes 2 format_version) of
       Inl e \<Rightarrow> err e w
     | Inr bytes \<Rightarrow>
         try_then (on_disk (fs_op ''creating the snapshot'' temporary id) w) (\<lambda>_ w.
         try_then (on_disk (fs_op ''writing the snapshot'' temporary id) w) (\<lambda>_ w.
         try_then (on_disk (fs_op ''syncing the snapshot'' temporary id) w) (\<lambda>_.
         on_disk (fs_op ''installing the snapshot'' path (\<lambda>d. d \<lparr> d_snap := Some bytes \<rparr>))))))"

text \<open>A call on the mirror that the log passes on.\<close>

definition on_mirror :: "raft_error + memory_log \<Rightarrow> wal_log \<Rightarrow> (raft_error, unit, wal_log) outcome" where
  "on_mirror r w = lift_part r (\<lambda>m w. w \<lparr> wl_mirror := m \<rparr>) w"

definition wal_save_hard_state :: "bool \<Rightarrow> 'x wal_codec \<Rightarrow> hard_state \<Rightarrow> wal_log \<Rightarrow> (raft_error, unit, wal_log) outcome" where
  "wal_save_hard_state hw c state w =
    try_then (write_encoded hw c tag_hard_state (encode_to_vec (c_hard c) state) w) (\<lambda>_ w.
    on_mirror (Inr (ml_save_hard_state state (wl_mirror w))) w)"

definition wal_append :: "bool \<Rightarrow> 'x wal_codec \<Rightarrow> log_entry list \<Rightarrow> wal_log \<Rightarrow> (raft_error, unit, wal_log) outcome" where
  "wal_append hw c entries w = (case check_contiguous (ml_last_index (wl_mirror w)) entries of
      Inl e \<Rightarrow> err e w
    | Inr _ \<Rightarrow>
        try_then (for_each (\<lambda>entry. write_encoded hw c tag_entry (encode_to_vec (c_entry c) entry)) entries w) (\<lambda>_ w.
        on_mirror (ml_append entries (wl_mirror w)) w))"

definition wal_truncate_from :: "bool \<Rightarrow> 'x wal_codec \<Rightarrow> log_index \<Rightarrow> wal_log \<Rightarrow> (raft_error, unit, wal_log) outcome" where
  "wal_truncate_from hw c index w =
    try_then (on_mirror (ml_truncate_from index (wl_mirror w)) w) (\<lambda>_.
    write_encoded hw c tag_truncate (encode_to_vec (c_index c) index))"

definition wal_save_snapshot :: "bool \<Rightarrow> 'x wal_codec \<Rightarrow> snapshot \<Rightarrow> wal_log \<Rightarrow> (raft_error, unit, wal_log) outcome" where
  "wal_save_snapshot hw c s w =
    try_then (on_mirror (ml_save_snapshot s (wl_mirror w)) w) (\<lambda>_ w.
    try_then (write_snapshot_sidecar hw c s w) (\<lambda>_. regenerate hw c))"

definition wal_install_snapshot :: "bool \<Rightarrow> 'x wal_codec \<Rightarrow> snapshot \<Rightarrow> wal_log \<Rightarrow> (raft_error, unit, wal_log) outcome" where
  "wal_install_snapshot hw c s w =
    try_then (on_mirror (Inr (ml_install_snapshot s (wl_mirror w))) w) (\<lambda>_ w.
    try_then (write_snapshot_sidecar hw c s w) (\<lambda>_. regenerate hw c))"

end
