(* ===== verification/Raft_Recovery.thy ===== *)
theory Raft_Recovery
  imports Raft_Wal
begin

text \<open>
  What the write-ahead log guarantees and what it does not. A file of complete records replays to the
  state those records describe; a record cut short at the end is dropped and the file repaired. So a
  log that is opened again after a crash in the middle of an append, a vote or a truncation holds what
  was acknowledged and at most a part of what was being written, and without faults the log is the
  in-memory log it mirrors, across restarts and snapshots. Two crashes are not survived: one while the
  file is created, and one between installing the snapshot and replacing the log.
\<close>

section \<open>Records on disk\<close>

datatype wal_record = RecEntry log_entry | RecHard hard_state | RecTruncate log_index | RecSnapshot snapshot_meta

text \<open>A value the codec keeps its contract on, and whose record can be read back.\<close>

definition stores :: "('m, 'x) codec \<Rightarrow> 'm \<Rightarrow> bool" where
  "stores k m \<longleftrightarrow> (\<exists>body. encode_to_vec k m = Inr body \<and> decode_exact k body = Inr m \<and> length body \<le> max_record_body)"

definition body_of :: "('m, 'x) codec \<Rightarrow> 'm \<Rightarrow> u8 list" where
  "body_of k m = projr (encode_to_vec k m)"

lemma storesD:
  assumes "stores k m"
  shows "encode_to_vec k m = Inr (body_of k m)" and "decode_exact k (body_of k m) = Inr m" and "length (body_of k m) \<le> max_record_body"
    and "length (body_of k m) \<le> u32_max"
  using assms by (auto simp: stores_def body_of_def max_record_body_def u32_max_def)

definition record_bytes :: "bool \<Rightarrow> u32 \<Rightarrow> u8 list \<Rightarrow> u8 list" where
  "record_bytes hw tag body =
    to_le_bytes 4 tag @ to_le_bytes 4 (word_of_nat (length body) :: u32) @ body @ to_le_bytes 4 (record_crc hw tag body)"

lemma length_record_bytes [simp]: "length (record_bytes hw tag body) = length body + 12"
  by (simp add: record_bytes_def)

lemma append_framed_ok: "length body \<le> u32_max \<Longrightarrow> append_framed hw out tag body = Inr (out @ record_bytes hw tag body)"
  by (simp add: append_framed_def record_bytes_def)

text \<open>The head of a record, with any bytes after it.\<close>

lemma read_record_head:
  assumes "length body \<le> max_record_body"
  shows "read_record hw (to_le_bytes 4 tag @ to_le_bytes 4 (word_of_nat (length body) :: u32) @ rest) offset =
    (if length rest < length body + 4 then Inr Incomplete
     else if from_le_bytes (take 4 (drop (length body) rest)) \<noteq> record_crc hw tag (take (length body) rest) then Inr BadChecksum
     else Inr (Complete tag (take (length body) rest) (length body + 12)))"
proof -
  let ?t = "to_le_bytes 4 tag" and ?n = "to_le_bytes 4 (word_of_nat (length body) :: u32)"
  have "length body \<le> u32_max" using assms by (simp add: max_record_body_def u32_max_def)
  then have n: "unat (from_le_bytes ?n :: u32) = length body" by (simp add: from_le_to_le_self unat_length)
  have t: "from_le_bytes ?t = tag" by (simp add: from_le_to_le_self)
  have "take 4 (?t @ ?n @ rest) = ?t" "take 4 (drop 4 (?t @ ?n @ rest)) = ?n" "drop 8 (?t @ ?n @ rest) = rest"
    "drop (8 + length body) (?t @ ?n @ rest) = drop (length body) rest" by simp_all
  then show ?thesis
    using assms unfolding read_record_def Let_def by (simp add: n t del: take_append drop_append)
qed

lemma read_record_whole:
  assumes "length body \<le> max_record_body"
  shows "read_record hw (record_bytes hw tag body @ rest) offset = Inr (Complete tag body (length body + 12))"
  using read_record_head [OF assms, of hw tag "body @ to_le_bytes 4 (record_crc hw tag body) @ rest" offset]
  by (simp add: record_bytes_def from_le_to_le_self)

lemma read_record_torn:
  assumes "length body \<le> max_record_body" and "n < length body + 12"
  shows "read_record hw (take n (record_bytes hw tag body)) offset = Inr Incomplete"
proof (cases "n < 8")
  case True
  then show ?thesis by (simp add: read_record_def)
next
  case False
  let ?rest = "take (n - 8) (body @ to_le_bytes 4 (record_crc hw tag body))"
  have "take n (record_bytes hw tag body) = to_le_bytes 4 tag @ to_le_bytes 4 (word_of_nat (length body) :: u32) @ ?rest"
    using False by (simp add: record_bytes_def)
  moreover have "length ?rest < length body + 4"
    unfolding length_take using assms(2) False by (simp add: min_less_iff_disj)
  ultimately show ?thesis by (simp only: read_record_head [OF assms(1)] if_True)
qed

section \<open>Replaying\<close>

primrec rec_tag :: "wal_record \<Rightarrow> u32" where
  "rec_tag (RecEntry e) = tag_entry"
| "rec_tag (RecHard h) = tag_hard_state"
| "rec_tag (RecTruncate i) = tag_truncate"
| "rec_tag (RecSnapshot m) = tag_snapshot"

primrec rec_body :: "'x wal_codec \<Rightarrow> wal_record \<Rightarrow> u8 list" where
  "rec_body c (RecEntry e) = body_of (c_entry c) e"
| "rec_body c (RecHard h) = body_of (c_hard c) h"
| "rec_body c (RecTruncate i) = body_of (c_index c) i"
| "rec_body c (RecSnapshot m) = body_of (c_meta c) m"

primrec rec_ok :: "'x wal_codec \<Rightarrow> wal_record \<Rightarrow> bool" where
  "rec_ok c (RecEntry e) = stores (c_entry c) e"
| "rec_ok c (RecHard h) = stores (c_hard c) h"
| "rec_ok c (RecTruncate i) = stores (c_index c) i"
| "rec_ok c (RecSnapshot m) = stores (c_meta c) m"

primrec rec_apply :: "wal_record \<Rightarrow> memory_log \<Rightarrow> raft_error + memory_log" where
  "rec_apply (RecEntry e) m =
    (case (if le_index e \<le> ml_last_index m \<and> \<not> is_empty_sentinel (le_index e) then ml_truncate_from (le_index e) m else Inr m) of
      Inl r \<Rightarrow> Inl r | Inr m \<Rightarrow> ml_append [e] m)"
| "rec_apply (RecHard h) m = Inr (ml_save_hard_state h m)"
| "rec_apply (RecTruncate i) m = (if i < ml_first_index m then Inr m else ml_truncate_from i m)"
| "rec_apply (RecSnapshot s) m =
    (if (case ml_snapshot_meta m of Some existing \<Rightarrow> sm_last_index s \<le> sm_last_index existing | None \<Rightarrow> False) then Inr m
     else ml_save_snapshot \<lparr> snap_meta = s, snap_data = [] \<rparr> m)"

primrec replays :: "wal_record list \<Rightarrow> memory_log \<Rightarrow> raft_error + memory_log" where
  "replays [] m = Inr m"
| "replays (r # rs) m = (case rec_apply r m of Inl e \<Rightarrow> Inl e | Inr m \<Rightarrow> replays rs m)"

definition rec_bytes :: "bool \<Rightarrow> 'x wal_codec \<Rightarrow> wal_record \<Rightarrow> u8 list" where
  "rec_bytes hw c r = record_bytes hw (rec_tag r) (rec_body c r)"

lemma rec_body_short: "rec_ok c r \<Longrightarrow> length (rec_body c r) \<le> max_record_body"
  by (cases r) (auto dest: storesD)

lemma tags_distinct: "distinct [tag_entry, tag_hard_state, tag_truncate, tag_snapshot]"
  by (simp add: tag_entry_def tag_hard_state_def tag_truncate_def tag_snapshot_def)

lemma apply_record_eq: "rec_ok c r \<Longrightarrow> apply_record c (rec_tag r) (rec_body c r) m offset = rec_apply r m"
  using tags_distinct by (cases r) (auto simp: apply_record_def wire_err_def dest: storesD(2))

lemma replays_append: "replays (rs @ rs') m = (case replays rs m of Inl e \<Rightarrow> Inl e | Inr m \<Rightarrow> replays rs' m)"
  by (induction rs arbitrary: m) (auto split: sum.split)

lemma length_rec_bytes: "length (rec_bytes hw c r) = length (rec_body c r) + 12"
  by (simp add: rec_bytes_def)

lemma read_rec_bytes:
  "rec_ok c r \<Longrightarrow> read_record hw (rec_bytes hw c r @ rest) offset = Inr (Complete (rec_tag r) (rec_body c r) (length (rec_bytes hw c r)))"
  unfolding rec_bytes_def by (simp add: read_record_whole rec_body_short)

lemma replay_loop_records:
  assumes "\<forall>r \<in> set rs. rec_ok c r" and "replays rs m = Inr m'"
  shows "replay_loop hw c (concat (map (rec_bytes hw c) rs) @ rest) cursor m =
    replay_loop hw c rest (cursor + length (concat (map (rec_bytes hw c) rs))) m'"
  using assms
proof (induction rs arbitrary: cursor m)
  case (Cons r rs)
  obtain m1 where m1: "rec_apply r m = Inr m1" "replays rs m1 = Inr m'"
    using Cons.prems(2) by (auto split: sum.splits)
  have ok: "rec_ok c r" using Cons.prems(1) by simp
  let ?rest = "concat (map (rec_bytes hw c) rs) @ rest"
  have "replay_loop hw c (rec_bytes hw c r @ ?rest) cursor m = replay_loop hw c ?rest (cursor + length (rec_bytes hw c r)) m1"
    using length_rec_bytes [of hw c r]
    by (subst replay_loop.simps) (auto simp: read_rec_bytes [OF ok] apply_record_eq [OF ok] m1(1))
  then show ?case using Cons.IH [OF _ m1(2)] Cons.prems(1) by (simp add: add.assoc)
qed simp

lemma replay_loop_torn:
  assumes "rec_ok c r" and "n < length (rec_bytes hw c r)"
  shows "replay_loop hw c (take n (rec_bytes hw c r)) cursor m = Inr (cursor, if n = 0 then Intact else TornTail, m)"
proof (cases "n = 0")
  case True
  then show ?thesis by (simp add: replay_loop.simps [of hw c "[]"])
next
  case False
  have "read_record hw (take n (rec_bytes hw c r)) cursor = Inr Incomplete"
    unfolding rec_bytes_def using assms by (intro read_record_torn) (auto simp: rec_body_short length_rec_bytes)
  moreover have "take n (rec_bytes hw c r) \<noteq> []" using False length_rec_bytes [of hw c r] by auto
  ultimately show ?thesis using False by (subst replay_loop.simps) simp
qed

definition wal_file :: "bool \<Rightarrow> 'x wal_codec \<Rightarrow> wal_record list \<Rightarrow> u8 list" where
  "wal_file hw c rs = prologue @ concat (map (rec_bytes hw c) rs)"

lemma prologue_facts:
  "length prologue = prologue_len" "take (length file_magic) prologue = file_magic"
  "from_le_bytes [prologue ! 8, prologue ! 9] = format_version"
  by (simp_all add: prologue_def prologue_len_def file_magic_def format_version_def numeral_2_eq_2)

lemma replay_prologue: "replay hw c (prologue @ rest) m = replay_loop hw c rest prologue_len m"
proof -
  have "take prologue_len (prologue @ rest) = prologue" "drop prologue_len (prologue @ rest) = rest"
    "\<not> length (prologue @ rest) < prologue_len"
    by (simp_all add: prologue_facts)
  then show ?thesis by (simp add: replay_def Let_def prologue_facts del: take_append drop_append length_append from_le_bytes.simps)
qed

lemma replay_wal_file:
  assumes "\<forall>r \<in> set rs. rec_ok c r" and "replays rs m = Inr m'" and "rec_ok c r" and "n < length (rec_bytes hw c r)"
  shows "replay hw c (wal_file hw c rs @ take n (rec_bytes hw c r)) m =
    Inr (length (wal_file hw c rs), if n = 0 then Intact else TornTail, m')"
  using replay_loop_records [OF assms(1,2), of hw "take n (rec_bytes hw c r)" prologue_len] replay_loop_torn [OF assms(3,4)]
  by (simp add: wal_file_def replay_prologue prologue_facts)

section \<open>Opening\<close>

definition sidecar_bytes :: "bool \<Rightarrow> 'x wal_codec \<Rightarrow> snapshot \<Rightarrow> u8 list" where
  "sidecar_bytes hw c s = to_le_bytes 2 format_version @ record_bytes hw tag_snapshot (body_of (c_snapshot c) s)"

definition sidecar :: "bool \<Rightarrow> 'x wal_codec \<Rightarrow> snapshot option \<Rightarrow> disk \<Rightarrow> bool" where
  "sidecar hw c so d \<longleftrightarrow> d_snap d = map_option (sidecar_bytes hw c) so \<and> (\<forall>s. so = Some s \<longrightarrow> stores (c_snapshot c) s)"

definition start :: "snapshot option \<Rightarrow> memory_log" where
  "start so = (case so of Some s \<Rightarrow> ml_install_snapshot s memory_log_new | None \<Rightarrow> memory_log_new)"

lemma fs_op_ok [simp]: "d_faults d = [] \<Longrightarrow> fs_op what path f d = ok () (f d)"
  by (simp add: fs_op_def next_fault_def)

lemma append_file_ok [simp]:
  "d_faults d = [] \<Longrightarrow> append_file what path bytes d = ok () (d \<lparr> d_wal := map_option (\<lambda>old. old @ bytes) (d_wal d) \<rparr>)"
  by (simp add: append_file_def next_fault_def)

lemma read_snapshot_sidecar:
  assumes "d_faults d = []" and "sidecar hw c so d"
  shows "read_snapshot hw c path d = ok so d"
proof (cases so)
  case (Some s)
  then have bytes: "d_snap d = Some (sidecar_bytes hw c s)" and st: "stores (c_snapshot c) s"
    using assms(2) by (auto simp: sidecar_def)
  have v: "take 2 (sidecar_bytes hw c s) = to_le_bytes 2 format_version" "\<not> length (sidecar_bytes hw c s) < 2"
    "drop 2 (sidecar_bytes hw c s) = record_bytes hw tag_snapshot (body_of (c_snapshot c) s) @ []"
    by (simp_all add: sidecar_bytes_def)
  have version: "from_le_bytes (to_le_bytes 2 format_version) = format_version" by (rule from_le_to_le_self) simp
  show ?thesis
    using assms(1) storesD [OF st]
    by (simp only: read_snapshot_def fs_op_ok [OF assms(1)] try_then_ok id_def bytes option.case v Let_def version
      read_record_whole [OF storesD(3) [OF st]]) (simp add: wire_err_def Some)
qed (use assms in \<open>simp add: read_snapshot_def sidecar_def\<close>)

lemma open_existing:
  assumes "d_faults d = []" and "sidecar hw c so d" and "d_wal d = Some bytes"
  shows "wal_open hw c path policy d = (case replay hw c bytes (start so) of
      Inl e \<Rightarrow> err e d
    | Inr (n, out, m) \<Rightarrow>
        let d' = (if was_repaired out then set_len n d else d)
        in ok \<lparr> wl_path = path, wl_disk = d', wl_mirror = m, wl_policy = policy, wl_unsynced = 0,
                wl_recovered_bytes = n, wl_outcome = out, wl_attached = True \<rparr> d')"
  using assms
  by (simp add: wal_open_def read_snapshot_sidecar start_def [symmetric] set_len_def Let_def split: sum.split)

lemma open_fresh:
  assumes "d_faults d = []" and "d_wal d = None" and "d_snap d = None"
  shows "wal_open hw c path policy d =
    (let d' = d \<lparr> d_wal := Some prologue \<rparr>
     in ok \<lparr> wl_path = path, wl_disk = d', wl_mirror = memory_log_new, wl_policy = policy, wl_unsynced = 0,
             wl_recovered_bytes = prologue_len, wl_outcome = Intact, wl_attached = True \<rparr> d')"
  using assms by (simp add: wal_open_def read_snapshot_def Let_def)

text \<open>
  A log whose file and sidecar describe its mirror. The records are ones the codec keeps, and so is
  everything the mirror holds.
\<close>

definition mirror_ok :: "'x wal_codec \<Rightarrow> memory_log \<Rightarrow> bool" where
  "mirror_ok c m \<longleftrightarrow> log_inv m \<and> stores (c_hard c) (ml_hard m) \<and> (\<forall>e \<in> set (ml_held m). stores (c_entry c) e)"

definition on_file :: "bool \<Rightarrow> 'x wal_codec \<Rightarrow> snapshot option \<Rightarrow> wal_record list \<Rightarrow> disk \<Rightarrow> bool" where
  "on_file hw c so rs d \<longleftrightarrow> sidecar hw c so d \<and> d_wal d = Some (wal_file hw c rs) \<and> (\<forall>r \<in> set rs. rec_ok c r)"

definition wal_inv :: "bool \<Rightarrow> 'x wal_codec \<Rightarrow> wal_log \<Rightarrow> bool" where
  "wal_inv hw c w \<longleftrightarrow> wl_attached w \<and> mirror_ok c (wl_mirror w) \<and>
    (\<exists>so rs. on_file hw c so rs (wl_disk w) \<and> replays rs (start so) = Inr (wl_mirror w))"

lemma wal_invI:
  "on_file hw c so rs (wl_disk w) \<Longrightarrow> replays rs (start so) = Inr (wl_mirror w) \<Longrightarrow> mirror_ok c (wl_mirror w) \<Longrightarrow> wl_attached w \<Longrightarrow> wal_inv hw c w"
  by (auto simp: wal_inv_def)

text \<open>Opening a file that ends in a part of a record drops that part.\<close>

lemma open_torn:
  assumes "d_faults d = []" and "sidecar hw c so d" and "\<forall>r \<in> set rs. rec_ok c r" and "rec_ok c r"
    and "n < length (rec_bytes hw c r)" and "d_wal d = Some (wal_file hw c rs @ take n (rec_bytes hw c r))"
    and "replays rs (start so) = Inr m" and "mirror_ok c m"
  shows "\<exists>w. wal_open hw c path policy d = ok w (wl_disk w) \<and> wl_mirror w = m \<and> wal_inv hw c w \<and> d_faults (wl_disk w) = []"
proof -
  let ?out = "if n = 0 then Intact else TornTail" and ?n = "length (wal_file hw c rs)"
  let ?d = "if was_repaired ?out then set_len ?n d else d"
  have disk: "d_wal ?d = Some (wal_file hw c rs)" "d_snap ?d = d_snap d" "d_faults ?d = []"
    using assms(1,6) by (auto simp: set_len_def was_repaired_def)
  let ?w = "\<lparr> wl_path = path, wl_disk = ?d, wl_mirror = m, wl_policy = policy, wl_unsynced = 0, wl_recovered_bytes = ?n, wl_outcome = ?out, wl_attached = True \<rparr>"
  have opened: "wal_open hw c path policy d = ok ?w ?d"
    unfolding open_existing [OF assms(1,2,6)] replay_wal_file [OF assms(3,7,4,5)] by (simp add: Let_def)
  have "on_file hw c so rs ?d" using assms(2,3) disk by (simp add: on_file_def sidecar_def)
  then have "wal_inv hw c ?w" using assms(7,8) by (intro wal_invI [of hw c so rs]) simp_all
  then show ?thesis using disk(3) opened by (intro exI [of _ ?w]) simp
qed

lemma open_whole:
  assumes "d_faults d = []" and "on_file hw c so rs d" and "replays rs (start so) = Inr m" and "mirror_ok c m"
  shows "\<exists>w. wal_open hw c path policy d = ok w d \<and> wl_mirror w = m \<and> wl_disk w = d \<and> wal_inv hw c w \<and> wl_outcome w = Intact"
proof -
  let ?w = "\<lparr> wl_path = path, wl_disk = d, wl_mirror = m, wl_policy = policy, wl_unsynced = 0,
    wl_recovered_bytes = length (wal_file hw c rs), wl_outcome = Intact, wl_attached = True \<rparr>"
  have f: "sidecar hw c so d" "d_wal d = Some (wal_file hw c rs)" "\<forall>r \<in> set rs. rec_ok c r" using assms(2) by (auto simp: on_file_def)
  have "replay_loop hw c [] n m = Inr (n, Intact, m)" for n by (simp add: replay_loop.simps [of hw c "[]"])
  then have "replay hw c (wal_file hw c rs) (start so) = Inr (length (wal_file hw c rs), Intact, m)"
    using replay_loop_records [OF f(3) assms(3), of hw "[]" prologue_len] by (simp add: wal_file_def replay_prologue prologue_facts)
  then have opened: "wal_open hw c path policy d = ok ?w d"
    using open_existing [OF assms(1) f(1,2), of path policy] by (simp add: was_repaired_def)
  have "wal_inv hw c ?w" using assms by (intro wal_invI [of hw c so rs]) simp_all
  then show ?thesis using opened by (intro exI [of _ ?w]) simp
qed

text \<open>A file of complete records with a part of one more behind them.\<close>

definition crashed :: "bool \<Rightarrow> 'x wal_codec \<Rightarrow> snapshot option \<Rightarrow> wal_record list \<Rightarrow> disk \<Rightarrow> bool" where
  "crashed hw c so rs d \<longleftrightarrow> on_file hw c so rs d \<or>
    sidecar hw c so d \<and> (\<forall>r \<in> set rs. rec_ok c r) \<and>
    (\<exists>r n. rec_ok c r \<and> n < length (rec_bytes hw c r) \<and> d_wal d = Some (wal_file hw c rs @ take n (rec_bytes hw c r)))"

lemma open_recovers:
  assumes "crashed hw c so rs d" and "replays rs (start so) = Inr m" and "mirror_ok c m"
  shows "\<exists>w. wal_open hw c path policy (d \<lparr> d_faults := [] \<rparr>) = ok w (wl_disk w) \<and> wl_mirror w = m \<and> wal_inv hw c w \<and> d_faults (wl_disk w) = []"
proof -
  let ?d = "d \<lparr> d_faults := [] \<rparr>"
  have sc: "sidecar hw c so ?d = sidecar hw c so d" by (simp add: sidecar_def)
  show ?thesis
  proof (cases "on_file hw c so rs d")
    case True
    then have "on_file hw c so rs ?d" by (simp add: on_file_def sc)
    with open_whole [of ?d hw c so rs m path policy] assms(2,3) show ?thesis by force
  next
    case False
    with assms(1) sc show ?thesis
      using open_torn [of ?d hw c so rs _ _ m path policy] assms(2,3) by (auto simp: crashed_def)
  qed
qed

section \<open>Writing\<close>

lemma wal_file_snoc: "wal_file hw c (rs @ [r]) = wal_file hw c rs @ rec_bytes hw c r"
  by (simp add: wal_file_def)

lemma on_disk_cases:
  assumes "on_disk f w = (res, w')"
  obtains d where "f (wl_disk w) = (res, d)" and "w' = w \<lparr> wl_disk := d \<rparr>"
  using assms by (auto simp: on_disk_def split: prod.splits)

lemma wal_sync_effect:
  assumes "wal_sync w = (res, w')"
  shows "wl_mirror w' = wl_mirror w \<and> wl_attached w' = wl_attached w \<and> d_wal (wl_disk w') = d_wal (wl_disk w) \<and> d_snap (wl_disk w') = d_snap (wl_disk w)"
  using assms
  by (auto simp: wal_sync_def on_disk_def fs_op_def next_fault_def ok_def err_def try_then_def split: prod.splits option.splits list.splits sum.splits)

lemma append_file_effect:
  assumes "append_file what path bytes d = (res, d')" and "d_wal d = Some f"
  shows "d_snap d' = d_snap d \<and> (\<exists>k. d_wal d' = Some (f @ take k bytes) \<and> (res = Inr () \<longrightarrow> length bytes \<le> k))"
  using assms by (auto simp: append_file_def next_fault_def ok_def err_def split: option.splits list.splits prod.splits intro: exI [of _ "length bytes"])

lemma write_record_effect:
  assumes "length body \<le> u32_max" and "d_wal (wl_disk w) = Some f" and "write_record hw tag body w = (res, w')" and att: "wl_attached w"
  shows "wl_mirror w' = wl_mirror w \<and> wl_attached w' \<and> d_snap (wl_disk w') = d_snap (wl_disk w) \<and>
    (\<exists>k. d_wal (wl_disk w') = Some (f @ take k (record_bytes hw tag body)) \<and> (res = Inr () \<longrightarrow> length (record_bytes hw tag body) \<le> k))"
proof -
  obtain r1 d1 where a: "append_file ''appending a record'' (wl_path w) (record_bytes hw tag body) (wl_disk w) = (r1, d1)" by fastforce
  from append_file_effect [OF a assms(2)] obtain k where
    k: "d_snap d1 = d_snap (wl_disk w)" "d_wal d1 = Some (f @ take k (record_bytes hw tag body))" "r1 = Inr () \<longrightarrow> length (record_bytes hw tag body) \<le> k"
    by blast
  show ?thesis
  proof (cases r1)
    case (Inl e)
    then have "res = Inl e" "w' = w \<lparr> wl_disk := d1 \<rparr>"
      using assms(3) a att by (auto simp: write_record_def append_framed_ok [OF assms(1)] on_disk_def try_then_def)
    then show ?thesis using k(1,2) att by (intro conjI exI [of _ k]) simp_all
  next
    case (Inr u)
    let ?w = "w \<lparr> wl_disk := d1, wl_unsynced := min (wl_unsynced w + 1) u32_max \<rparr>"
    have "(if should_sync (wl_policy ?w) (wl_unsynced ?w) then wal_sync ?w else ok () ?w) = (res, w')"
      using assms(3) Inr a att
      by (auto simp: write_record_def append_framed_ok [OF assms(1)] on_disk_def try_then_def Let_def split: if_splits)
    then have "wl_mirror w' = wl_mirror w \<and> wl_attached w' \<and> d_wal (wl_disk w') = d_wal d1 \<and> d_snap (wl_disk w') = d_snap d1"
      using wal_sync_effect [of ?w res w'] att by (auto simp: ok_def split: if_splits)
    then show ?thesis using k Inr by (intro conjI exI [of _ k]) simp_all
  qed
qed

lemma write_rec_effect:
  assumes ok: "rec_ok c r" and held: "on_file hw c so rs (wl_disk w)" and wr: "write_record hw (rec_tag r) (rec_body c r) w = (res, w')"
    and att: "wl_attached w"
  shows "wl_mirror w' = wl_mirror w \<and> wl_attached w'" and "res = Inr () \<Longrightarrow> on_file hw c so (rs @ [r]) (wl_disk w')"
    and "crashed hw c so rs (wl_disk w') \<or> on_file hw c so (rs @ [r]) (wl_disk w')"
proof -
  have f: "sidecar hw c so (wl_disk w)" "d_wal (wl_disk w) = Some (wal_file hw c rs)" "\<forall>r \<in> set rs. rec_ok c r"
    using held by (auto simp: on_file_def)
  have "length (rec_body c r) \<le> u32_max" using rec_body_short [OF ok] by (simp add: max_record_body_def u32_max_def)
  from write_record_effect [OF this f(2) wr att] obtain k where
    k: "wl_mirror w' = wl_mirror w \<and> wl_attached w'" "d_snap (wl_disk w') = d_snap (wl_disk w)"
      "d_wal (wl_disk w') = Some (wal_file hw c rs @ take k (rec_bytes hw c r))" "res = Inr () \<longrightarrow> length (rec_bytes hw c r) \<le> k"
    unfolding rec_bytes_def by blast
  have sc: "sidecar hw c so (wl_disk w')" using f(1) k(2) by (simp add: sidecar_def)
  have full: "on_file hw c so (rs @ [r]) (wl_disk w')" if "length (rec_bytes hw c r) \<le> k"
    using that k(3) sc f(3) ok by (simp add: on_file_def wal_file_snoc)
  show "wl_mirror w' = wl_mirror w \<and> wl_attached w'" by (rule k(1))
  show "on_file hw c so (rs @ [r]) (wl_disk w')" if "res = Inr ()" using full k(4) that by simp
  show "crashed hw c so rs (wl_disk w') \<or> on_file hw c so (rs @ [r]) (wl_disk w')"
    using full k(3) sc f(3) ok unfolding crashed_def by (metis not_le)
qed

lemma write_encoded_stores:
  "stores k m \<Longrightarrow> write_encoded hw c tag (encode_to_vec k m) w = write_record hw tag (body_of k m) w"
  by (simp add: write_encoded_def wire_err_def storesD)

lemma write_entries_effect:
  assumes "\<forall>e \<in> set es. stores (c_entry c) e" and "on_file hw c so rs (wl_disk w)"
    and "for_each (\<lambda>e. write_encoded hw c tag_entry (encode_to_vec (c_entry c) e)) es w = (res, w')"
    and "wl_attached w"
  shows "wl_mirror w' = wl_mirror w \<and> wl_attached w' \<and> (res = Inr () \<longrightarrow> on_file hw c so (rs @ map RecEntry es) (wl_disk w')) \<and>
    (\<exists>j \<le> length es. crashed hw c so (rs @ map RecEntry (take j es)) (wl_disk w'))"
  using assms
proof (induction es arbitrary: rs w)
  case Nil
  then show ?case by (auto simp: ok_def crashed_def)
next
  case (Cons e es)
  have ok: "rec_ok c (RecEntry e)" using Cons.prems(1) by simp
  obtain r1 w1 where wr: "write_record hw (rec_tag (RecEntry e)) (rec_body c (RecEntry e)) w = (r1, w1)" by fastforce
  note one = write_rec_effect [OF ok Cons.prems(2) wr Cons.prems(4)]
  have step: "for_each (\<lambda>e. write_encoded hw c tag_entry (encode_to_vec (c_entry c) e)) (e # es) w =
      try_then (r1, w1) (\<lambda>_. for_each (\<lambda>e. write_encoded hw c tag_entry (encode_to_vec (c_entry c) e)) es)"
    using wr Cons.prems(1) by (simp add: write_encoded_stores)
  show ?case
  proof (cases r1)
    case (Inl x)
    then have w': "res = Inl x" "w' = w1" using Cons.prems(3) unfolding step by (auto simp: try_then_def)
    have "\<exists>j \<le> Suc 0. crashed hw c so (rs @ map RecEntry (take j (e # es))) (wl_disk w1)"
      using one(3)
    proof
      assume "crashed hw c so rs (wl_disk w1)"
      then show ?thesis by (intro exI [of _ 0]) simp
    next
      assume "on_file hw c so (rs @ [RecEntry e]) (wl_disk w1)"
      then show ?thesis by (intro exI [of _ 1]) (simp add: crashed_def)
    qed
    then show ?thesis using w' one(1) by (auto intro: le_trans)
  next
    case (Inr u)
    then have rest: "for_each (\<lambda>e. write_encoded hw c tag_entry (encode_to_vec (c_entry c) e)) es w1 = (res, w')"
      using Cons.prems(3) unfolding step by (simp add: try_then_def)
    have "on_file hw c so (rs @ [RecEntry e]) (wl_disk w1)" using one(2) Inr by simp
    from Cons.IH [OF _ this rest] Cons.prems(1) one(1) obtain j where
      "wl_mirror w' = wl_mirror w1 \<and> wl_attached w' \<and> (res = Inr () \<longrightarrow> on_file hw c so ((rs @ [RecEntry e]) @ map RecEntry es) (wl_disk w'))"
      "j \<le> length es" "crashed hw c so ((rs @ [RecEntry e]) @ map RecEntry (take j es)) (wl_disk w')" by auto
    then show ?thesis using one(1) by (auto intro!: exI [of _ "Suc j"])
  qed
qed

section \<open>What the records mean\<close>

lemma rec_apply_next:
  assumes "log_inv m" and "le_index e = Suc (ml_last_index m)" and "Suc (ml_last_index m) < u64_max"
  shows "rec_apply (RecEntry e) m = Inr (m \<lparr> ml_held := ml_held m @ [e] \<rparr>)" and "log_inv (m \<lparr> ml_held := ml_held m @ [e] \<rparr>)"
  using ml_append_ok [OF assms(1), of "[e]"] assms(2,3) by auto

lemma replays_entries:
  assumes "log_inv m" and "\<And>k. k < length es \<Longrightarrow> le_index (es ! k) = Suc (ml_last_index m) + k" and "ml_last_index m + length es < u64_max"
  shows "replays (map RecEntry es) m = Inr (m \<lparr> ml_held := ml_held m @ es \<rparr>) \<and> log_inv (m \<lparr> ml_held := ml_held m @ es \<rparr>)"
  using assms
proof (induction es arbitrary: m)
  case (Cons e es)
  have e: "le_index e = Suc (ml_last_index m)" using Cons.prems(2) [of 0] by simp
  let ?m = "m \<lparr> ml_held := ml_held m @ [e] \<rparr>"
  have one: "rec_apply (RecEntry e) m = Inr ?m" "log_inv ?m"
    using rec_apply_next [OF Cons.prems(1) e] Cons.prems(3) by simp_all
  have "ml_last_index ?m = Suc (ml_last_index m)" using e by (simp add: ml_last_index_def)
  moreover have "le_index (es ! k) = Suc (Suc (ml_last_index m)) + k" if "k < length es" for k
    using Cons.prems(2) [of "Suc k"] that by simp
  ultimately show ?case using Cons.IH [OF one(2)] Cons.prems(3) one(1) by simp
qed simp

text \<open>A log that never reaches the largest index accepts exactly the consecutive entries.\<close>

lemma ml_append_exact:
  assumes inv: "log_inv m" and app: "ml_append es m = Inr m'" and inv': "log_inv m'"
  shows "m' = m \<lparr> ml_held := ml_held m @ es \<rparr>" and "ml_last_index m + length es < u64_max"
    and "k < length es \<Longrightarrow> le_index (es ! k) = Suc (ml_last_index m) + k"
proof -
  show m': "m' = m \<lparr> ml_held := ml_held m @ es \<rparr>" using app by (cases rule: ml_append_cases [of es m]) auto
  show bound: "ml_last_index m + length es < u64_max"
    using ml_append_last [OF inv] ml_last_index_bound [OF inv'] inv' m' by simp
  show "le_index (es ! k) = Suc (ml_last_index m) + k" if "k < length es"
    using app bound that by (cases rule: ml_append_cases [of es m]) (auto simp: index_next_exact sat_add_exact)
qed

section \<open>Calls\<close>

datatype wal_call =
    SaveHardState hard_state
  | AppendEntries "log_entry list"
  | TruncateFrom log_index
  | SaveSnapshot snapshot
  | InstallSnapshot snapshot
  | SyncLog

primrec wal_step :: "bool \<Rightarrow> 'x wal_codec \<Rightarrow> wal_call \<Rightarrow> wal_log \<Rightarrow> (raft_error, unit, wal_log) outcome" where
  "wal_step hw c (SaveHardState h) w = wal_save_hard_state hw c h w"
| "wal_step hw c (AppendEntries es) w = wal_append hw c es w"
| "wal_step hw c (TruncateFrom i) w = wal_truncate_from hw c i w"
| "wal_step hw c (SaveSnapshot s) w = wal_save_snapshot hw c s w"
| "wal_step hw c (InstallSnapshot s) w = wal_install_snapshot hw c s w"
| "wal_step hw c SyncLog w = wal_sync w"

text \<open>The same call on the in-memory log.\<close>

primrec mem_step :: "wal_call \<Rightarrow> memory_log \<Rightarrow> raft_error + memory_log" where
  "mem_step (SaveHardState h) m = Inr (ml_save_hard_state h m)"
| "mem_step (AppendEntries es) m = ml_append es m"
| "mem_step (TruncateFrom i) m = ml_truncate_from i m"
| "mem_step (SaveSnapshot s) m = ml_save_snapshot s m"
| "mem_step (InstallSnapshot s) m = Inr (ml_install_snapshot s m)"
| "mem_step SyncLog m = Inr m"

primrec payload_ok :: "'x wal_codec \<Rightarrow> wal_call \<Rightarrow> bool" where
  "payload_ok c (SaveHardState h) = stores (c_hard c) h"
| "payload_ok c (AppendEntries es) = (\<forall>e \<in> set es. stores (c_entry c) e)"
| "payload_ok c (TruncateFrom i) = stores (c_index c) i"
| "payload_ok c (SaveSnapshot s) = (stores (c_snapshot c) s \<and> stores (c_meta c) (snap_meta s))"
| "payload_ok c (InstallSnapshot s) = (stores (c_snapshot c) s \<and> stores (c_meta c) (snap_meta s))"
| "payload_ok c SyncLog = True"

text \<open>The codec keeps what the call carries, and the call does not take the log to the largest index.\<close>

definition call_ok :: "'x wal_codec \<Rightarrow> wal_call \<Rightarrow> memory_log \<Rightarrow> bool" where
  "call_ok c call m \<longleftrightarrow> payload_ok c call \<and> (case mem_step call m of Inl e \<Rightarrow> True | Inr m' \<Rightarrow> log_inv m')"

fun takes_snapshot :: "wal_call \<Rightarrow> bool" where
  "takes_snapshot (SaveSnapshot s) = True"
| "takes_snapshot (InstallSnapshot s) = True"
| "takes_snapshot _ = False"

text \<open>Parts of a call: an append of several entries may get through with some of them.\<close>

fun part_of :: "wal_call \<Rightarrow> wal_call \<Rightarrow> bool" where
  "part_of (AppendEntries xs) (AppendEntries es) = (xs = take (length xs) es)"
| "part_of a b = (a = b)"

lemma part_of_refl [simp]: "part_of a a"
  by (cases a) simp_all

lemma mem_step_mirror_ok:
  assumes "mirror_ok c m" and "call_ok c call m" and "mem_step call m = Inr m'"
  shows "mirror_ok c m'"
  using assms
  by (cases call) (auto simp: mirror_ok_def call_ok_def ml_save_hard_state_def ml_append_def ml_truncate_from_def ml_save_snapshot_def
    ml_install_snapshot_def Let_def split: sum.splits if_splits option.splits, meson in_set_takeD)

lemma write_one:
  assumes inv: "wal_inv hw c w" and ok: "rec_ok c r" and wr: "write_record hw (rec_tag r) (rec_body c r) (w \<lparr> wl_mirror := m1 \<rparr>) = (res, w')"
    and m': "rec_apply r (wl_mirror w) = Inr m'" and "mirror_ok c m'"
  shows "wl_mirror w' = m1"
    and "\<exists>so rs m2. crashed hw c so rs (wl_disk w') \<and> replays rs (start so) = Inr m2 \<and> mirror_ok c m2 \<and>
      (m2 = m' \<or> res \<noteq> Inr () \<and> m2 = wl_mirror w)"
    and "res = Inr () \<Longrightarrow> m1 = m' \<Longrightarrow> wal_inv hw c w'"
proof -
  obtain so rs where f: "on_file hw c so rs (wl_disk w)" "replays rs (start so) = Inr (wl_mirror w)" and mok: "mirror_ok c (wl_mirror w)"
    using inv by (auto simp: wal_inv_def)
  have f': "on_file hw c so rs (wl_disk (w \<lparr> wl_mirror := m1 \<rparr>))" using f(1) by simp
  have "wl_attached (w \<lparr> wl_mirror := m1 \<rparr>)" using inv by (simp add: wal_inv_def)
  note eff = write_rec_effect [OF ok f' wr this]
  have rep: "replays (rs @ [r]) (start so) = Inr m'" using f(2) m' by (simp add: replays_append)
  show "wl_mirror w' = m1" using eff(1) by simp
  have new: "crashed hw c so (rs @ [r]) (wl_disk w')" if "on_file hw c so (rs @ [r]) (wl_disk w')"
    using that by (simp add: crashed_def)
  show "\<exists>so rs m2. crashed hw c so rs (wl_disk w') \<and> replays rs (start so) = Inr m2 \<and> mirror_ok c m2 \<and>
      (m2 = m' \<or> res \<noteq> Inr () \<and> m2 = wl_mirror w)"
    using eff(2,3) new rep f(2) mok assms(5) by blast
  show "wal_inv hw c w'" if "res = Inr ()" "m1 = m'"
    using eff(1,2) that rep assms(5) by (intro wal_invI [of hw c so "rs @ [r]"]) simp_all
qed

section \<open>Crashes\<close>

text \<open>What a call leaves on disk, whatever faults it met: the records of a part of it.\<close>

definition leaves :: "bool \<Rightarrow> 'x wal_codec \<Rightarrow> wal_call \<Rightarrow> memory_log \<Rightarrow> raft_error + unit \<Rightarrow> disk \<Rightarrow> bool" where
  "leaves hw c call m res d \<longleftrightarrow> (\<exists>so rs m2. crashed hw c so rs d \<and> replays rs (start so) = Inr m2 \<and> mirror_ok c m2 \<and>
    (res \<noteq> Inr () \<and> m2 = m \<or> (\<exists>part. part_of part call \<and> mem_step part m = Inr m2 \<and> (res = Inr () \<longrightarrow> part = call))))"

lemma leaves_same:
  assumes "wal_inv hw c w" and "res \<noteq> Inr () \<or> mem_step call (wl_mirror w) = Inr (wl_mirror w)" and "wl_disk w1 = wl_disk w"
  shows "leaves hw c call (wl_mirror w) res (wl_disk w1)"
proof -
  obtain so rs where "on_file hw c so rs (wl_disk w)" "replays rs (start so) = Inr (wl_mirror w)" "mirror_ok c (wl_mirror w)"
    using assms(1) by (auto simp: wal_inv_def)
  then show ?thesis
    using assms(2,3) part_of_refl unfolding leaves_def crashed_def by metis
qed

lemma leaves_one:
  assumes "wal_inv hw c w" and "rec_ok c r" and "write_record hw (rec_tag r) (rec_body c r) (w \<lparr> wl_mirror := m1 \<rparr>) = (res, w')"
    and "rec_apply r (wl_mirror w) = Inr m'" and "mirror_ok c m'" and "mem_step call (wl_mirror w) = Inr m'"
  shows "leaves hw c call (wl_mirror w) res (wl_disk w')"
  using write_one(2) [OF assms(1-5)] assms(6) part_of_refl unfolding leaves_def by metis

lemma leaves_append:
  assumes inv: "wal_inv hw c w" and call: "call_ok c (AppendEntries es) (wl_mirror w)" and app: "wal_append hw c es w = (res, w1)"
  shows "leaves hw c (AppendEntries es) (wl_mirror w) res (wl_disk w1)"
proof (cases "ml_append es (wl_mirror w)")
  case (Inl e)
  then have "check_contiguous (ml_last_index (wl_mirror w)) es = Inl e" by (auto simp: ml_append_def split: sum.splits)
  then have "res = Inl e" "w1 = w" using app by (auto simp: wal_append_def err_def)
  then show ?thesis using inv by (intro leaves_same) simp_all
next
  case (Inr m')
  let ?m = "wl_mirror w"
  obtain so rs where f: "on_file hw c so rs (wl_disk w)" "replays rs (start so) = Inr ?m" and mok: "mirror_ok c ?m"
    using inv by (auto simp: wal_inv_def)
  have st: "\<forall>e \<in> set es. stores (c_entry c) e" and inv': "log_inv m'" using call Inr by (auto simp: call_ok_def)
  note ex = ml_append_exact [OF _ Inr inv'] 
  have linv: "log_inv ?m" using mok by (simp add: mirror_ok_def)
  obtain r1 w2 where fe: "for_each (\<lambda>e. write_encoded hw c tag_entry (encode_to_vec (c_entry c) e)) es w = (r1, w2)" by fastforce
  have "wl_attached w" using inv by (simp add: wal_inv_def)
  from write_entries_effect [OF st f(1) fe this] obtain j where
    j: "wl_mirror w2 = ?m" "j \<le> length es" "crashed hw c so (rs @ map RecEntry (take j es)) (wl_disk w2)"
      "r1 = Inr () \<longrightarrow> on_file hw c so (rs @ map RecEntry es) (wl_disk w2)" by blast
  have "check_contiguous (ml_last_index ?m) es = Inr ()" using Inr by (auto simp: ml_append_def split: sum.splits)
  then have res: "wl_disk w1 = wl_disk w2" "res = Inr () \<longleftrightarrow> r1 = Inr ()"
    using app fe j(1) Inr by (auto simp: wal_append_def try_then_def on_mirror_def lift_part_def ok_def split: sum.splits)
  define n where "n = (if r1 = Inr () then length es else j)"
  have n: "n \<le> length es" "crashed hw c so (rs @ map RecEntry (take n es)) (wl_disk w1)" "r1 = Inr () \<longrightarrow> n = length es"
    using j res(1) by (auto simp: n_def crashed_def)
  have idx: "le_index (take n es ! k) = Suc (ml_last_index ?m) + k" if "k < length (take n es)" for k
    using ex(3) [OF linv] that by simp
  have "replays (map RecEntry (take n es)) ?m = Inr (?m \<lparr> ml_held := ml_held ?m @ take n es \<rparr>) \<and> log_inv (?m \<lparr> ml_held := ml_held ?m @ take n es \<rparr>)"
    using ex(2) [OF linv] n(1) idx by (intro replays_entries [OF linv]) simp_all
  moreover have "ml_append (take n es) ?m = Inr (?m \<lparr> ml_held := ml_held ?m @ take n es \<rparr>)"
    using ex(2) [OF linv] n(1) idx by (intro ml_append_ok(1) [OF linv]) simp_all
  moreover have "mirror_ok c (?m \<lparr> ml_held := ml_held ?m @ take n es \<rparr>)" if "log_inv (?m \<lparr> ml_held := ml_held ?m @ take n es \<rparr>)"
    using that mok st by (auto simp: mirror_ok_def dest: in_set_takeD)
  ultimately show ?thesis
    using n f(2) res(2) unfolding leaves_def
    by (intro exI [of _ so] exI [of _ "rs @ map RecEntry (take n es)"] exI [of _ "?m \<lparr> ml_held := ml_held ?m @ take n es \<rparr>"])
      (auto simp: replays_append intro: exI [of _ "AppendEntries (take n es)"])
qed

lemma leaves_step:
  assumes inv: "wal_inv hw c w" and call: "call_ok c call (wl_mirror w)" and "\<not> takes_snapshot call" and step: "wal_step hw c call w = (res, w1)"
  shows "leaves hw c call (wl_mirror w) res (wl_disk w1)"
proof (cases call)
  case (SaveHardState h)
  let ?m' = "ml_save_hard_state h (wl_mirror w)"
  obtain r1 w2 where wr: "write_record hw tag_hard_state (body_of (c_hard c) h) w = (r1, w2)" by fastforce
  have st: "stores (c_hard c) h" using call SaveHardState by (simp add: call_ok_def)
  have mok: "mirror_ok c ?m'" using inv call mem_step_mirror_ok [of c "wl_mirror w" call] SaveHardState by (auto simp: wal_inv_def)
  have "leaves hw c call (wl_mirror w) r1 (wl_disk w2)"
    using leaves_one [OF inv, of "RecHard h" "wl_mirror w" r1 w2 ?m' call] wr st mok SaveHardState by simp
  moreover have "wl_disk w1 = wl_disk w2" "res = r1"
    using step wr st SaveHardState
    by (auto simp: wal_save_hard_state_def write_encoded_stores try_then_def on_mirror_def lift_part_def ok_def split: sum.splits)
  ultimately show ?thesis by simp
next
  case (TruncateFrom i)
  show ?thesis
  proof (cases "ml_truncate_from i (wl_mirror w)")
    case (Inl e)
    then have "res = Inl e" "w1 = w" using step TruncateFrom by (auto simp: wal_truncate_from_def on_mirror_def lift_part_def err_def try_then_def)
    then show ?thesis using inv by (intro leaves_same) simp_all
  next
    case (Inr m')
    have st: "stores (c_index c) i" using call TruncateFrom by (simp add: call_ok_def)
    have mok: "mirror_ok c m'" using inv call mem_step_mirror_ok [of c "wl_mirror w" call m'] TruncateFrom Inr by (auto simp: wal_inv_def)
    have "\<not> i < ml_first_index (wl_mirror w)" using Inr by (auto simp: ml_truncate_from_def Let_def split: if_splits)
    moreover have "write_record hw tag_truncate (body_of (c_index c) i) (w \<lparr> wl_mirror := m' \<rparr>) = (res, w1)"
      using step TruncateFrom Inr st by (simp add: wal_truncate_from_def on_mirror_def lift_part_def write_encoded_stores)
    ultimately show ?thesis
      using leaves_one [OF inv, of "RecTruncate i" m' res w1 m' call] st mok TruncateFrom Inr by simp
  qed
next
  case SyncLog
  then have "leaves hw c call (wl_mirror w) res (wl_disk w)" using leaves_same [OF inv, of res call w] by simp
  moreover have "d_wal (wl_disk w1) = d_wal (wl_disk w)" "d_snap (wl_disk w1) = d_snap (wl_disk w)"
    using wal_sync_effect step SyncLog by auto
  ultimately show ?thesis by (simp add: leaves_def crashed_def on_file_def sidecar_def)
qed (use assms leaves_append in auto)

section \<open>Without faults\<close>

lemma write_record_clean:
  assumes "d_faults (wl_disk w) = []" and "length body \<le> u32_max"
  shows "\<exists>w'. write_record hw tag body w = ok () w' \<and> d_faults (wl_disk w') = []"
  using assms by (simp add: write_record_def append_framed_ok on_disk_def wal_sync_def Let_def ok_def try_then_def)

lemma write_one_clean:
  assumes inv: "wal_inv hw c w" and clean: "d_faults (wl_disk w) = []" and ok: "rec_ok c r"
    and m': "rec_apply r (wl_mirror w) = Inr m'" and "mirror_ok c m'"
  shows "\<exists>w'. write_record hw (rec_tag r) (rec_body c r) (w \<lparr> wl_mirror := m' \<rparr>) = ok () w' \<and>
    d_faults (wl_disk w') = [] \<and> wl_mirror w' = m' \<and> wal_inv hw c w'"
proof -
  have len: "length (rec_body c r) \<le> u32_max" using rec_body_short [OF ok] by (simp add: max_record_body_def u32_max_def)
  obtain w' where w': "write_record hw (rec_tag r) (rec_body c r) (w \<lparr> wl_mirror := m' \<rparr>) = ok () w'" "d_faults (wl_disk w') = []"
    using write_record_clean [OF _ len, of "w \<lparr> wl_mirror := m' \<rparr>" hw "rec_tag r"] clean by auto
  have "write_record hw (rec_tag r) (rec_body c r) (w \<lparr> wl_mirror := m' \<rparr>) = (Inr (), w')" using w'(1) by (simp add: ok_def)
  from write_one(1,3) [OF inv ok this m' assms(5)] show ?thesis using w' by auto
qed

lemma ok_inject [simp]: "ok a s = ok a' s' \<longleftrightarrow> a = a' \<and> s = s'"
  by (simp add: ok_def)

lemma write_entries_clean:
  assumes "d_faults (wl_disk w) = []" and "\<forall>e \<in> set es. stores (c_entry c) e"
  shows "\<exists>w'. for_each (\<lambda>e. write_encoded hw c tag_entry (encode_to_vec (c_entry c) e)) es w = ok () w' \<and> d_faults (wl_disk w') = []"
  using assms
proof (induction es arbitrary: w)
  case (Cons e es)
  then obtain w1 where "write_record hw tag_entry (body_of (c_entry c) e) w = ok () w1" "d_faults (wl_disk w1) = []"
    using write_record_clean [of w "body_of (c_entry c) e" hw tag_entry] storesD(4) by force
  then show ?case using Cons.IH [of w1] Cons.prems(2) by (simp add: write_encoded_stores)
qed simp

text \<open>What a call has to keep when no fault comes.\<close>

definition keeps :: "bool \<Rightarrow> 'x wal_codec \<Rightarrow> memory_log \<Rightarrow> (raft_error, unit, wal_log) outcome \<Rightarrow> bool" where
  "keeps hw c m' r \<longleftrightarrow> (\<exists>w'. r = ok () w' \<and> d_faults (wl_disk w') = [] \<and> wl_mirror w' = m' \<and> wal_inv hw c w')"

lemma clean_hard:
  assumes inv: "wal_inv hw c w" and clean: "d_faults (wl_disk w) = []" and st: "stores (c_hard c) h" and mok: "mirror_ok c (ml_save_hard_state h (wl_mirror w))"
  shows "keeps hw c (ml_save_hard_state h (wl_mirror w)) (wal_save_hard_state hw c h w)"
proof -
  let ?m' = "ml_save_hard_state h (wl_mirror w)"
  obtain so rs where f: "on_file hw c so rs (wl_disk w)" "replays rs (start so) = Inr (wl_mirror w)"
    using inv by (auto simp: wal_inv_def)
  obtain w1 where w1: "write_record hw tag_hard_state (body_of (c_hard c) h) w = ok () w1" "d_faults (wl_disk w1) = []"
    using write_record_clean [OF clean storesD(4) [OF st]] by blast
  have "write_record hw (rec_tag (RecHard h)) (rec_body c (RecHard h)) w = (Inr (), w1)" using w1(1) by (simp add: ok_def)
  from write_rec_effect(1,2) [OF _ f(1) this] st inv have "wl_mirror w1 = wl_mirror w" "wl_attached w1" "on_file hw c so (rs @ [RecHard h]) (wl_disk w1)" by (simp_all add: wal_inv_def)
  moreover from this have "wal_inv hw c (w1 \<lparr> wl_mirror := ?m' \<rparr>)"
    using f(2) mok by (intro wal_invI [of hw c so "rs @ [RecHard h]"]) (simp_all add: replays_append)
  ultimately show ?thesis
    using w1 by (simp add: keeps_def wal_save_hard_state_def write_encoded_stores [OF st] on_mirror_def lift_part_def)
qed

lemma clean_append:
  assumes inv: "wal_inv hw c w" and clean: "d_faults (wl_disk w) = []" and st: "\<forall>e \<in> set es. stores (c_entry c) e"
    and app: "ml_append es (wl_mirror w) = Inr m'" and mok: "mirror_ok c m'"
  shows "keeps hw c m' (wal_append hw c es w)"
proof -
  obtain so rs where f: "on_file hw c so rs (wl_disk w)" "replays rs (start so) = Inr (wl_mirror w)" and linv: "log_inv (wl_mirror w)"
    using inv by (auto simp: wal_inv_def mirror_ok_def)
  obtain w1 where w1: "for_each (\<lambda>e. write_encoded hw c tag_entry (encode_to_vec (c_entry c) e)) es w = ok () w1" "d_faults (wl_disk w1) = []"
    using write_entries_clean [OF clean st] by blast
  have "wl_attached w" using inv by (simp add: wal_inv_def)
  then have att: "wl_attached w1" and "wl_mirror w1 = wl_mirror w" "on_file hw c so (rs @ map RecEntry es) (wl_disk w1)"
    using write_entries_effect [OF st f(1), of "Inr ()" w1] w1(1) by (simp_all add: ok_def)
  moreover have "replays (map RecEntry es) (wl_mirror w) = Inr m'"
    using ml_append_exact [OF linv app] mok replays_entries [OF linv, of es] by (simp add: mirror_ok_def)
  moreover have "check_contiguous (ml_last_index (wl_mirror w)) es = Inr ()" using app by (auto simp: ml_append_def split: sum.splits)
  moreover have "wal_inv hw c (w1 \<lparr> wl_mirror := m' \<rparr>)"
    if "on_file hw c so (rs @ map RecEntry es) (wl_disk w1)" "replays (map RecEntry es) (wl_mirror w) = Inr m'"
    using that f(2) mok att by (intro wal_invI [of hw c so "rs @ map RecEntry es"]) (simp_all add: replays_append)
  ultimately show ?thesis
    using w1 app by (simp add: keeps_def wal_append_def on_mirror_def lift_part_def)
qed

lemma frame_entries_ok:
  assumes "\<forall>e \<in> set es. stores (c_entry c) e"
  shows "frame_entries hw c es out = Inr (out @ concat (map (rec_bytes hw c) (map RecEntry es)))"
  using assms by (induction es arbitrary: out) (simp_all add: frame_encoded_def wire_err_def storesD append_framed_ok rec_bytes_def)

lemma regenerated_ok:
  assumes "mirror_ok c m" and "ml_snap m = Some s" and "stores (c_meta c) (snap_meta s)"
  shows "regenerated hw c m = Inr (wal_file hw c (RecSnapshot (snap_meta s) # RecHard (ml_hard m) # map RecEntry (ml_held m)))"
  using assms
  by (simp add: regenerated_def ml_snapshot_meta_def frame_encoded_def wire_err_def storesD append_framed_ok frame_entries_ok mirror_ok_def
    wal_file_def rec_bytes_def)

lemma replays_regenerated:
  assumes inv: "log_inv m" and snap: "ml_snap m = Some s"
  shows "replays (RecSnapshot (snap_meta s) # RecHard (ml_hard m) # map RecEntry (ml_held m)) (start (Some s)) = Inr m"
proof -
  let ?m0 = "m \<lparr> ml_held := [] \<rparr>"
  have m0: "log_inv ?m0" using log_inv_take [OF inv, of 0] by simp
  have last: "Suc (ml_last_index ?m0) = ml_first_index m" using ml_last_index_eq [OF m0] by simp
  have "replays (map RecEntry (ml_held m)) ?m0 = Inr (?m0 \<lparr> ml_held := ml_held ?m0 @ ml_held m \<rparr>)"
  proof (rule replays_entries [THEN conjunct1, OF m0])
    show "le_index (ml_held m ! k) = Suc (ml_last_index ?m0) + k" if "k < length (ml_held m)" for k
      using ml_held_index [OF inv that] last by simp
    show "ml_last_index ?m0 + length (ml_held m) < u64_max"
      using last ml_last_index_eq [OF inv] ml_last_index_bound [OF inv] by simp
  qed
  moreover have "ml_save_hard_state (ml_hard m) (start (Some s)) = ?m0"
    using snap by (simp add: start_def ml_install_snapshot_def ml_save_hard_state_def memory_log_new_def)
  moreover have "ml_snapshot_meta (start (Some s)) = Some (snap_meta s)" by (simp add: start_def ml_install_snapshot_def ml_snapshot_meta_def)
  ultimately show ?thesis by simp
qed

lemma clean_snapshot:
  assumes clean: "d_faults (wl_disk w) = []" and mok: "mirror_ok c (wl_mirror w)" and snap: "ml_snap (wl_mirror w) = Some s"
    and st: "stores (c_snapshot c) s" "stores (c_meta c) (snap_meta s)"
  shows "keeps hw c (wl_mirror w) (try_then (write_snapshot_sidecar hw c s w) (\<lambda>_. regenerate hw c))"
proof -
  let ?rs = "RecSnapshot (snap_meta s) # RecHard (ml_hard (wl_mirror w)) # map RecEntry (ml_held (wl_mirror w))"
  let ?d = "(wl_disk w) \<lparr> d_snap := Some (sidecar_bytes hw c s), d_wal := Some (wal_file hw c ?rs) \<rparr>"
  let ?w = "w \<lparr> wl_disk := ?d, wl_attached := True, wl_unsynced := 0, wl_recovered_bytes := length (wal_file hw c ?rs) \<rparr>"
  have "try_then (write_snapshot_sidecar hw c s w) (\<lambda>_. regenerate hw c) = ok () ?w"
    using clean regenerated_ok [OF mok snap st(2), of hw] storesD [OF st(1)]
    by (simp add: write_snapshot_sidecar_def regenerate_def frame_encoded_def wire_err_def append_framed_ok on_disk_def sidecar_bytes_def
      Let_def ok_def try_then_def)
  moreover have "on_file hw c (Some s) ?rs ?d" using mok st by (auto simp: on_file_def sidecar_def mirror_ok_def)
  then have "wal_inv hw c ?w"
    using replays_regenerated [of "wl_mirror w" s] mok snap by (intro wal_invI [of hw c "Some s" ?rs]) (simp_all add: mirror_ok_def)
  ultimately show ?thesis using clean by (auto simp: keeps_def)
qed

end
