(* ===== verification/Raft_Durability.thy ===== *)
theory Raft_Durability
  imports Raft_Recovery
begin

text \<open>
  The properties of the write-ahead log: it answers as the in-memory log across restarts, it survives a
  crash in the middle of a call that only appends, and the failures it does not survive.
\<close>

section \<open>Calls and restarts\<close>

lemma clean_step:
  assumes inv: "wal_inv hw c w" and clean: "d_faults (wl_disk w) = []" and call: "call_ok c call (wl_mirror w)"
  shows "case mem_step call (wl_mirror w) of Inl e \<Rightarrow> wal_step hw c call w = err e w | Inr m' \<Rightarrow> keeps hw c m' (wal_step hw c call w)"
proof (cases "mem_step call (wl_mirror w)")
  case (Inl e)
  then show ?thesis
    by (cases call) (auto simp: ml_append_def wal_append_def wal_truncate_from_def wal_save_snapshot_def on_mirror_def lift_part_def split: sum.splits)
next
  case (Inr m')
  have mok: "mirror_ok c m'" using inv call Inr mem_step_mirror_ok by (auto simp: wal_inv_def)
  show ?thesis
  proof (cases call)
    case (SaveHardState h)
    then show ?thesis using clean_hard [OF inv clean] call Inr mok by (auto simp: call_ok_def)
  next
    case (AppendEntries es)
    then show ?thesis using clean_append [OF inv clean] call Inr mok by (auto simp: call_ok_def)
  next
    case (TruncateFrom i)
    have st: "stores (c_index c) i" using call TruncateFrom by (simp add: call_ok_def)
    have "\<not> i < ml_first_index (wl_mirror w)" using Inr TruncateFrom by (auto simp: ml_truncate_from_def Let_def split: if_splits)
    then show ?thesis
      using write_one_clean [OF inv clean, of "RecTruncate i" m'] st Inr mok TruncateFrom
      by (auto simp: keeps_def wal_truncate_from_def on_mirror_def lift_part_def write_encoded_stores)
  next
    case (SaveSnapshot s)
    have "ml_snap m' = Some s" using Inr SaveSnapshot by (auto simp: ml_save_snapshot_def Let_def split: if_splits)
    then show ?thesis
      using clean_snapshot [of "w \<lparr> wl_mirror := m' \<rparr>" c s hw] clean mok call Inr SaveSnapshot
      by (simp add: call_ok_def wal_save_snapshot_def on_mirror_def lift_part_def)
  next
    case (InstallSnapshot s)
    have "ml_snap m' = Some s" using Inr InstallSnapshot by (auto simp: ml_install_snapshot_def)
    then show ?thesis
      using clean_snapshot [of "w \<lparr> wl_mirror := m' \<rparr>" c s hw] clean mok call Inr InstallSnapshot
      by (simp add: call_ok_def wal_install_snapshot_def on_mirror_def lift_part_def)
  next
    case SyncLog
    then show ?thesis
      using inv clean Inr by (simp add: keeps_def wal_sync_def on_disk_def ok_def try_then_def wal_inv_def)
  qed
qed

datatype wal_event = Call wal_call | Restart fsync_policy

primrec wal_run :: "bool \<Rightarrow> 'x wal_codec \<Rightarrow> wal_event list \<Rightarrow> wal_log \<Rightarrow> (raft_error + unit) list \<times> wal_log" where
  "wal_run hw c [] w = ([], w)"
| "wal_run hw c (ev # evs) w = (case ev of
      Call call \<Rightarrow> (case wal_step hw c call w of (r, w) \<Rightarrow> apfst ((#) r) (wal_run hw c evs w))
    | Restart policy \<Rightarrow> (case wal_open hw c (wl_path w) policy (wl_disk w) of
          (Inl e, d) \<Rightarrow> ([Inl e], w \<lparr> wl_disk := d \<rparr>)
        | (Inr w, d) \<Rightarrow> apfst ((#) (Inr ())) (wal_run hw c evs w)))"

text \<open>The in-memory log under the same calls, as if it were never restarted.\<close>

primrec mem_run :: "wal_event list \<Rightarrow> memory_log \<Rightarrow> (raft_error + unit) list \<times> memory_log" where
  "mem_run [] m = ([], m)"
| "mem_run (ev # evs) m = (case ev of
      Call call \<Rightarrow> (case mem_step call m of Inl e \<Rightarrow> apfst ((#) (Inl e)) (mem_run evs m) | Inr m \<Rightarrow> apfst ((#) (Inr ())) (mem_run evs m))
    | Restart policy \<Rightarrow> apfst ((#) (Inr ())) (mem_run evs m))"

primrec events_ok :: "'x wal_codec \<Rightarrow> wal_event list \<Rightarrow> memory_log \<Rightarrow> bool" where
  "events_ok c [] m = True"
| "events_ok c (ev # evs) m = (case ev of
      Call call \<Rightarrow> call_ok c call m \<and> events_ok c evs (case mem_step call m of Inl e \<Rightarrow> m | Inr m' \<Rightarrow> m')
    | Restart policy \<Rightarrow> events_ok c evs m)"

lemma wal_run_memory:
  assumes "wal_inv hw c w" and "d_faults (wl_disk w) = []" and "events_ok c evs (wl_mirror w)"
  shows "fst (wal_run hw c evs w) = fst (mem_run evs (wl_mirror w)) \<and> wl_mirror (snd (wal_run hw c evs w)) = snd (mem_run evs (wl_mirror w))"
  using assms
proof (induction evs arbitrary: w)
  case (Cons ev evs)
  show ?case
  proof (cases ev)
    case (Call call)
    then have call: "call_ok c call (wl_mirror w)" using Cons.prems(3) by simp
    show ?thesis
      using clean_step [OF Cons.prems(1,2) call] Cons.IH Cons.prems Call
      by (cases "mem_step call (wl_mirror w)") (auto simp: keeps_def err_def ok_def)
  next
    case (Restart policy)
    obtain so rs where "on_file hw c so rs (wl_disk w)" "replays rs (start so) = Inr (wl_mirror w)" "mirror_ok c (wl_mirror w)"
      using Cons.prems(1) by (auto simp: wal_inv_def)
    from open_whole [OF Cons.prems(2) this, of "wl_path w" policy] obtain w' where
      "wal_open hw c (wl_path w) policy (wl_disk w) = (Inr w', wl_disk w)" "wl_mirror w' = wl_mirror w" "wal_inv hw c w'" "wl_disk w' = wl_disk w"
      by (auto simp: ok_def)
    then show ?thesis using Cons.IH [of w'] Cons.prems Restart by simp
  qed
qed simp

lemma fresh_inv:
  assumes "d_wal d = None" and "d_snap d = None" and "d_faults d = []" and "stores (c_hard c) (ml_hard memory_log_new)"
  shows "\<exists>w. wal_open hw c path policy d = ok w (wl_disk w) \<and> wl_mirror w = memory_log_new \<and> wal_inv hw c w \<and> d_faults (wl_disk w) = []"
proof -
  let ?w = "\<lparr> wl_path = path, wl_disk = d \<lparr> d_wal := Some prologue \<rparr>, wl_mirror = memory_log_new, wl_policy = policy, wl_unsynced = 0,
    wl_recovered_bytes = prologue_len, wl_outcome = Intact, wl_attached = True \<rparr>"
  have "log_inv memory_log_new"
    by (simp add: log_inv_def log_wf_def log_fits_def memory_log_new_def ml_first_index_def index_first_def u64_max_def)
  then have "mirror_ok c memory_log_new" using assms(4) by (simp add: mirror_ok_def memory_log_new_def)
  then have "wal_inv hw c ?w"
    using assms(2) by (intro wal_invI [of hw c None "[]"]) (simp_all add: on_file_def sidecar_def wal_file_def start_def)
  then show ?thesis using open_fresh [OF assms(3,1,2), of hw c path policy] assms(3) by (intro exI [of _ ?w]) (simp add: Let_def)
qed

section \<open>The crash that leaves two generations\<close>

text \<open>Before the first entry of a log that was never compacted, there are only votes and truncations.\<close>

lemma rec_apply_snap: "rec_apply r m = Inr m' \<Longrightarrow> ml_snap m \<noteq> None \<Longrightarrow> ml_snap m' \<noteq> None"
  by (cases r) (auto simp: ml_append_def ml_truncate_from_def ml_save_hard_state_def ml_save_snapshot_def Let_def split: sum.splits if_splits option.splits)

lemma replays_snap: "replays rs m = Inr m' \<Longrightarrow> ml_snap m \<noteq> None \<Longrightarrow> ml_snap m' \<noteq> None"
  by (induction rs arbitrary: m) (auto split: sum.splits dest: rec_apply_snap)

fun is_meta :: "wal_record \<Rightarrow> bool" where
  "is_meta (RecHard h) = True"
| "is_meta (RecTruncate i) = True"
| "is_meta _ = False"

lemma first_entry:
  assumes "replays rs m = Inr m'" and "ml_snap m' = None" and "ml_held m = []" and "ml_held m' \<noteq> []"
  shows "\<exists>pre e post. rs = pre @ RecEntry e # post \<and> (\<forall>r \<in> set pre. is_meta r) \<and> le_index e = 1"
  using assms
proof (induction rs arbitrary: m)
  case (Cons r rs)
  then obtain m1 where m1: "rec_apply r m = Inr m1" "replays rs m1 = Inr m'" by (auto split: sum.splits)
  have snap: "ml_snap m = None" using replays_snap Cons.prems(1,2) by blast
  show ?case
  proof (cases r)
    case (RecEntry e)
    have "ml_last_index m = 0" using snap Cons.prems(3) by (simp add: ml_last_index_def index_zero_def)
    then have "le_index e = 1"
      using m1(1) RecEntry by (auto simp: is_empty_sentinel_def ml_append_def check_contiguous_def index_next_def sat_add_1 split: sum.splits if_splits)
    then show ?thesis using RecEntry by (intro exI [of _ "[]"]) simp
  next
    case (RecSnapshot s)
    then have "ml_snap m1 \<noteq> None" using m1(1) snap by (auto simp: ml_snapshot_meta_def ml_save_snapshot_def Let_def)
    then show ?thesis using replays_snap [OF m1(2)] Cons.prems(2) by simp
  next
    case (RecHard h)
    then have "ml_held m1 = []" using m1(1) Cons.prems(3) by (auto simp: ml_save_hard_state_def)
    from Cons.IH [OF m1(2) Cons.prems(2) this Cons.prems(4)] obtain pre e post where
      "rs = pre @ RecEntry e # post" "\<forall>r \<in> set pre. is_meta r" "le_index e = 1" by blast
    then show ?thesis using RecHard by (intro exI [of _ "r # pre"]) simp
  next
    case (RecTruncate i)
    then have "ml_held m1 = []"
      using m1(1) Cons.prems(3) by (auto simp: ml_truncate_from_def Let_def split: if_splits option.splits)
    from Cons.IH [OF m1(2) Cons.prems(2) this Cons.prems(4)] obtain pre e post where
      "rs = pre @ RecEntry e # post" "\<forall>r \<in> set pre. is_meta r" "le_index e = 1" by blast
    then show ?thesis using RecTruncate by (intro exI [of _ "r # pre"]) simp
  qed
qed simp

lemma meta_one:
  assumes "is_meta r" and "ml_held m = []" and "ml_snap m = Some s"
  shows "\<exists>m'. rec_apply r m = Inr m' \<and> ml_held m' = [] \<and> ml_snap m' = Some s"
  using assms by (cases r) (auto simp: ml_save_hard_state_def ml_truncate_from_ok not_less)

lemma meta_on_snapshot:
  assumes "\<forall>r \<in> set pre. is_meta r" and "ml_held m = []" and "ml_snap m = Some s"
  shows "\<exists>m'. replays pre m = Inr m' \<and> ml_held m' = [] \<and> ml_snap m' = Some s"
  using assms
proof (induction pre arbitrary: m)
  case (Cons r pre)
  then obtain m1 where "rec_apply r m = Inr m1" "ml_held m1 = []" "ml_snap m1 = Some s"
    using meta_one [of r m s] by auto
  then show ?case using Cons.IH [of m1] Cons.prems(1) by simp
qed simp

lemma entry_under_snapshot:
  assumes "ml_held m = []" and "ml_snap m = Some s" and "le_index e = 1" and "0 < sm_last_index (snap_meta s)" and "sm_last_index (snap_meta s) < u64_max"
  shows "rec_apply (RecEntry e) m = Inl (Compacted 1 (Suc (sm_last_index (snap_meta s))))"
  using assms by (simp add: ml_last_index_def ml_first_index_def ml_truncate_from_def is_empty_sentinel_def index_next_exact Let_def)

lemma two_generations:
  assumes ok: "\<forall>r \<in> set rs. rec_ok c r" and rep: "replays rs memory_log_new = Inr m" and "ml_snap m = None" and "ml_held m \<noteq> []"
    and s: "0 < sm_last_index (snap_meta s)" "sm_last_index (snap_meta s) < u64_max"
  shows "replay hw c (wal_file hw c rs) (start (Some s)) = Inl (Compacted 1 (Suc (sm_last_index (snap_meta s))))"
proof -
  obtain pre e post where rs: "rs = pre @ RecEntry e # post" "\<forall>r \<in> set pre. is_meta r" "le_index e = 1"
    using first_entry [OF rep assms(3) _ assms(4)] by (auto simp: memory_log_new_def)
  obtain m1 where m1: "replays pre (start (Some s)) = Inr m1" "ml_held m1 = []" "ml_snap m1 = Some s"
    using meta_on_snapshot [OF rs(2), of "start (Some s)" s] by (auto simp: start_def ml_install_snapshot_def)
  have oks: "\<forall>r \<in> set pre. rec_ok c r" "rec_ok c (RecEntry e)" using ok rs(1) by auto
  let ?rest = "concat (map (rec_bytes hw c) post)" and ?n = "prologue_len + length (concat (map (rec_bytes hw c) pre))"
  have "replay_loop hw c (rec_bytes hw c (RecEntry e) @ ?rest) ?n m1 = Inl (Compacted 1 (Suc (sm_last_index (snap_meta s))))"
    using length_rec_bytes [of hw c "RecEntry e"] entry_under_snapshot [OF m1(2,3) rs(3) s]
    by (subst replay_loop.simps) (auto simp: read_rec_bytes [OF oks(2)] apply_record_eq [OF oks(2)] simp del: rec_apply.simps rec_tag.simps rec_body.simps)
  then show ?thesis
    using replay_loop_records [OF oks(1) m1(1), of hw "rec_bytes hw c (RecEntry e) @ ?rest" prologue_len]
    by (simp add: rs(1) wal_file_def replay_prologue)
qed

section \<open>Appending one entry\<close>

lemma write_record_clean_eq:
  assumes "d_faults (wl_disk w) = []" and "length body \<le> u32_max" and "d_wal (wl_disk w) = Some f"
  shows "\<exists>u. write_record hw tag body w =
    ok () (w \<lparr> wl_disk := (if wl_attached w then (wl_disk w) \<lparr> d_wal := Some (f @ record_bytes hw tag body) \<rparr> else wl_disk w), wl_unsynced := u \<rparr>)"
  using assms by (simp add: write_record_def append_framed_ok on_disk_def wal_sync_def Let_def ok_def try_then_def) blast

lemma append_one_clean:
  assumes "d_faults (wl_disk w) = []" and "d_wal (wl_disk w) = Some f" and "stores (c_entry c) e" and "ml_append [e] (wl_mirror w) = Inr m'"
  shows "\<exists>w'. wal_append hw c [e] w = ok () w' \<and> wl_mirror w' = m' \<and>
    wl_disk w' = (if wl_attached w then (wl_disk w) \<lparr> d_wal := Some (f @ record_bytes hw tag_entry (body_of (c_entry c) e)) \<rparr> else wl_disk w)"
proof -
  obtain u where u: "write_record hw tag_entry (body_of (c_entry c) e) w =
      ok () (w \<lparr> wl_disk := (if wl_attached w then (wl_disk w) \<lparr> d_wal := Some (f @ record_bytes hw tag_entry (body_of (c_entry c) e)) \<rparr>
        else wl_disk w), wl_unsynced := u \<rparr>)"
    using write_record_clean_eq [OF assms(1) storesD(4) [OF assms(3)] assms(2)] by blast
  have "check_contiguous (ml_last_index (wl_mirror w)) [e] = Inr ()" using assms(4) by (auto simp: ml_append_def split: sum.splits)
  then show ?thesis
    using u assms(4) by (simp add: wal_append_def write_encoded_stores [OF assms(3)] on_mirror_def lift_part_def)
qed

text \<open>An append that stops after the tag of its record.\<close>

lemma append_one_short:
  assumes "d_faults (wl_disk w) = [Some (4, source)]" and "d_wal (wl_disk w) = Some f" and "stores (c_entry c) e"
    and "ml_append [e] (wl_mirror w) = Inr m'" and "wl_attached w"
  shows "wal_append hw c [e] w = err (raft_error.Io ''appending a record'' (wl_path w) source)
    (w \<lparr> wl_disk := (wl_disk w) \<lparr> d_faults := [], d_wal := Some (f @ to_le_bytes 4 tag_entry) \<rparr> \<rparr>)"
proof -
  have "check_contiguous (ml_last_index (wl_mirror w)) [e] = Inr ()" using assms(4) by (auto simp: ml_append_def split: sum.splits)
  moreover have "take 4 (record_bytes hw tag_entry (body_of (c_entry c) e)) = to_le_bytes 4 tag_entry" by (simp add: record_bytes_def)
  ultimately show ?thesis
    using assms storesD(4) [OF assms(3)]
    by (simp add: wal_append_def write_encoded_stores write_record_def append_framed_ok on_disk_def append_file_def next_fault_def err_def try_then_def)
qed

lemma tag_entry_bytes: "to_le_bytes 4 tag_entry = [65, 87, 101, 49]"
proof -
  have four: "(4 :: nat) = Suc (Suc (Suc (Suc 0)))" by simp
  show ?thesis unfolding four to_le_bytes.simps by (simp add: tag_entry_def)
qed

lemma read_two_tags: "read_record hw (to_le_bytes 4 tag_entry @ to_le_bytes 4 tag_entry @ rest) offset =
    Inl (Corrupt offset ''a record declares a body larger than this build will read'')"
proof -
  have big: "max_record_body < unat tag_entry" by (simp add: tag_entry_def max_record_body_def)
  have self: "from_le_bytes (to_le_bytes 4 tag_entry) = tag_entry" by (simp add: from_le_to_le_self)
  show ?thesis by (simp add: read_record_def Let_def self big)
qed

section \<open>The handle on a replaced file\<close>

text \<open>
  When the new log is in place but opening it fails, the handle stays on the file that was replaced.
  The entries appended from then on are acknowledged, and are gone when the log is opened again.
\<close>

lemma replaced_handle:
  assumes f: "d_faults (wl_disk w) = replicate 8 None @ [Some (0, source)]" and mok: "mirror_ok c (wl_mirror w)" and snap: "ml_snap (wl_mirror w) = Some s"
    and st: "stores (c_snapshot c) s" "stores (c_meta c) (snap_meta s)"
  shows "\<exists>w1 rs. try_then (write_snapshot_sidecar hw c s w) (\<lambda>_. regenerate hw c) =
      err (raft_error.Io ''reopening a regenerated log'' (wl_path w) source) w1 \<and> \<not> wl_attached w1 \<and> wl_mirror w1 = wl_mirror w \<and>
    d_faults (wl_disk w1) = [] \<and> on_file hw c (Some s) rs (wl_disk w1) \<and> replays rs (start (Some s)) = Inr (wl_mirror w)"
proof -
  let ?rs = "RecSnapshot (snap_meta s) # RecHard (ml_hard (wl_mirror w)) # map RecEntry (ml_held (wl_mirror w))"
  let ?d = "(wl_disk w) \<lparr> d_faults := [], d_snap := Some (sidecar_bytes hw c s), d_wal := Some (wal_file hw c ?rs) \<rparr>"
  let ?w = "w \<lparr> wl_disk := ?d, wl_attached := False \<rparr>"
  have "try_then (write_snapshot_sidecar hw c s w) (\<lambda>_. regenerate hw c) = err (raft_error.Io ''reopening a regenerated log'' (wl_path w) source) ?w"
    using f regenerated_ok [OF mok snap st(2), of hw] storesD [OF st(1)]
    by (simp add: write_snapshot_sidecar_def regenerate_def frame_encoded_def wire_err_def append_framed_ok on_disk_def sidecar_bytes_def
      fs_op_def next_fault_def numeral_eq_Suc Let_def ok_def err_def try_then_def)
  moreover have "on_file hw c (Some s) ?rs ?d" using mok st by (auto simp: on_file_def sidecar_def mirror_ok_def)
  ultimately show ?thesis
    using replays_regenerated [of "wl_mirror w" s] mok snap by (intro exI [of _ ?w] exI [of _ ?rs]) (simp add: mirror_ok_def)
qed

lemma replaced_handle_loses_entry:
  assumes "mirror_ok c (wl_mirror w)" and "call_ok c (SaveSnapshot s) (wl_mirror w)" and snap: "ml_save_snapshot s (wl_mirror w) = Inr m"
    and "d_faults (wl_disk w) = replicate 8 None @ [Some (0, source)]" and e: "stores (c_entry c) e" "ml_append [e] m = Inr m'"
  shows "\<exists>w1 w2 w3. wal_save_snapshot hw c s w = err (raft_error.Io ''reopening a regenerated log'' (wl_path w) source) w1 \<and>
    wal_append hw c [e] w1 = ok () w2 \<and> wl_mirror w2 = m' \<and>
    wal_open hw c path policy (wl_disk w2) = ok w3 (wl_disk w3) \<and> wl_mirror w3 = m"
proof -
  have mok: "mirror_ok c m" using mem_step_mirror_ok [OF assms(1,2)] snap by simp
  have held: "ml_snap m = Some s" using snap by (auto simp: ml_save_snapshot_def Let_def split: if_splits)
  have st: "stores (c_snapshot c) s" "stores (c_meta c) (snap_meta s)" using assms(2) by (simp_all add: call_ok_def)
  from replaced_handle [of "w \<lparr> wl_mirror := m \<rparr>" source c s hw] assms(4) mok held st obtain w1 rs where
    w1: "try_then (write_snapshot_sidecar hw c s (w \<lparr> wl_mirror := m \<rparr>)) (\<lambda>_. regenerate hw c) =
        err (raft_error.Io ''reopening a regenerated log'' (wl_path w) source) w1" "\<not> wl_attached w1" "wl_mirror w1 = m"
      "d_faults (wl_disk w1) = []" "on_file hw c (Some s) rs (wl_disk w1)" "replays rs (start (Some s)) = Inr m"
    by auto
  then have "wal_save_snapshot hw c s w = err (raft_error.Io ''reopening a regenerated log'' (wl_path w) source) w1"
    using snap by (simp add: wal_save_snapshot_def on_mirror_def lift_part_def)
  moreover obtain w2 where "wal_append hw c [e] w1 = ok () w2" "wl_mirror w2 = m'" "wl_disk w2 = wl_disk w1"
    using append_one_clean [OF w1(4) _ e(1), of _ m' hw] e(2) w1 by (auto simp: on_file_def)
  ultimately show ?thesis using open_whole [OF w1(4-6) mok, of path policy] by metis
qed

section \<open>An instance of the codec\<close>

text \<open>A codec that keeps its contract on one value, and a log that holds one entry in it.\<close>

definition one_codec :: "'m \<Rightarrow> ('m, unit) codec" where
  "one_codec m = \<lparr> encoded_size = \<lambda>_. Inr 1, encode_into_writer = \<lambda>_. (Inr (), [7]), decode_from_slice = \<lambda>bytes. Inr (m, length bytes) \<rparr>"

definition first_command :: log_entry where
  "first_command = entry_command 1 1 [42]"

definition first_snapshot :: snapshot where
  "first_snapshot = \<lparr> snap_meta = \<lparr> sm_last_index = 1, sm_last_term = 1, sm_membership = Membership [1] \<rparr>, snap_data = [9] \<rparr>"

definition sample_codec :: "unit wal_codec" where
  "sample_codec = \<lparr> c_entry = one_codec first_command, c_hard = one_codec (ml_hard memory_log_new), c_index = one_codec 1,
    c_meta = one_codec (snap_meta first_snapshot), c_snapshot = one_codec first_snapshot, c_text = \<lambda>_. [] \<rparr>"

definition empty_disk :: disk where
  "empty_disk = \<lparr> d_wal = None, d_snap = None, d_faults = [] \<rparr>"

lemma stores_one [simp]: "stores (one_codec m) m"
  by (simp add: stores_def one_codec_def encode_to_vec_def encode_size_hint_def encode_presized_def decode_exact_def decode_prefix_def
    ok_def max_record_body_def)

lemma sample_stores [simp]:
  "stores (c_entry sample_codec) first_command" "stores (c_hard sample_codec) (ml_hard memory_log_new)"
  "stores (c_meta sample_codec) (snap_meta first_snapshot)" "stores (c_snapshot sample_codec) first_snapshot"
  by (simp_all add: sample_codec_def)

lemma one_less_max: "Suc 0 < u64_max"
  by (simp add: u64_max_def)

lemma first_command_index [simp]: "le_index first_command = 1"
  by (simp add: first_command_def entry_command_def entry_new_def)

lemma first_append:
  "ml_append [first_command] memory_log_new = Inr (memory_log_new \<lparr> ml_held := [first_command] \<rparr>)"
  "log_inv (memory_log_new \<lparr> ml_held := [first_command] \<rparr>)"
  by (simp_all add: ml_append_def check_contiguous_def memory_log_new_def ml_last_index_def index_zero_def index_next_def first_command_def
    entry_command_def entry_new_def sat_add_def u64_max_def log_inv_def log_wf_def log_fits_def ml_first_index_def index_first_def)

lemma first_append_ok: "call_ok sample_codec (AppendEntries [first_command]) memory_log_new"
  by (simp add: call_ok_def first_append)

lemma fresh_sample:
  "\<exists>w. wal_open hw sample_codec path policy empty_disk = ok w (wl_disk w) \<and> wl_mirror w = memory_log_new \<and> wal_inv hw sample_codec w \<and> d_faults (wl_disk w) = []"
  by (rule fresh_inv) (simp_all add: empty_disk_def)

lemma wal_inv_faults [simp]: "wal_inv hw c (w \<lparr> wl_disk := (wl_disk w) \<lparr> d_faults := fs \<rparr> \<rparr>) = wal_inv hw c w"
  by (simp add: wal_inv_def on_file_def sidecar_def)

section \<open>Properties\<close>

text \<open>
  C13: The write-ahead log is the in-memory log, across restarts. From a directory without a log, on a
  disk that does not fail, every sequence of calls - votes, appends, truncations, snapshots taken and installed, syncs - with the
  process restarted anywhere in between, is answered as the in-memory log that was never restarted
  answers it, refusals included, and leaves the same log. The codec must keep what is stored, within
  the size a record may have when it is read back.
\<close>

theorem wal_refines_memory_log:
  assumes "d_wal d = None" and "d_snap d = None" and "d_faults d = []" and "stores (c_hard c) (ml_hard memory_log_new)"
    and "events_ok c evs memory_log_new"
  shows "\<exists>w. wal_open hw c path policy d = ok w (wl_disk w) \<and>
    fst (wal_run hw c evs w) = fst (mem_run evs memory_log_new) \<and> wl_mirror (snd (wal_run hw c evs w)) = snd (mem_run evs memory_log_new)"
proof -
  obtain w where "wal_open hw c path policy d = ok w (wl_disk w)" "wl_mirror w = memory_log_new" "wal_inv hw c w" "d_faults (wl_disk w) = []"
    using fresh_inv [OF assms(1-4)] by blast
  with wal_run_memory [of hw c w evs] assms(5) show ?thesis by auto
qed

theorem wal_refines_memory_log_witness:
  "\<exists>w. wal_open True sample_codec ''raft.wal'' Always empty_disk = ok w (wl_disk w) \<and>
    fst (wal_run True sample_codec [Call (AppendEntries [first_command]), Restart Never, Call (AppendEntries [first_command])] w) =
      [Inr (), Inr (), Inl (Unavailable 1 1)] \<and>
    ml_held (wl_mirror (snd (wal_run True sample_codec [Call (AppendEntries [first_command]), Restart Never, Call (AppendEntries [first_command])] w))) =
      [first_command]"
proof -
  let ?evs = "[Call (AppendEntries [first_command]), Restart Never, Call (AppendEntries [first_command])]"
  have again: "ml_append [first_command] (memory_log_new \<lparr> ml_held := [first_command] \<rparr>) = Inl (Unavailable 1 1)"
    by (simp add: ml_append_def check_contiguous_def ml_last_index_def index_next_def index_previous_def sat_sub_def first_command_def
      entry_command_def entry_new_def sat_add_def u64_max_def)
  have "events_ok sample_codec ?evs memory_log_new" by (simp add: call_ok_def first_append again)
  moreover have "mem_run ?evs memory_log_new = ([Inr (), Inr (), Inl (Unavailable 1 1)], memory_log_new \<lparr> ml_held := [first_command] \<rparr>)"
    by (simp add: first_append again)
  ultimately show ?thesis
    using wal_refines_memory_log [of empty_disk sample_codec ?evs True "''raft.wal''" Always]
    by (auto simp: empty_disk_def simp del: wal_run.simps mem_run.simps events_ok.simps)
qed

text \<open>
  C14: A crash in the middle of a call loses nothing that was acknowledged. Whatever faults a vote, an
  append, a truncation or a sync meets, and wherever a write stops, opening the log again succeeds and
  gives the log before the call or after a part of it - for an append, its first entries - and after all
  of it if the call had succeeded; the file is repaired and the log is as good as before.
\<close>

theorem wal_crash_consistent:
  assumes "wal_inv hw c w" and "call_ok c call (wl_mirror w)" and "\<not> takes_snapshot call" and "wal_step hw c call w = (res, w')"
  shows "\<exists>w2. wal_open hw c path policy ((wl_disk w') \<lparr> d_faults := [] \<rparr>) = ok w2 (wl_disk w2) \<and> wal_inv hw c w2 \<and>
    (res \<noteq> Inr () \<and> wl_mirror w2 = wl_mirror w \<or>
     (\<exists>part. part_of part call \<and> mem_step part (wl_mirror w) = Inr (wl_mirror w2) \<and> (res = Inr () \<longrightarrow> part = call)))"
proof -
  obtain so rs m2 where "crashed hw c so rs (wl_disk w')" "replays rs (start so) = Inr m2" "mirror_ok c m2"
    and m2: "res \<noteq> Inr () \<and> m2 = wl_mirror w \<or> (\<exists>part. part_of part call \<and> mem_step part (wl_mirror w) = Inr m2 \<and> (res = Inr () \<longrightarrow> part = call))"
    using leaves_step [OF assms] by (auto simp: leaves_def)
  with open_recovers [of hw c so rs "wl_disk w'" m2 path policy] show ?thesis by blast
qed

theorem wal_crash_consistent_witness:
  "\<exists>w res w' w2. d_faults (wl_disk w) = [Some (5, ''disk full'')] \<and> wl_mirror w = memory_log_new \<and>
    wal_step True sample_codec (AppendEntries [first_command]) w = (res, w') \<and>
    wal_open True sample_codec ''raft.wal'' Always ((wl_disk w') \<lparr> d_faults := [] \<rparr>) = ok w2 (wl_disk w2) \<and> wal_inv True sample_codec w2 \<and>
    (wl_mirror w2 = memory_log_new \<or>
     (\<exists>part. part_of part (AppendEntries [first_command]) \<and> mem_step part memory_log_new = Inr (wl_mirror w2)))"
proof -
  obtain w0 where w0: "wl_mirror w0 = memory_log_new" "wal_inv True sample_codec w0" using fresh_sample by blast
  let ?w = "w0 \<lparr> wl_disk := (wl_disk w0) \<lparr> d_faults := [Some (5, ''disk full'')] \<rparr> \<rparr>"
  obtain res w' where step: "wal_step True sample_codec (AppendEntries [first_command]) ?w = (res, w')" by fastforce
  from wal_crash_consistent [OF _ _ _ step, of "''raft.wal''" Always] w0 first_append_ok obtain w2 where
    "wal_open True sample_codec ''raft.wal'' Always ((wl_disk w') \<lparr> d_faults := [] \<rparr>) = ok w2 (wl_disk w2)" "wal_inv True sample_codec w2"
    "wl_mirror w2 = memory_log_new \<or> (\<exists>part. part_of part (AppendEntries [first_command]) \<and> mem_step part memory_log_new = Inr (wl_mirror w2))"
    by auto
  then show ?thesis using step w0(1) by (intro exI [of _ ?w] exI [of _ res] exI [of _ w'] exI [of _ w2]) simp
qed

text \<open>
  C36: A crash while the file is created loses the log later. If the process stops while the prologue is
  written, the log opens again as an empty one, accepts and acknowledges entries - and can then not be
  opened any more, because the repair cut the torn prologue off and nothing wrote a new one.
\<close>

theorem torn_prologue_loses_log:
  assumes "n < prologue_len" and "d_wal d = Some (take n prologue)" and "d_snap d = None" and "d_faults d = []"
    and "stores (c_entry c) e" and "le_index e = 1"
  shows "\<exists>w w'. wal_open hw c path policy d = ok w (wl_disk w) \<and> wal_append hw c [e] w = ok () w' \<and>
    wal_open hw c path policy (wl_disk w') = err (Corrupt 0 ''the file does not start with the ASTRSWAL magic'') (wl_disk w')"
proof -
  let ?d = "set_len 0 d"
  let ?w = "\<lparr> wl_path = path, wl_disk = ?d, wl_mirror = memory_log_new, wl_policy = policy, wl_unsynced = 0, wl_recovered_bytes = 0, wl_outcome = TornTail, wl_attached = True \<rparr>"
  have "replay hw c (take n prologue) (start None) = Inr (0, TornTail, memory_log_new)"
    using assms(1) by (simp add: replay_def start_def prologue_facts)
  moreover have sc: "sidecar hw c None d" using assms(3) by (simp add: sidecar_def)
  ultimately have opened: "wal_open hw c path policy d = ok ?w ?d"
    using open_existing [OF assms(4) sc assms(2), of path policy] by (simp add: was_repaired_def Let_def)
  let ?b = "record_bytes hw tag_entry (body_of (c_entry c) e)"
  have contig: "ml_append [e] memory_log_new = Inr (memory_log_new \<lparr> ml_held := [e] \<rparr>)"
    using assms(6) by (simp add: ml_append_def check_contiguous_def memory_log_new_def ml_last_index_def index_zero_def index_next_def sat_add_1)
  have "d_wal ?d = Some []" using assms(2) by (simp add: set_len_def)
  with append_one_clean [of ?w "[]" c e _ hw] contig assms(4,5) obtain w' where
    w': "wal_append hw c [e] ?w = ok () w'" "wl_disk w' = d \<lparr> d_wal := Some ?b \<rparr>"
    by (auto simp: set_len_def)
  have "take (length file_magic) (take prologue_len ?b) \<noteq> file_magic"
    by (simp add: record_bytes_def tag_entry_bytes prologue_len_def file_magic_def)
  then have "replay hw c ?b (start None) = Inl (Corrupt 0 ''the file does not start with the ASTRSWAL magic'')"
    by (simp add: replay_def prologue_len_def file_magic_def Let_def)
  then have "wal_open hw c path policy (wl_disk w') = err (Corrupt 0 ''the file does not start with the ASTRSWAL magic'') (wl_disk w')"
    using open_existing [of "wl_disk w'" hw c None ?b path policy] assms(3,4) w'(2) by (simp add: sidecar_def)
  then show ?thesis using opened w'(1) by auto
qed

theorem torn_prologue_loses_log_witness:
  "\<exists>w w'. wal_open True sample_codec ''raft.wal'' Always \<lparr> d_wal = Some (take 3 prologue), d_snap = None, d_faults = [] \<rparr> = ok w (wl_disk w) \<and>
    wal_append True sample_codec [first_command] w = ok () w' \<and>
    wal_open True sample_codec ''raft.wal'' Always (wl_disk w') = err (Corrupt 0 ''the file does not start with the ASTRSWAL magic'') (wl_disk w')"
  by (rule torn_prologue_loses_log [where n = 3])
    (simp_all add: prologue_len_def file_magic_def first_command_index)

text \<open>
  C37: An append that fails part-way poisons the log. If a write stops after the tag of a record, the
  call reports the failure and leaves the log open, with the tag in the file; when the entry is appended
  again the call succeeds, and the log cannot be opened any more, because the second tag is read as the
  length of the first record.
\<close>

theorem short_write_poisons_log:
  assumes "wal_inv hw c w" and "stores (c_entry c) e" and "ml_append [e] (wl_mirror w) = Inr m'" and "d_faults (wl_disk w) = [Some (4, source)]"
  shows "\<exists>w1 w2 n. wal_append hw c [e] w = err (raft_error.Io ''appending a record'' (wl_path w) source) w1 \<and>
    wal_append hw c [e] w1 = ok () w2 \<and> wl_mirror w2 = m' \<and>
    wal_open hw c path policy (wl_disk w2) = err (Corrupt n ''a record declares a body larger than this build will read'') (wl_disk w2)"
proof -
  obtain so rs where f: "on_file hw c so rs (wl_disk w)" "replays rs (start so) = Inr (wl_mirror w)" and att: "wl_attached w"
    using assms(1) by (auto simp: wal_inv_def)
  then have d: "sidecar hw c so (wl_disk w)" "d_wal (wl_disk w) = Some (wal_file hw c rs)" "\<forall>r \<in> set rs. rec_ok c r" by (auto simp: on_file_def)
  let ?tag = "to_le_bytes 4 tag_entry :: u8 list" and ?b = "record_bytes hw tag_entry (body_of (c_entry c) e)"
  let ?w1 = "w \<lparr> wl_disk := (wl_disk w) \<lparr> d_faults := [], d_wal := Some (wal_file hw c rs @ ?tag) \<rparr> \<rparr>"
  from append_one_clean [of ?w1 "wal_file hw c rs @ ?tag" c e m' hw] assms(2,3) att obtain w2 where
    w2: "wal_append hw c [e] ?w1 = ok () w2" "wl_mirror w2 = m'" "wl_disk w2 = (wl_disk w) \<lparr> d_faults := [], d_wal := Some (wal_file hw c rs @ ?tag @ ?b) \<rparr>"
    by auto
  obtain rest where "?b = ?tag @ rest" by (simp add: record_bytes_def)
  then have "replay_loop hw c (?tag @ ?b) n m = Inl (Corrupt n ''a record declares a body larger than this build will read'')" for n m
    by (subst replay_loop.simps) (simp add: read_two_tags, simp add: tag_entry_bytes)
  then have "replay hw c (wal_file hw c rs @ ?tag @ ?b) (start so) =
      Inl (Corrupt (length (wal_file hw c rs)) ''a record declares a body larger than this build will read'')"
    using replay_loop_records [OF d(3) f(2), of hw "?tag @ ?b" prologue_len] by (simp add: wal_file_def replay_prologue prologue_facts)
  then have "wal_open hw c path policy (wl_disk w2) =
      err (Corrupt (length (wal_file hw c rs)) ''a record declares a body larger than this build will read'') (wl_disk w2)"
    using open_existing [of "wl_disk w2" hw c so "wal_file hw c rs @ ?tag @ ?b" path policy] d(1) w2(3) by (simp add: sidecar_def)
  then show ?thesis using append_one_short [OF assms(4) d(2) assms(2,3) att] w2(1,2) by blast
qed

theorem short_write_poisons_log_witness:
  "\<exists>w w1 w2 n. wal_inv True sample_codec w \<and> wal_append True sample_codec [first_command] w1 = ok () w2 \<and> ml_held (wl_mirror w2) = [first_command] \<and>
    wal_append True sample_codec [first_command] w = err (raft_error.Io ''appending a record'' (wl_path w) ''disk full'') w1 \<and>
    wal_open True sample_codec ''raft.wal'' Always (wl_disk w2) =
      err (Corrupt n ''a record declares a body larger than this build will read'') (wl_disk w2)"
proof -
  obtain w0 where w0: "wl_mirror w0 = memory_log_new" "wal_inv True sample_codec w0" using fresh_sample by blast
  let ?w = "w0 \<lparr> wl_disk := (wl_disk w0) \<lparr> d_faults := [Some (4, ''disk full'')] \<rparr> \<rparr>"
  from short_write_poisons_log [of True sample_codec ?w first_command _ "''disk full''" "''raft.wal''" Always] w0 first_append(1) obtain w1 w2 n where
    "wal_append True sample_codec [first_command] ?w = err (raft_error.Io ''appending a record'' (wl_path ?w) ''disk full'') w1"
    "wal_append True sample_codec [first_command] w1 = ok () w2" "wl_mirror w2 = memory_log_new \<lparr> ml_held := [first_command] \<rparr>"
    "wal_open True sample_codec ''raft.wal'' Always (wl_disk w2) =
      err (Corrupt n ''a record declares a body larger than this build will read'') (wl_disk w2)" by auto
  then show ?thesis using w0(2) by (intro exI [of _ ?w] exI [of _ w1] exI [of _ w2] exI [of _ n]) simp
qed

text \<open>
  C38: A crash between installing a snapshot and replacing the log loses the log. The sidecar is then one
  generation ahead of the file, and replaying the entries the snapshot covers is refused, so that the
  log cannot be opened again - for every log that was never compacted and holds an entry.
\<close>

theorem snapshot_crash_loses_log:
  assumes "wal_inv hw c w" and "ml_snap (wl_mirror w) = None" and "ml_held (wl_mirror w) \<noteq> []"
    and "payload_ok c (SaveSnapshot s)" and "0 < sm_last_index (snap_meta s)" and "sm_last_index (snap_meta s) < u64_max"
    and "d_faults (wl_disk w) = [None, None, None, None, Some (0, source)]"
  shows "\<exists>w'. wal_save_snapshot hw c s w = err (raft_error.Io ''creating a regenerated log'' (with_extension (wl_path w) ''wal-regen'') source) w' \<and>
    wal_open hw c path policy (wl_disk w') = err (Compacted 1 (Suc (sm_last_index (snap_meta s)))) (wl_disk w')"
proof -
  obtain so rs where f: "on_file hw c so rs (wl_disk w)" "replays rs (start so) = Inr (wl_mirror w)"
    using assms(1) by (auto simp: wal_inv_def)
  have "so = None" using replays_snap [OF f(2)] assms(2) by (cases so) (auto simp: start_def ml_install_snapshot_def)
  then have rep: "replays rs memory_log_new = Inr (wl_mirror w)" using f(2) by (simp add: start_def)
  have st: "stores (c_snapshot c) s" using assms(4) by simp
  obtain m' where m': "ml_save_snapshot s (wl_mirror w) = Inr m'" using assms(2) by (simp add: ml_save_snapshot_def Let_def)
  let ?d = "(wl_disk w) \<lparr> d_snap := Some (sidecar_bytes hw c s), d_faults := [] \<rparr>"
  have "wal_save_snapshot hw c s w = err (raft_error.Io ''creating a regenerated log'' (with_extension (wl_path w) ''wal-regen'') source)
      (w \<lparr> wl_mirror := m', wl_disk := ?d \<rparr>)"
    using m' assms(7) storesD [OF st]
    by (simp add: wal_save_snapshot_def on_mirror_def lift_part_def write_snapshot_sidecar_def regenerate_def frame_encoded_def wire_err_def
      append_framed_ok on_disk_def fs_op_def next_fault_def sidecar_bytes_def Let_def ok_def err_def try_then_def)
  moreover have "sidecar hw c (Some s) ?d" using st by (simp add: sidecar_def)
  then have "wal_open hw c path policy ?d = err (Compacted 1 (Suc (sm_last_index (snap_meta s)))) ?d"
    using open_existing [of ?d hw c "Some s" "wal_file hw c rs" path policy] f(1) two_generations [OF _ rep assms(2,3,5,6), of c hw]
    by (simp add: on_file_def)
  ultimately show ?thesis by auto
qed

theorem snapshot_crash_loses_log_witness:
  "\<exists>w w'. wal_inv True sample_codec w \<and> ml_held (wl_mirror w) = [first_command] \<and>
    wal_save_snapshot True sample_codec first_snapshot w =
      err (raft_error.Io ''creating a regenerated log'' (with_extension (wl_path w) ''wal-regen'') ''no space'') w' \<and>
    wal_open True sample_codec ''raft.wal'' Always (wl_disk w') = err (Compacted 1 2) (wl_disk w')"
proof -
  obtain w0 where w0: "wl_mirror w0 = memory_log_new" "wal_inv True sample_codec w0" "d_faults (wl_disk w0) = []" using fresh_sample by blast
  obtain w1 where w1: "wal_inv True sample_codec w1" "wl_mirror w1 = memory_log_new \<lparr> ml_held := [first_command] \<rparr>"
    using clean_step [OF w0(2,3), of "AppendEntries [first_command]"] w0(1) first_append_ok by (auto simp: first_append keeps_def)
  let ?w = "w1 \<lparr> wl_disk := (wl_disk w1) \<lparr> d_faults := [None, None, None, None, Some (0, ''no space'')] \<rparr> \<rparr>"
  have "sm_last_index (snap_meta first_snapshot) = 1" by (simp add: first_snapshot_def)
  with snapshot_crash_loses_log [of True sample_codec ?w first_snapshot "''no space''" "''raft.wal''" Always] w1 obtain w' where
    "wal_save_snapshot True sample_codec first_snapshot ?w =
      err (raft_error.Io ''creating a regenerated log'' (with_extension (wl_path ?w) ''wal-regen'') ''no space'') w'"
    "wal_open True sample_codec ''raft.wal'' Always (wl_disk w') = err (Compacted 1 2) (wl_disk w')"
    by (auto simp: memory_log_new_def one_less_max numeral_2_eq_2)
  then show ?thesis using w1 by (intro exI [of _ ?w] exI [of _ w']) simp
qed

end
