(* ===== verification/Raft_Plain.thy ===== *)
theory Raft_Plain
  imports Raft_Apply Raft_Invariant
begin

text \<open>
  What one input does to a replica that never compacts its log. Without a snapshot the log is a list
  whose entries are numbered from one. The operations that only answer and apply (\<open>tail\<close>) are split from
  the ones that matter for replication: granting a vote, standing for election, winning it, extending
  the log as a leader, merging a leader's entries, and counting an acknowledgement. The result is
  \<open>moves\<close>: every input of a replica is one of these.
\<close>

section \<open>Logs without a snapshot\<close>

abbreviation entries_of :: "'m raft_node \<Rightarrow> log_entry list" where
  "entries_of n \<equiv> ml_held (log n)"

definition numbered :: "log_entry list \<Rightarrow> bool" where
  "numbered L \<longleftrightarrow> (\<forall>k < length L. le_index (L ! k) = Suc k)"

definition plain_log :: "memory_log \<Rightarrow> bool" where
  "plain_log l \<longleftrightarrow> ml_snap l = None \<and> numbered (ml_held l) \<and> length (ml_held l) < u64_max"

definition term_before :: "log_entry list \<Rightarrow> nat \<Rightarrow> raft_term" where
  "term_before L i = (if i = 0 then 0 else le_term (L ! (i - 1)))"

definition slice_of :: "log_entry list \<Rightarrow> nat \<Rightarrow> log_entry list \<Rightarrow> bool" where
  "slice_of L prev es \<longleftrightarrow> prev + length es \<le> length L \<and> es = take (length es) (drop prev L)"

lemma term_before_0 [simp]: "term_before L 0 = 0"
  by (simp add: term_before_def)

lemma term_before_take [simp]: "i \<le> k \<Longrightarrow> term_before (take k L) i = term_before L i"
  by (auto simp: term_before_def)

lemma term_before_append: "i \<le> length L \<Longrightarrow> term_before (L @ M) i = term_before L i"
  by (auto simp: term_before_def nth_append)

lemma numbered_take: "numbered L \<Longrightarrow> numbered (take k L)"
  by (simp add: numbered_def)

lemma numbered_snoc: "numbered L \<Longrightarrow> le_index e = Suc (length L) \<Longrightarrow> numbered (L @ [e])"
  by (auto simp: numbered_def nth_append less_Suc_eq)

lemma slice_take: "i \<le> length L \<Longrightarrow> slice_of L i (take k (drop i L))"
  by (auto simp: slice_of_def min_def)

lemma slice_nth:
  assumes "slice_of L prev es" and "i < length es"
  shows "es ! i = L ! (prev + i)"
proof -
  have "es ! i = take (length es) (drop prev L) ! i" using assms(1) by (simp add: slice_of_def)
  then show ?thesis using assms by (simp add: slice_of_def)
qed

lemma slice_numbered: "slice_of L prev es \<Longrightarrow> numbered L \<Longrightarrow> i < length es \<Longrightarrow> le_index (es ! i) = Suc prev + i"
  using slice_nth [of L prev es i] by (simp add: slice_of_def numbered_def)

lemma plain_first [simp]: "plain_log l \<Longrightarrow> ml_first_index l = 1"
  by (simp add: plain_log_def ml_first_index_def index_first_def)

lemma plain_inv: "plain_log l \<Longrightarrow> log_inv l"
  using plain_first [of l] by (auto simp: plain_log_def log_inv_def log_wf_def log_fits_def numbered_def sat_add_exact)

lemma plain_last [simp]: "plain_log l \<Longrightarrow> ml_last_index l = length (ml_held l)"
  using ml_last_index_eq [OF plain_inv, of l] by simp

lemma plain_entry: "plain_log l \<Longrightarrow> ml_entry l i = (if 0 < i \<and> i \<le> length (ml_held l) then Some (ml_held l ! (i - 1)) else None)"
  using ml_entry_eq [OF plain_inv, of l i] by (auto simp: Suc_le_eq)

lemma plain_term_at: "plain_log l \<Longrightarrow> ml_term_at l i = (if i \<le> length (ml_held l) then Some (term_before (ml_held l) i) else None)"
  by (auto simp: plain_log_def ml_term_at_def term_before_def is_empty_sentinel_def index_zero_def term_initial_def plain_entry [unfolded plain_log_def])

lemma plain_last_term: "plain_log l \<Longrightarrow> ml_last_term l = term_before (ml_held l) (length (ml_held l))"
  by (simp add: plain_log_def ml_last_term_def term_before_def term_initial_def last_conv_nth)

lemma plain_log_hard [simp]: "plain_log (ml_save_hard_state h l) = plain_log l"
  by (simp add: plain_log_def ml_save_hard_state_def)

section \<open>Answering and applying\<close>

definition matches :: "'m raft_node \<Rightarrow> peer_id \<Rightarrow> log_index" where
  "matches n v = (case node_progress n v of Some p \<Rightarrow> match_index p | None \<Rightarrow> 0)"

definition replica_ok :: "'m raft_node \<Rightarrow> bool" where
  "replica_ok n \<longleftrightarrow> plain_log (log n) \<and> snapshot_threshold (config n) = 0"

text \<open>The messages a leader with a log, a term and a commit index sends.\<close>

definition append_of :: "log_entry list \<Rightarrow> raft_term \<Rightarrow> log_index \<Rightarrow> raft_message \<Rightarrow> bool" where
  "append_of L t c msg \<longleftrightarrow> (\<exists>prev es. msg = AppendEntries t prev (term_before L prev) es c \<and> slice_of L prev es)"

definition sends :: "'m raft_node \<Rightarrow> 'm raft_node \<Rightarrow> (raft_message \<Rightarrow> bool) \<Rightarrow> bool" where
  "sends n n' P \<longleftrightarrow> (\<exists>ms. outbox n' = outbox n @ ms \<and> (\<forall>e \<in> set ms. env_from e = node_id n \<and> P (env_message e)))"

definition same_state :: "'m raft_node \<Rightarrow> 'm raft_node \<Rightarrow> bool" where
  "same_state n n' \<longleftrightarrow> config n' = config n \<and> hard n' = hard n \<and> log n' = log n \<and> node_role n' = node_role n \<and>
    node_membership n' = node_membership n \<and> commit_index n' = commit_index n \<and> matches n' = matches n"

definition applies :: "'m raft_node \<Rightarrow> 'm raft_node \<Rightarrow> bool" where
  "applies n n' \<longleftrightarrow> last_applied n \<le> last_applied n' \<and> last_applied n' \<le> max (last_applied n) (commit_index n)"

definition tail :: "'m raft_node \<Rightarrow> 'm raft_node \<Rightarrow> bool" where
  "tail n n' \<longleftrightarrow> (replica_ok n \<longrightarrow> same_state n n' \<and> applies n n' \<and> sends n n' (append_of (entries_of n) (node_term n) (commit_index n)))"

lemma sends_refl: "outbox n' = outbox n \<Longrightarrow> sends n n' P"
  by (simp add: sends_def)

lemma sends_trans:
  assumes "sends n n1 P" and "sends n1 n2 Q" and "config n1 = config n" and "\<And>m. P m \<Longrightarrow> R m" and "\<And>m. Q m \<Longrightarrow> R m"
  shows "sends n n2 R"
proof -
  obtain ms ns where "outbox n1 = outbox n @ ms" "\<forall>e \<in> set ms. env_from e = node_id n \<and> P (env_message e)"
    "outbox n2 = outbox n1 @ ns" "\<forall>e \<in> set ns. env_from e = node_id n1 \<and> Q (env_message e)"
    using assms(1,2) by (auto simp: sends_def)
  then show ?thesis using assms(3-5) unfolding sends_def by (intro exI [of _ "ms @ ns"]) auto
qed

lemma sends_mono: "sends n n' P \<Longrightarrow> (\<And>m. P m \<Longrightarrow> Q m) \<Longrightarrow> sends n n' Q"
  by (auto simp: sends_def)

lemma sends_send [simp]: "P m \<Longrightarrow> sends n (send p m n) P"
  by (simp add: sends_def send_def envelope_new_def)

interpretation tl: state_preorder tail
proof
  fix s t u :: "'m raft_node"
  show "tail s s" by (simp add: tail_def same_state_def applies_def sends_refl)
  assume st: "tail s t" and tu: "tail t u"
  show "tail s u"
    unfolding tail_def
  proof
    assume ok: "replica_ok s"
    then have 1: "same_state s t" "applies s t" "sends s t (append_of (entries_of s) (node_term s) (commit_index s))"
      using st by (simp_all add: tail_def)
    then have "replica_ok t" using ok by (simp add: replica_ok_def same_state_def)
    then have 2: "same_state t u" "applies t u" "sends t u (append_of (entries_of t) (node_term t) (commit_index t))"
      using tu by (simp_all add: tail_def)
    have "sends s u (append_of (entries_of s) (node_term s) (commit_index s))"
      by (rule sends_trans [OF 1(3) 2(3)]) (use 1(1) in \<open>simp_all add: same_state_def\<close>)
    then show "same_state s u \<and> applies s u \<and> sends s u (append_of (entries_of s) (node_term s) (commit_index s))"
      using 1 2 by (auto simp: same_state_def applies_def)
  qed
qed

lemma tail_update:
  assumes "config n' = config n" "hard n' = hard n" "log n' = log n" "node_role n' = node_role n" "node_membership n' = node_membership n"
    "commit_index n' = commit_index n" "matches n' = matches n" "last_applied n' = last_applied n" "outbox n' = outbox n"
  shows "tail n n'"
  using assms by (simp add: tail_def same_state_def applies_def sends_refl)

lemma reset_election_timer_tail: "tail n (reset_election_timer n)"
  by (auto simp: reset_election_timer_def Let_def matches_def fun_eq_iff intro!: tail_update split: prod.split)

lemma note_contact_tail: "tail n (note_contact p n)"
  by (auto simp: note_contact_def matches_def fun_eq_iff intro!: tail_update split: option.split)

lemma send_append_tail: "tail n (snd (send_append p n))"
proof (cases "replica_ok n")
  case True
  then have plain: "plain_log (log n)" and snap: "ml_snap (log n) = None" by (auto simp: replica_ok_def plain_log_def)
  have ship: "tail n (send_snapshot q n)" for q
    using snap by (auto simp: send_snapshot_def matches_def fun_eq_iff intro!: tail_update split: option.split)
  have append: "tail n (send p (AppendEntries (node_term n) i t es (commit_index n)) n)"
    if "ml_term_at (log n) i = Some t" "ml_entries (log n) j (max_entries_per_append (config n)) = Inr es" "i = index_previous j" "1 \<le> j" for i t es j
  proof -
    have i: "i \<le> length (entries_of n)" "t = term_before (entries_of n) i" using that(1) plain by (simp_all add: plain_term_at split: if_splits)
    have "j = Suc i" using that(3,4) by (simp add: index_previous_def sat_sub_def)
    then have "es = take (max_entries_per_append (config n)) (drop i (entries_of n))"
      using that(2) plain by (simp add: ml_entries_def ml_position_def distance_to_def sat_sub_def Let_def)
    then have "slice_of (entries_of n) i es" using i(1) slice_take by simp
    with i(2) show ?thesis
      by (auto simp: tail_def same_state_def applies_def matches_def send_def sends_def envelope_new_def append_of_def)
  qed
  show ?thesis
    using plain append ship by (auto simp: send_append_def Let_def tl.rel_refl split: option.split sum.split)
qed (simp add: tail_def)

lemma broadcast_append_tail: "tail n (snd (broadcast_append n))"
  unfolding broadcast_append_def
  by (rule tl.rel_for_each) (blast intro: tl.rel_trans send_append_tail tl.rel_refl)+

lemma apply_one_tail:
  assumes "last_applied n < commit_index n"
  shows "tail n (snd (apply_one M n))"
proof -
  have "last_applied n \<le> index_next (last_applied n)" "index_next (last_applied n) \<le> commit_index n"
    using assms index_next_ge [of "last_applied n"] index_next_le_Suc [of "last_applied n"] by linarith+
  then show ?thesis
    by (auto simp: tail_def apply_one_def Let_def same_state_def applies_def matches_def sends_refl
        split: option.split entry_payload.split prod.split sum.split)
qed

lemma apply_loop_tail: "tail n (snd (apply_loop fuel M n))"
proof (induction fuel arbitrary: n)
  case (Suc fuel)
  then show ?case
    by (auto simp: tl.rel_refl intro!: tl.rel_try_then apply_one_tail intro: tl.rel_trans)
qed (simp add: tl.rel_refl)

lemma apply_committed_tail: "tail n (snd (apply_committed M n))"
proof (cases "replica_ok n")
  case True
  have loop: "tail n (snd (apply_loop fuel M n))" for fuel by (rule apply_loop_tail)
  have "maybe_compact M t = ok () t" if "tail n t" for t
    using that True by (simp add: tail_def same_state_def replica_ok_def maybe_compact_def)
  then show ?thesis
    unfolding apply_committed_def by (intro tl.rel_try_then loop) simp
qed (simp add: tail_def)

section \<open>Moves\<close>

text \<open>Messages that say nothing about a log: neither entries, nor an acknowledgement, nor a candidacy.\<close>

fun calm :: "raft_message \<Rightarrow> bool" where
  "calm (AppendEntries _ _ _ _ _) = False"
| "calm (AppendEntriesResponse _ success _ _ _) = (\<not> success)"
| "calm (VoteRequest _ _ _) = False"
| "calm (InstallSnapshot _ _) = False"
| "calm (InstallSnapshotResponse _ _) = False"
| "calm (TimeoutNow _) = False"
| "calm _ = True"

definition up_to_date :: "log_entry list \<Rightarrow> log_index \<Rightarrow> raft_term \<Rightarrow> bool" where
  "up_to_date L i t \<longleftrightarrow> (let own = term_before L (length L) in if t \<noteq> own then own < t else length L \<le> i)"

text \<open>The log that merging entries behind an index leaves.\<close>

definition merges_to :: "log_entry list \<Rightarrow> nat \<Rightarrow> log_entry list \<Rightarrow> log_entry list \<Rightarrow> bool" where
  "merges_to L prev es L' \<longleftrightarrow> (\<exists>k \<le> length es. (\<forall>i < k. prev + i < length L \<and> le_term (L ! (prev + i)) = le_term (es ! i)) \<and>
    (if k = length es then L' = L
     else (prev + k < length L \<longrightarrow> le_term (L ! (prev + k)) \<noteq> le_term (es ! k)) \<and> prev + k \<le> length L \<and> L' = take (prev + k) L @ drop k es))"

text \<open>What every move keeps, and the ways the term and the vote may change without a vote.\<close>

definition unmoved :: "'m raft_node \<Rightarrow> 'm raft_node \<Rightarrow> bool" where
  "unmoved n n' \<longleftrightarrow> config n' = config n \<and> ml_snap (log n') = ml_snap (log n)"

definition no_vote :: "'m raft_node \<Rightarrow> 'm raft_node \<Rightarrow> bool" where
  "no_vote n n' \<longleftrightarrow> hard n' = hard n \<or> node_term n < node_term n' \<and> hs_voted_for (hard n') = None"

definition same_role :: "'m raft_node \<Rightarrow> 'm raft_node \<Rightarrow> bool" where
  "same_role n n' \<longleftrightarrow> node_role n' = node_role n \<and> hard n' = hard n \<and> matches n' = matches n"

definition applies_to :: "'m raft_node \<Rightarrow> 'm raft_node \<Rightarrow> bool" where
  "applies_to n n' \<longleftrightarrow> last_applied n' \<le> max (last_applied n) (commit_index n')"

definition idles :: "'m raft_node \<Rightarrow> 'm raft_node \<Rightarrow> bool" where
  "idles n n' \<longleftrightarrow> unmoved n n' \<and> entries_of n' = entries_of n \<and> no_vote n n' \<and> (same_role n n' \<or> node_role n' = Follower \<or> node_role n' = PreCandidate) \<and>
    commit_index n' = commit_index n \<and> applies_to n n' \<and>
    sends n n' (\<lambda>m. calm m \<or> node_role n = Leader \<and> append_of (entries_of n) (node_term n) (commit_index n) m)"

definition grants :: "envelope set \<Rightarrow> 'm raft_node \<Rightarrow> 'm raft_node \<Rightarrow> bool" where
  "grants N n n' \<longleftrightarrow> unmoved n n' \<and> entries_of n' = entries_of n \<and> node_term n \<le> node_term n' \<and>
    (\<exists>e i t. e \<in> N \<and> env_message e = VoteRequest (node_term n') i t \<and> hs_voted_for (hard n') = Some (env_from e) \<and> up_to_date (entries_of n) i t) \<and>
    (node_role n' = Follower \<or> node_role n' = PreCandidate) \<and>
    commit_index n' = commit_index n \<and> last_applied n' = last_applied n \<and> sends n n' calm"

definition stands :: "'m raft_node \<Rightarrow> 'm raft_node \<Rightarrow> bool" where
  "stands n n' \<longleftrightarrow> unmoved n n' \<and> entries_of n' = entries_of n \<and> hard n' = \<lparr>hs_term = Suc (node_term n), hs_voted_for = Some (node_id n)\<rparr> \<and>
    node_role n' = Candidate \<and> commit_index n' = commit_index n \<and> last_applied n' = last_applied n \<and>
    sends n n' (\<lambda>m. m = VoteRequest (node_term n') (length (entries_of n)) (term_before (entries_of n) (length (entries_of n))))"

text \<open>The commit rule of a leader.\<close>

definition commits :: "membership \<Rightarrow> 'm raft_node \<Rightarrow> 'm raft_node \<Rightarrow> bool" where
  "commits V n n' \<longleftrightarrow> commit_index n' = commit_index n \<or>
    commit_index n < commit_index n' \<and> commit_index n' \<le> length (entries_of n') \<and> term_before (entries_of n') (commit_index n') = node_term n' \<and>
    decides V {v \<in> set (voters V). v = node_id n' \<or> commit_index n' \<le> matches n' v}"

definition appends :: "'m raft_node \<Rightarrow> 'm raft_node \<Rightarrow> bool" where
  "appends n n' \<longleftrightarrow> (\<exists>e. entries_of n' = entries_of n @ [e] \<and> le_term e = node_term n' \<and> le_index e = Suc (length (entries_of n)))"

definition wins :: "membership \<Rightarrow> 'm raft_node \<Rightarrow> 'm raft_node \<Rightarrow> bool" where
  "wins V n n' \<longleftrightarrow> unmoved n n' \<and> node_role n' = Leader \<and>
    (node_role n = Candidate \<and> hard n' = hard n \<or> hard n' = \<lparr>hs_term = Suc (node_term n), hs_voted_for = Some (node_id n)\<rparr>) \<and>
    appends n n' \<and> (\<forall>v. v \<noteq> node_id n \<longrightarrow> matches n' v = 0) \<and> commits V n n' \<and> applies_to n n' \<and>
    sends n n' (append_of (entries_of n') (node_term n') (commit_index n))"

definition extends :: "membership \<Rightarrow> 'm raft_node \<Rightarrow> 'm raft_node \<Rightarrow> bool" where
  "extends V n n' \<longleftrightarrow> unmoved n n' \<and> node_role n = Leader \<and> node_role n' = Leader \<and> hard n' = hard n \<and>
    appends n n' \<and> (\<forall>v. v \<noteq> node_id n \<longrightarrow> matches n' v = matches n v) \<and> commits V n n' \<and> applies_to n n' \<and>
    sends n n' (append_of (entries_of n') (node_term n') (commit_index n))"

definition merges :: "envelope set \<Rightarrow> 'm raft_node \<Rightarrow> 'm raft_node \<Rightarrow> bool" where
  "merges N n n' \<longleftrightarrow> unmoved n n' \<and> no_vote n n' \<and> (same_role n n' \<and> node_role n \<noteq> Candidate \<or> node_role n' = Follower) \<and>
    (\<exists>e prev es lc. e \<in> N \<and> env_message e = AppendEntries (node_term n') prev (term_before (entries_of n) prev) es lc \<and>
      prev \<le> length (entries_of n) \<and> merges_to (entries_of n) prev es (entries_of n') \<and>
      (commit_index n' = commit_index n \<or> commit_index n' = min lc (prev + length es)) \<and> applies_to n n' \<and>
      sends n n' (\<lambda>m. m = AppendEntriesResponse (node_term n') True (prev + length es) 0 0))"

definition learns :: "membership \<Rightarrow> envelope set \<Rightarrow> 'm raft_node \<Rightarrow> 'm raft_node \<Rightarrow> bool" where
  "learns V N n n' \<longleftrightarrow> unmoved n n' \<and> entries_of n' = entries_of n \<and> node_role n = Leader \<and> node_role n' = Leader \<and> hard n' = hard n \<and>
    (\<exists>e m i t. e \<in> N \<and> env_message e = AppendEntriesResponse (node_term n) True m i t \<and>
      (\<forall>v. matches n' v = matches n v \<or> v = env_from e \<and> matches n' v = m)) \<and>
    commits V n n' \<and> applies_to n n' \<and> sends n n' (append_of (entries_of n') (node_term n') (commit_index n'))"

definition restarts :: "'m raft_node \<Rightarrow> 'm raft_node \<Rightarrow> bool" where
  "restarts n n' \<longleftrightarrow> config n' = config n \<and> log n' = log n \<and> hard n' = hard n \<and> node_role n' = Follower \<and>
    last_applied n' \<le> last_applied n \<and> commit_index n' = last_applied n' \<and> outbox n' = outbox n"

definition moves :: "membership \<Rightarrow> envelope set \<Rightarrow> 'm raft_node \<Rightarrow> 'm raft_node \<Rightarrow> bool" where
  "moves V N n n' \<longleftrightarrow> idles n n' \<or> grants N n n' \<or> stands n n' \<or> wins V n n' \<or> extends V n n' \<or> merges N n n' \<or> learns V N n n' \<or> restarts n n'"

section \<open>Following\<close>

lemma become_follower_fields [simp]:
  "config (become_follower t l n) = config n" "node_role (become_follower t l n) = Follower"
  "entries_of (become_follower t l n) = entries_of n" "ml_snap (log (become_follower t l n)) = ml_snap (log n)"
  "commit_index (become_follower t l n) = commit_index n" "last_applied (become_follower t l n) = last_applied n"
  "outbox (become_follower t l n) = outbox n" "replica_ok (become_follower t l n) = replica_ok n"
  by (auto simp: become_follower_def save_hard_state_def reset_election_timer_def ml_save_hard_state_def Let_def replica_ok_def plain_log_def split: prod.split)

lemma become_follower_ballot:
  "hard (become_follower t l n) = (if t \<noteq> node_term n then \<lparr>hs_term = t, hs_voted_for = None\<rparr> else hard n)"
  by (auto simp: become_follower_def save_hard_state_def reset_election_timer_def hard_state_new_def Let_def split: prod.split)

lemma become_follower_no_vote: "node_term n \<le> t \<Longrightarrow> no_vote n (become_follower t l n)"
  by (auto simp: no_vote_def become_follower_ballot)

lemma timer_fields [simp]:
  "config (reset_election_timer n) = config n" "node_role (reset_election_timer n) = node_role n" "hard (reset_election_timer n) = hard n"
  "commit_index (reset_election_timer n) = commit_index n" "last_applied (reset_election_timer n) = last_applied n"
  "outbox (reset_election_timer n) = outbox n" "matches (reset_election_timer n) = matches n" "node_membership (reset_election_timer n) = node_membership n"
  by (auto simp: reset_election_timer_def Let_def matches_def fun_eq_iff split: prod.split)

lemma send_fields [simp]:
  "config (send p m n) = config n" "node_role (send p m n) = node_role n" "hard (send p m n) = hard n"
  "commit_index (send p m n) = commit_index n" "last_applied (send p m n) = last_applied n" "matches (send p m n) = matches n"
  "node_membership (send p m n) = node_membership n"
  by (simp_all add: send_def matches_def fun_eq_iff)

lemma matches_update [simp]:
  "matches (n\<lparr>leader := x1\<rparr>) = matches n" "matches (n\<lparr>commit_index := x2\<rparr>) = matches n" "matches (n\<lparr>log := x3\<rparr>) = matches n"
  "matches (n\<lparr>node_membership := x4\<rparr>) = matches n" "matches (n\<lparr>pending_config := x5\<rparr>) = matches n" "matches (n\<lparr>ticks := x6\<rparr>) = matches n"
  "matches (n\<lparr>heartbeat_elapsed := x7\<rparr>) = matches n" "matches (n\<lparr>election_elapsed := x8\<rparr>) = matches n" "matches (n\<lparr>votes := x9\<rparr>) = matches n"
  "matches (n\<lparr>node_role := x10\<rparr>) = matches n" "matches (n\<lparr>outbox := x11\<rparr>) = matches n"
  by (simp_all add: matches_def fun_eq_iff)

section \<open>Merging\<close>

lemma merge_entries_plain:
  assumes plain: "plain_log (log n)" and prev: "prev \<le> length (entries_of n)"
    and num: "\<And>i. i < length es \<Longrightarrow> le_index (es ! i) = Suc prev + i" and bound: "prev + length es < u64_max"
  shows "\<exists>l' m p. merge_entries es n = ok () (n\<lparr>log := l', node_membership := m, pending_config := p\<rparr>) \<and>
    plain_log l' \<and> merges_to (entries_of n) prev es (ml_held l')"
proof -
  let ?L = "entries_of n"
  obtain k cut where scan: "merge_scan (log n) es = (k, cut)" by fastforce
  note spec = merge_scan_spec [OF scan]
  have k: "k \<le> length es" using spec by simp
  have held: "prev + i < length ?L \<and> le_term (?L ! (prev + i)) = le_term (es ! i)" if "i < k" for i
    using spec that num [of i] k plain by (auto simp: plain_term_at term_before_def split: if_splits)
  then have reach: "prev + k \<le> length ?L" using prev by (cases k) (auto simp: Suc_le_eq)
  have self: "n = n\<lparr>log := log n, node_membership := node_membership n, pending_config := pending_config n\<rparr>" by simp
  show ?thesis
  proof (cases "k = length es")
    case True
    then have "cut = None" using spec by (auto split: option.splits)
    then have "merge_entries es n = ok () n" using True by (simp add: merge_entries_def scan)
    moreover have "merges_to ?L prev es ?L" using True held by (auto simp: merges_to_def intro: exI [of _ k])
    ultimately show ?thesis using plain self by metis
  next
    case False
    let ?l1 = "(log n)\<lparr>ml_held := take (prev + k) ?L\<rparr>"
    let ?l2 = "(log n)\<lparr>ml_held := take (prev + k) ?L @ drop k es\<rparr>"
    have idx: "le_index (es ! k) = Suc (prev + k)" using num [of k] k False by simp
    have conflict: "le_term (?L ! (prev + k)) \<noteq> le_term (es ! k)" if "prev + k < length ?L"
      using spec that idx k False plain by (auto simp: plain_term_at term_before_def split: option.splits)
    have "cut = None \<Longrightarrow> length ?L \<le> prev + k" using spec idx k False plain by (auto simp: plain_term_at split: if_splits)
    moreover have "cut = Some i \<Longrightarrow> i = Suc (prev + k)" for i using spec idx by auto
    ultimately have trunc: "(case cut of Some i \<Rightarrow> lift_part (ml_truncate_from i (log n)) (\<lambda>l n. n\<lparr>log := l\<rparr>) n | None \<Rightarrow> ok () n) = ok () (n\<lparr>log := ?l1\<rparr>)"
      using plain ml_truncate_from_ok [of "log n"] by (auto simp: lift_part_def split: option.split)
    have l1: "plain_log ?l1" using plain by (auto simp: plain_log_def numbered_take min_def)
    have len: "length (take (prev + k) ?L) = prev + k" using reach by simp
    have num2: "le_index (drop k es ! i) = Suc (ml_last_index ?l1) + i" if "i < length (drop k es)" for i
      using num [of "k + i"] that plain_last [OF l1] len by simp
    have app: "ml_append (drop k es) ?l1 = Inr ?l2"
      using ml_append_ok(1) [OF plain_inv [OF l1] _ num2] bound k len plain_last [OF l1] by simp
    have l2: "plain_log ?l2"
      using plain num len bound k by (auto simp: plain_log_def numbered_def nth_append)
    have "merges_to ?L prev es (ml_held ?l2)"
      using False k held conflict reach by (auto simp: merges_to_def intro!: exI [of _ k])
    moreover have "\<exists>m p. merge_entries es n = ok () (n\<lparr>log := ?l2, node_membership := m, pending_config := p\<rparr>)"
    proof -
      have "merge_entries es n = (if cut \<noteq> None \<or> list_ex is_config (drop k es) then recompute_membership (n\<lparr>log := ?l2\<rparr>) else ok () (n\<lparr>log := ?l2\<rparr>))"
        using False k app unfolding merge_entries_def scan Let_def case_prod_conv trunc by (simp add: lift_part_def)
      moreover have "\<exists>m p. (ok () (n\<lparr>log := ?l2\<rparr>) :: (unit, _) node_outcome) = ok () (n\<lparr>log := ?l2, node_membership := m, pending_config := p\<rparr>)"
        by (rule exI [of _ "node_membership n"], rule exI [of _ "pending_config n"]) simp
      ultimately show ?thesis using recompute_membership_total [of "n\<lparr>log := ?l2\<rparr>"] by simp
    qed
    ultimately show ?thesis using l2 by blast
  qed
qed

text \<open>What is asked of a message: entries are numbered, and nothing that only a compacting replica sends.\<close>

fun sound_msg :: "raft_message \<Rightarrow> bool" where
  "sound_msg (AppendEntries t prev pt es lc) = ((\<forall>i < length es. le_index (es ! i) = Suc prev + i) \<and> prev + length es < u64_max)"
| "sound_msg (InstallSnapshot _ _) = False"
| "sound_msg (InstallSnapshotResponse _ _) = False"
| "sound_msg (TimeoutNow _) = False"
| "sound_msg _ = True"

lemma tailD:
  assumes "tail n n'" and "replica_ok n"
  shows "config n' = config n" "hard n' = hard n" "log n' = log n" "node_role n' = node_role n" "commit_index n' = commit_index n" "matches n' = matches n"
    and "node_membership n' = node_membership n"
    and "last_applied n' \<le> max (last_applied n) (commit_index n)" and "sends n n' (append_of (entries_of n) (node_term n) (commit_index n))"
  using assms by (auto simp: tail_def same_state_def applies_def)

lemma applied_no_sends:
  assumes "replica_ok n"
  shows "outbox (snd (apply_committed M n)) = outbox n"
proof -
  have one: "outbox (snd (apply_one M m)) = outbox m" for m :: "'a raft_node"
    by (auto simp: apply_one_def Let_def split: option.split entry_payload.split prod.split sum.split)
  have loop: "outbox (snd (apply_loop fuel M m)) = outbox m" for fuel and m :: "'a raft_node"
  proof (induction fuel arbitrary: m)
    case (Suc fuel)
    then show ?case using one [of m] by (auto simp: try_then_def split: prod.split sum.split)
  qed simp
  have "maybe_compact M m = ok () m" if "config m = config n" for m :: "'a raft_node"
    using that assms by (simp add: replica_ok_def maybe_compact_def)
  moreover have "config (snd (apply_loop f M n)) = config n" for f using tailD(1) [OF apply_loop_tail assms] .
  ultimately show ?thesis
    using loop [of "commit_index n - last_applied n" n] unfolding apply_committed_def try_then_def
    by (auto split: prod.split sum.split) (metis snd_conv snd_ok)+
qed

lemma handle_append_entries_moves:
  assumes ok: "replica_ok n" and e: "e \<in> N" "env_message e = msg" "msg = AppendEntries t prev pt es lc" and t: "node_term n = t" and sound: "sound_msg msg"
  shows "idles n (snd (handle_append_entries M (env_from e) msg n)) \<or> merges N n (snd (handle_append_entries M (env_from e) msg n))"
proof -
  let ?p = "env_from e"
  define n1 where "n1 = reset_election_timer ((if is_campaigning (node_role n) then become_follower t (Some ?p) n else n)\<lparr>leader := Some ?p\<rparr>)"
  have n1: "config n1 = config n" "hard n1 = hard n" "entries_of n1 = entries_of n" "ml_snap (log n1) = ml_snap (log n)" "commit_index n1 = commit_index n"
      "last_applied n1 = last_applied n" "outbox n1 = outbox n" "same_role n n1 \<and> node_role n \<noteq> Candidate \<or> node_role n1 = Follower"
    using t by (auto simp: n1_def become_follower_ballot same_role_def is_campaigning_def)
  have plain: "plain_log (log n1)" "ml_snap (log n1) = None" and ok1: "replica_ok n1" using ok n1 by (simp_all add: replica_ok_def plain_log_def)
  have kept: "unmoved n n1" "no_vote n n1" using n1 by (simp_all add: unmoved_def no_vote_def)
  have reject: "idles n (send q (AppendEntriesResponse a False b x y) n1)" for q a b x y
    using n1 kept by (auto simp: idles_def unmoved_def no_vote_def same_role_def applies_to_def sends_def send_def envelope_new_def matches_def)
  have step: "snd (handle_append_entries M ?p msg n) = (if length (entries_of n1) < prev
      then send ?p (AppendEntriesResponse (node_term n1) False index_zero (index_next (length (entries_of n1))) term_initial) n1
      else if term_before (entries_of n1) prev \<noteq> pt
      then send ?p (AppendEntriesResponse (node_term n1) False index_zero (first_index_of_term (log n1) prev (term_before (entries_of n1) prev)) (term_before (entries_of n1) prev)) n1
      else snd (try_then (merge_entries es n1) (\<lambda>_ n.
        let last_new = index_saturating_add prev (length es) in
        try_then (if lc > commit_index n then apply_committed M (n\<lparr>commit_index := min lc last_new\<rparr>) else ok () n)
          (\<lambda>_ n. ok () (send ?p (AppendEntriesResponse (node_term n) True last_new index_zero term_initial) n)))))"
    using plain unfolding e(3) handle_append_entries.simps Let_def n1_def [symmetric]
    by (auto simp: plain_term_at index_previous_def sat_sub_def)
  show ?thesis
  proof (cases "length (entries_of n1) < prev \<or> term_before (entries_of n1) prev \<noteq> pt")
    case True
    then show ?thesis using reject unfolding step by auto
  next
    case False
    then have prev: "prev \<le> length (entries_of n1)" "pt = term_before (entries_of n1) prev" by auto
    have num: "\<And>i. i < length es \<Longrightarrow> le_index (es ! i) = Suc prev + i" "prev + length es < u64_max" using sound e(3) by auto
    from merge_entries_plain [OF plain(1) prev(1) num] obtain l' m p where
      me: "merge_entries es n1 = ok () (n1\<lparr>log := l', node_membership := m, pending_config := p\<rparr>)" "plain_log l'" "merges_to (entries_of n1) prev es (ml_held l')"
      by blast
    define n2 where "n2 = n1\<lparr>log := l', node_membership := m, pending_config := p\<rparr>"
    define n3 where "n3 = (if lc > commit_index n2 then n2\<lparr>commit_index := min lc (prev + length es)\<rparr> else n2)"
    define r where "r = (if lc > commit_index n2 then apply_committed M n3 else ok () n3)"
    have last: "index_saturating_add prev (length es) = prev + length es" using num(2) by (simp add: index_saturating_add_def sat_add_def)
    have ok3: "replica_ok n3" using me(2) ok1 by (simp add: n3_def n2_def replica_ok_def)
    have tl: "tail n3 (snd r)" by (simp add: r_def apply_committed_tail tl.rel_refl)
    have "outbox n3 = outbox n" using n1 by (simp add: n3_def n2_def)
    then have out: "outbox (snd r) = outbox n" using applied_no_sends [OF ok3] by (simp add: r_def)
    have final: "snd (handle_append_entries M ?p msg n) = snd (try_then r (\<lambda>_ n. ok () (send ?p (AppendEntriesResponse (node_term n) True (prev + length es) index_zero term_initial) n)))"
      using False unfolding step me(1) n2_def [symmetric] by (simp add: r_def n3_def last Let_def not_less)
    have n3: "config n3 = config n" "hard n3 = hard n" "log n3 = l'" "node_role n3 = node_role n1" "matches n3 = matches n1" "last_applied n3 = last_applied n"
        "commit_index n3 = commit_index n \<or> commit_index n3 = min lc (prev + length es)"
      using n1 by (auto simp: n3_def n2_def)
    note r = tailD [OF tl ok3]
    have "merges N n n'"
      if n': "n' = snd r \<or> n' = send ?p (AppendEntriesResponse (node_term (snd r)) True (prev + length es) index_zero term_initial) (snd r)" for n'
    proof -
      have f: "config n' = config n" "hard n' = hard n" "log n' = l'" "node_role n' = node_role n1" "matches n' = matches n1"
          "commit_index n' = commit_index n \<or> commit_index n' = min lc (prev + length es)" "applies_to n n'"
        using n' r n3 by (auto simp: applies_to_def)
      have "sends n n' (\<lambda>m. m = AppendEntriesResponse (node_term n') True (prev + length es) 0 0)"
        using n' out r(1,2) n3 by (auto simp: sends_def send_def envelope_new_def index_zero_def term_initial_def)
      moreover have "same_role n n' \<and> node_role n \<noteq> Candidate \<or> node_role n' = Follower" using n1(8) f by (auto simp: same_role_def)
      moreover have "ml_snap l' = None" using me(2) by (simp add: plain_log_def)
      ultimately show ?thesis
        using f e t n1(3,4) plain(2) prev me(3) unfolding merges_def unmoved_def no_vote_def
        by (intro conjI exI [of _ e] exI [of _ prev] exI [of _ es] exI [of _ lc]) simp_all
    qed
    then show ?thesis unfolding final by (cases r) (auto simp: try_then_def split: sum.split)
  qed
qed

section \<open>Leading\<close>

definition members :: "membership \<Rightarrow> bool" where
  "members V \<longleftrightarrow> membership_wf V \<and> voters V \<noteq> []"

lemma maybe_advance_commit_fields [simp]:
  "config (maybe_advance_commit n) = config n" "node_role (maybe_advance_commit n) = node_role n" "hard (maybe_advance_commit n) = hard n"
  "last_applied (maybe_advance_commit n) = last_applied n" "outbox (maybe_advance_commit n) = outbox n"
  "matches (maybe_advance_commit n) = matches n" "node_membership (maybe_advance_commit n) = node_membership n"
  by (auto simp: maybe_advance_commit_def Let_def matches_def fun_eq_iff split: option.split)

lemma maybe_advance_commit_commits:
  assumes "replica_ok n" and V: "node_membership n = V" "members V"
  shows "commits V n (maybe_advance_commit n)"
proof -
  let ?q = "quorum_match n"
  have wf: "distinct (voters (node_membership n))" "voters (node_membership n) \<noteq> []"
    using V by (auto simp: members_def membership_wf_def btree_set_def strict_sorted_iff)
  show ?thesis
  proof (cases "node_role n = Leader \<and> commit_index n < ?q \<and> ml_term_at (log n) ?q = Some (node_term n)")
    case True
    then have q: "?q \<le> length (entries_of n)" "term_before (entries_of n) ?q = node_term n"
      using assms(1) by (auto simp: replica_ok_def plain_term_at split: if_splits)
    have "holders n ?q = {v \<in> set (voters V). v = node_id n \<or> ?q \<le> matches n v}"
      using q(1) assms by (auto simp: holders_def matched_of_def matches_def index_zero_def replica_ok_def split: option.splits)
    moreover have "decides V (holders n ?q)" using quorum_match_held [OF wf, of ?q] V(1) by simp
    moreover have "commit_index (maybe_advance_commit n) = ?q" using True maybe_advance_commit_eq [OF wf(2)] by simp
    ultimately show ?thesis using True q by (simp add: commits_def)
  qed (use maybe_advance_commit_eq [OF wf(2)] in \<open>auto simp: commits_def\<close>)
qed

lemma replica_ok_update:
  "config n' = config n \<Longrightarrow> log n' = log n \<Longrightarrow> replica_ok n' = replica_ok n"
  by (simp add: replica_ok_def)

text \<open>Counting and applying, after the state was brought up to date.\<close>

lemma advance_apply:
  assumes ok: "replica_ok n" and V: "node_membership n = V" "members V"
    and n'_def: "n' = snd (apply_committed M (maybe_advance_commit n))"
  shows "config n' = config n" "hard n' = hard n" "log n' = log n" "node_role n' = node_role n" "matches n' = matches n"
    "node_membership n' = node_membership n" "outbox n' = outbox n" "commits V n n'" "applies_to n n'"
proof -
  let ?m = "maybe_advance_commit n"
  have okm: "replica_ok ?m" using ok replica_ok_update [of ?m n] by simp
  note t = tailD [OF apply_committed_tail okm, of M, folded n'_def]
  show "config n' = config n" "hard n' = hard n" "log n' = log n" "node_role n' = node_role n" "matches n' = matches n"
    "node_membership n' = node_membership n" "outbox n' = outbox n"
    using t applied_no_sends [OF okm, of M] by (simp_all add: n'_def)
  show "commits V n n'" using maybe_advance_commit_commits [OF ok V] t by (simp add: commits_def)
  show "applies_to n n'" using t by (simp add: applies_to_def)
qed

lemma commits_cong:
  "commit_index n = commit_index m \<Longrightarrow> commits V n n' = commits V m n'"
  by (simp add: commits_def)

text \<open>Appending an entry as a leader, and telling everyone.\<close>

definition leads :: "membership \<Rightarrow> 'm raft_node \<Rightarrow> 'm raft_node \<Rightarrow> bool" where
  "leads V n n' \<longleftrightarrow> unmoved n n' \<and> node_role n' = Leader \<and> hard n' = hard n \<and> appends n n' \<and>
    (\<forall>v. v \<noteq> node_id n \<longrightarrow> matches n' v = matches n v) \<and> commits V n n' \<and> applies_to n n' \<and>
    sends n n' (append_of (entries_of n') (node_term n') (commit_index n))"

lemma append_local_leads:
  assumes ok: "replica_ok n" and room: "Suc (length (entries_of n)) < u64_max" and role: "node_role n = Leader"
    and payload: "\<forall>m. payload \<noteq> Config m" and V: "node_membership n = V" "members V"
  shows "leads V n (snd (append_local M payload n))"
proof -
  let ?L = "entries_of n"
  define e where "e = entry_new (node_term n) (Suc (length ?L)) payload"
  define l1 where "l1 = (log n)\<lparr>ml_held := ?L @ [e]\<rparr>"
  define n1 where "n1 = n\<lparr>log := l1\<rparr>"
  define n2 where "n2 = (case node_progress n1 (node_id n1) of
      Some p \<Rightarrow> n1\<lparr>node_progress := (node_progress n1)(node_id n1 \<mapsto> p\<lparr>match_index := Suc (length ?L), next_index := index_next (Suc (length ?L))\<rparr>)\<rparr>
    | None \<Rightarrow> n1)"
  have plain: "plain_log (log n)" using ok by (simp add: replica_ok_def)
  have idx: "index_next (ml_last_index (log n)) = Suc (length ?L)" using plain room by (simp add: index_next_exact)
  have cfg: "entry_config e = None" using payload by (simp add: e_def entry_config_def entry_new_def split: entry_payload.split)
  have le: "le_term e = node_term n" "le_index e = Suc (length ?L)" by (simp_all add: e_def entry_new_def)
  have app: "ml_append [e] (log n) = Inr l1"
    using ml_append_ok(1) [OF plain_inv [OF plain], of "[e]"] plain room le by (simp add: l1_def)
  have n2: "config n2 = config n" "hard n2 = hard n" "log n2 = l1" "node_role n2 = Leader" "commit_index n2 = commit_index n"
      "last_applied n2 = last_applied n" "outbox n2 = outbox n" "node_membership n2 = node_membership n"
      "v \<noteq> node_id n \<Longrightarrow> matches n2 v = matches n v" for v
    using role by (auto simp: n2_def n1_def matches_def split: option.split)
  have "numbered (?L @ [e])" using plain le(2) numbered_snoc by (auto simp: plain_log_def)
  then have ok2: "replica_ok n2" using ok room n2(1,3) by (simp add: replica_ok_def plain_log_def l1_def)
  have L2: "entries_of n2 = ?L @ [e]" by (simp add: n2 l1_def)
  obtain b where b: "b = broadcast_append n2" by simp
  have step: "snd (append_local M payload n) = snd (try_then b (\<lambda>_ n. try_then (apply_committed M (maybe_advance_commit n)) (\<lambda>_. ok (Suc (length ?L)))))"
    using role app cfg
    by (simp add: append_local_def is_leader_def idx Let_def e_def [symmetric] lift_part_def n1_def [symmetric] n2_def [symmetric] b)
  note t = tailD [OF broadcast_append_tail ok2, folded b]
  have ok3: "replica_ok (snd b)" using t(1,3) ok2 replica_ok_update [of "snd b" n2] by simp
  have goal: "leads V n n'"
    if n': "config n' = config n2" "hard n' = hard n2" "log n' = log n2" "node_role n' = node_role n2" "matches n' = matches n2"
      "outbox n' = outbox (snd b)" "commits V (snd b) n'" "applies_to n n'" for n'
  proof -
    have "commits V n n'" using n'(7) t(5) n2 by (simp add: commits_def)
    moreover have "sends n n' (append_of (entries_of n2) (node_term n2) (commit_index n2))"
      using t(9) n'(6) n2(1,7) by (simp add: sends_def)
    then have "sends n n' (append_of (entries_of n') (node_term n') (commit_index n))" using n'(2,3) n2(5) by simp
    moreover have "appends n n'" using n'(2,3) L2 le n2(2) by (simp add: appends_def)
    moreover have "unmoved n n'" using n'(1,3) n2(1,3) by (simp add: unmoved_def l1_def)
    ultimately show ?thesis using n'(2,4,5,8) n2(2,4,9) by (simp add: leads_def)
  qed
  have first: "leads V n (snd b)"
    by (rule goal) (use t n2 in \<open>auto simp: commits_def applies_to_def\<close>)
  have V3: "node_membership (snd b) = V" using t n2 V by simp
  note a = advance_apply [OF ok3 V3 V(2) refl, of M]
  have second: "leads V n (snd (apply_committed M (maybe_advance_commit (snd b))))"
    by (rule goal) (use a t n2 in \<open>auto simp: applies_to_def commits_def\<close>)
  show ?thesis unfolding step using first second by (cases b) (auto simp: try_then_def split: sum.split prod.split)
qed

text \<open>Moves depend on the replica before only through what the definitions mention.\<close>

definition view :: "'m raft_node \<Rightarrow> raft_config \<times> log_entry list \<times> snapshot option \<times> log_index \<times> log_index \<times> envelope list" where
  "view n = (config n, entries_of n, ml_snap (log n), commit_index n, last_applied n, outbox n)"

lemma view_parts:
  assumes "view m = view n"
  shows "unmoved m = unmoved n" "appends m = appends n" "commits V m = commits V n" "applies_to m = applies_to n" "sends m = sends n"
    "config m = config n" "commit_index m = commit_index n" "entries_of m = entries_of n" "last_applied m = last_applied n"
  using assms by (simp_all add: view_def unmoved_def appends_def commits_def applies_to_def sends_def fun_eq_iff)

lemma wins_view: "view m = view n \<Longrightarrow> node_role m = node_role n \<Longrightarrow> hard m = hard n \<Longrightarrow> wins V m n' = wins V n n'"
  using view_parts [of m n] by (simp add: wins_def)

lemma wins_fresh:
  "view m = view n \<Longrightarrow> hard m = \<lparr>hs_term = Suc (node_term n), hs_voted_for = Some (node_id n)\<rparr> \<Longrightarrow> hard n' = hard m \<Longrightarrow> wins V m n' \<Longrightarrow> wins V n n'"
  using view_parts [of m n] by (simp add: wins_def)

lemma wins_pre: "view m = view n \<Longrightarrow> hard m = hard n \<Longrightarrow> node_role m \<noteq> Candidate \<Longrightarrow> wins V m n' \<Longrightarrow> wins V n n'"
  using view_parts [of m n] by (auto simp: wins_def)

lemma stands_view: "view m = view n \<Longrightarrow> hard m = hard n \<Longrightarrow> stands m n' = stands n n'"
  using view_parts [of m n] by (simp add: stands_def)

lemma leads_view:
  "view m = view n \<Longrightarrow> hard m = hard n \<Longrightarrow> (\<And>v. v \<noteq> node_id n \<Longrightarrow> matches m v = matches n v) \<Longrightarrow> leads V m n' = leads V n n'"
  using view_parts [of m n] by (simp add: leads_def)

lemma leads_wins:
  assumes "leads V m n'" and "view m = view n" and "hard m = hard n" and "\<And>v. v \<noteq> node_id n \<Longrightarrow> matches m v = 0" and "node_role n = Candidate"
  shows "wins V n n'"
  using assms view_parts [OF assms(2)] by (auto simp: leads_def wins_def)

lemma matches_empty [simp]: "matches (n\<lparr>node_progress := Map.empty\<rparr>) v = 0"
  by (simp add: matches_def)

lemma propose_moves:
  assumes "replica_ok n" and "Suc (length (entries_of n)) < u64_max" and "node_membership n = V" and "members V"
  shows "idles n (snd (propose M cmd n)) \<or> extends V n (snd (propose M cmd n))"
proof (cases "node_role n = Leader")
  case True
  then have "leads V n (snd (propose M cmd n))" using append_local_leads [OF assms(1,2) True _ assms(3,4)] by (simp add: propose_def)
  then show ?thesis using True by (auto simp: leads_def extends_def)
next
  case False
  then have "snd (propose M cmd n) = n" by (simp add: propose_def append_local_def is_leader_def)
  then show ?thesis by (simp add: idles_def unmoved_def no_vote_def same_role_def applies_to_def sends_refl)
qed

lemma idles_refl [simp]: "idles n n"
  by (simp add: idles_def unmoved_def no_vote_def same_role_def applies_to_def sends_refl)

lemma rebuild_progress_match:
  "rebuild_progress Map.empty i t vs v = Some p \<Longrightarrow> match_index p = 0"
  by (induction vs) (auto simp: progress_new_def index_zero_def split: if_splits)

lemma reset_progress_matches: "node_progress n = Map.empty \<Longrightarrow> v \<noteq> node_id n \<Longrightarrow> matches (reset_progress n) v = 0"
  by (auto simp: reset_progress_def matches_def Let_def split: option.split dest: rebuild_progress_match)

lemma become_leader_leads:
  assumes ok: "replica_ok n" and room: "Suc (length (entries_of n)) < u64_max" and V: "node_membership n = V" "members V"
  shows "leads V (n\<lparr>node_role := Leader, node_progress := Map.empty\<rparr>) (snd (become_leader M n))"
proof -
  let ?n = "n\<lparr>node_role := Leader, leader := Some (node_id n), votes := [], election_elapsed := 0, heartbeat_elapsed := 0, node_progress := Map.empty\<rparr>"
  have same: "config (reset_progress ?n) = config n" "log (reset_progress ?n) = log n" "node_role (reset_progress ?n) = Leader"
      "node_membership (reset_progress ?n) = node_membership n" "hard (reset_progress ?n) = hard n" "commit_index (reset_progress ?n) = commit_index n"
      "last_applied (reset_progress ?n) = last_applied n" "outbox (reset_progress ?n) = outbox n"
    by (simp_all add: reset_progress_def Let_def)
  have "replica_ok (reset_progress ?n)" using ok same(1,2) by (simp add: replica_ok_def)
  then have "leads V (reset_progress ?n) (snd (append_local M Noop (reset_progress ?n)))"
    using room same V by (intro append_local_leads) simp_all
  moreover have "snd (become_leader M n) = snd (append_local M Noop (reset_progress ?n))"
    by (simp add: become_leader_def Let_def)
  ultimately have "leads V (reset_progress ?n) (snd (become_leader M n))" by simp
  then show ?thesis
    by (rule leads_view [THEN iffD1, rotated 3]) (use same reset_progress_matches [of ?n] in \<open>simp_all add: view_def\<close>)
qed

lemma become_leader_wins:
  assumes ok: "replica_ok n" and room: "Suc (length (entries_of n)) < u64_max" and V: "node_membership n = V" "members V" and role: "node_role n = Candidate"
  shows "wins V n (snd (become_leader M n))"
  by (rule leads_wins [OF become_leader_leads [OF ok room V]]) (simp_all add: view_def role)

section \<open>Standing for election\<close>

lemma save_hard_state_same [simp]:
  "entries_of (save_hard_state t v n) = entries_of n" "ml_snap (log (save_hard_state t v n)) = ml_snap (log n)"
  "commit_index (save_hard_state t v n) = commit_index n" "last_applied (save_hard_state t v n) = last_applied n"
  "replica_ok (save_hard_state t v n) = replica_ok n"
  by (auto simp: save_hard_state_def ml_save_hard_state_def Let_def replica_ok_def plain_log_def)

lemma fold_send_same:
  "commit_index (fold (\<lambda>p n. send p (f n) n) ps n) = commit_index n \<and> last_applied (fold (\<lambda>p n. send p (f n) n) ps n) = last_applied n
    \<and> matches (fold (\<lambda>p n. send p (f n) n) ps n) = matches n"
  by (induction ps arbitrary: n) simp_all

lemma campaign_moves:
  assumes ok: "replica_ok n" and room: "Suc (length (entries_of n)) < u64_max" and term_room: "node_term n < u64_max"
    and V: "node_membership n = V" "members V"
  shows "stands n (snd (campaign M n)) \<or> wins V n (snd (campaign M n))"
proof -
  let ?t = "Suc (node_term n)"
  define c where "c = reset_election_timer ((save_hard_state ?t (Some (node_id n)) n)\<lparr>node_role := Candidate, leader := None, votes := [(node_id n, True)]\<rparr>)"
  have t: "term_next (node_term n) = ?t" using term_room by (simp add: term_next_def sat_add_1)
  have c: "config c = config n" "hard c = \<lparr>hs_term = ?t, hs_voted_for = Some (node_id n)\<rparr>" "node_role c = Candidate" "entries_of c = entries_of n"
      "ml_snap (log c) = ml_snap (log n)" "commit_index c = commit_index n" "last_applied c = last_applied n" "outbox c = outbox n"
      "node_membership c = node_membership n"
    by (simp_all add: c_def save_hard_state_hard hard_state_new_def)
  have okc: "replica_ok c" using ok c(1,4,5) by (simp add: replica_ok_def plain_log_def)
  have plain: "plain_log (log c)" using okc by (simp add: replica_ok_def)
  let ?f = "\<lambda>n :: 'a raft_node. VoteRequest ?t (ml_last_index (log n)) (ml_last_term (log n))"
  have step: "snd (campaign M n) = (if is_quorum (node_membership n) 1 then snd (become_leader M c)
      else fold (\<lambda>peer n. send peer (?f n) n) (other_voters c) c)"
    unfolding campaign_def Let_def t by (simp add: c_def)
  show ?thesis
  proof (cases "is_quorum (node_membership n) 1")
    case True
    have win: "wins V c (snd (become_leader M c))" using okc room c V by (intro become_leader_wins) simp_all
    have "hard (snd (become_leader M c)) = hard c" using become_leader_leads [OF okc, of V M] room c V by (simp add: leads_def)
    then have "wins V n (snd (become_leader M c))" using wins_fresh [OF _ _ _ win] c by (simp add: view_def)
    then show ?thesis unfolding step using True by simp
  next
    case False
    have out: "outbox (fold (\<lambda>peer n. send peer (?f n) n) ps c) = outbox c @ map (\<lambda>p. envelope_new (node_id c) p (?f c)) ps" for ps
      by (rule fold_send_outbox) simp
    have "stands n (fold (\<lambda>peer n. send peer (?f n) n) (other_voters c) c)"
      using fold_send_fields [of ?f "other_voters c" c] fold_send_same [of ?f "other_voters c" c] out [of "other_voters c"] c plain_last [OF plain] plain_last_term [OF plain]
      by (auto simp: stands_def unmoved_def sends_def envelope_new_def)
    then show ?thesis unfolding step using False by simp
  qed
qed

lemma campaign_pre_vote_moves:
  assumes ok: "replica_ok n" and room: "Suc (length (entries_of n)) < u64_max" "node_term n < u64_max"
    and V: "node_membership n = V" "members V"
  shows "idles n (snd (campaign_pre_vote M n)) \<or> stands n (snd (campaign_pre_vote M n)) \<or> wins V n (snd (campaign_pre_vote M n))"
proof -
  define c where "c = reset_election_timer (n\<lparr>node_role := PreCandidate, leader := None, votes := [(node_id n, True)]\<rparr>)"
  have c: "config c = config n" "hard c = hard n" "node_role c = PreCandidate" "log c = log n"
      "commit_index c = commit_index n" "last_applied c = last_applied n" "outbox c = outbox n" "node_membership c = node_membership n"
    by (simp_all add: c_def)
  have okc: "replica_ok c" using ok c(1,4) by (simp add: replica_ok_def)
  let ?f = "\<lambda>n :: 'a raft_node. PreVoteRequest (term_next (node_term c)) (ml_last_index (log n)) (ml_last_term (log n))"
  have step: "snd (campaign_pre_vote M n) = (if is_quorum (node_membership n) 1 then snd (campaign M c)
      else fold (\<lambda>peer n. send peer (?f n) n) (other_voters c) c)"
    unfolding campaign_pre_vote_def Let_def by (simp add: c_def)
  show ?thesis
  proof (cases "is_quorum (node_membership n) 1")
    case True
    have "stands c (snd (campaign M c)) \<or> wins V c (snd (campaign M c))" using okc room c V by (intro campaign_moves) simp_all
    moreover have "stands c n' \<Longrightarrow> stands n n'" for n' using stands_view [of c n] c by (simp add: view_def)
    moreover have "wins V c n' \<Longrightarrow> wins V n n'" for n' using wins_pre [of c n V n'] c by (simp add: view_def)
    ultimately show ?thesis unfolding step using True by auto
  next
    case False
    have out: "outbox (fold (\<lambda>peer n. send peer (?f n) n) ps c) = outbox c @ map (\<lambda>p. envelope_new (node_id c) p (?f c)) ps" for ps
      by (rule fold_send_outbox) simp
    have "idles n (fold (\<lambda>peer n. send peer (?f n) n) (other_voters c) c)"
      using fold_send_fields [of ?f "other_voters c" c] fold_send_same [of ?f "other_voters c" c] out [of "other_voters c"] c
      by (auto simp: idles_def unmoved_def no_vote_def applies_to_def sends_def envelope_new_def)
    then show ?thesis unfolding step using False by simp
  qed
qed

lemma count_vote_moves:
  assumes ok: "replica_ok n" and room: "Suc (length (entries_of n)) < u64_max" "node_term n < u64_max"
    and V: "node_membership n = V" "members V"
  shows "idles n (snd (count_vote M pre p g n)) \<or> stands n (snd (count_vote M pre p g n)) \<or> wins V n (snd (count_vote M pre p g n))"
proof (cases "node_role n = (if pre then PreCandidate else Candidate)")
  case role: True
  let ?n = "n\<lparr>votes := AList.update p g (votes n)\<rparr>"
  have okn: "replica_ok ?n" using ok by (simp add: replica_ok_def)
  have quiet: "idles n ?n" "idles n (reset_election_timer (?n\<lparr>node_role := Follower, votes := []\<rparr>))"
    by (simp_all add: idles_def unmoved_def no_vote_def same_role_def applies_to_def sends_refl)
  have camp: "stands n (snd (campaign M ?n)) \<or> wins V n (snd (campaign M ?n))"
    using campaign_moves [OF okn, of V M] room V stands_view [of ?n n] wins_view [of ?n n] by (simp add: view_def)
  have win: "wins V n (snd (become_leader M ?n))" if "\<not> pre"
    using become_leader_wins [OF okn, of V M] room V role that wins_view [of ?n n] by (simp add: view_def)
  show ?thesis
    using role quiet camp win by (simp add: count_vote_def Let_def split del: if_split) (auto split: if_split)
qed (simp add: count_vote_def)

section \<open>Voting\<close>

lemma handle_vote_request_moves:
  assumes ok: "replica_ok n" and e: "e \<in> N" "env_message e = msg" and msg: "msg = PreVoteRequest t i lt \<or> msg = VoteRequest t i lt"
    and t: "msg = VoteRequest t i lt \<Longrightarrow> node_term n = t"
    and vote: "node_role n = Candidate \<or> node_role n = Leader \<Longrightarrow> hs_voted_for (hard n) \<noteq> None"
  shows "idles n (handle_vote_request (env_from e) msg n) \<or> grants N n (handle_vote_request (env_from e) msg n)"
proof -
  let ?p = "env_from e"
  have answer: "idles n (send q m n)" if "calm m" for q m
    using that by (auto simp: idles_def unmoved_def no_vote_def same_role_def applies_to_def sends_def send_def envelope_new_def matches_def)
  show ?thesis
  proof (cases "msg = VoteRequest t i lt \<and> (can_vote (hard n) \<or> has_voted_for (hard n) ?p) \<and> is_log_up_to_date n i lt")
    case True
    define n1 where "n1 = reset_election_timer (save_hard_state (node_term n) (Some ?p) n)"
    have step: "handle_vote_request ?p msg n = send ?p (VoteResponse (node_term n1) True) n1"
      using True by (simp add: Let_def n1_def)
    have n1: "config n1 = config n" "entries_of n1 = entries_of n" "ml_snap (log n1) = ml_snap (log n)" "commit_index n1 = commit_index n" "last_applied n1 = last_applied n"
        "outbox n1 = outbox n" "node_role n1 = node_role n" "hard n1 = \<lparr>hs_term = node_term n, hs_voted_for = Some ?p\<rparr>" "matches n1 = matches n"
      by (simp_all add: n1_def save_hard_state_hard hard_state_new_def) (simp add: save_hard_state_def Let_def matches_def fun_eq_iff)
    have up: "up_to_date (entries_of n) i lt"
      using True ok plain_last_term [of "log n"] plain_last [of "log n"]
      by (auto simp: is_log_up_to_date_def up_to_date_def replica_ok_def Let_def split: if_splits)
    show ?thesis
    proof (cases "hs_voted_for (hard n) = None")
      case True
      then have "node_role n = Follower \<or> node_role n = PreCandidate" using vote by (cases "node_role n") auto
      moreover have "msg = VoteRequest t i lt" using \<open>msg = VoteRequest t i lt \<and> _\<close> by simp
      ultimately have "grants N n (send ?p (VoteResponse (node_term n1) True) n1)"
        unfolding grants_def using n1 e t up
        by (intro conjI exI [of _ e] exI [of _ i] exI [of _ lt]) (auto simp: unmoved_def sends_def send_def envelope_new_def)
      then show ?thesis unfolding step by simp
    next
      case False
      then have "hard n1 = hard n" using True n1(8) by (cases "hard n") (auto simp: can_vote_def has_voted_for_def)
      then have "idles n (send ?p (VoteResponse (node_term n1) True) n1)"
        using n1 by (auto simp: idles_def unmoved_def no_vote_def same_role_def applies_to_def sends_def send_def envelope_new_def matches_def)
      then show ?thesis unfolding step by simp
    qed
  next
    case False
    then have "idles n (handle_vote_request ?p msg n)" using msg by (auto simp: Let_def intro!: answer)
    then show ?thesis by simp
  qed
qed

section \<open>Acknowledgements\<close>

lemma tail_idles:
  assumes "replica_ok n" and "tail n n'" and "node_role n = Leader"
  shows "idles n n'"
  using tailD [OF assms(2,1)] assms(3)
  by (auto simp: idles_def unmoved_def no_vote_def same_role_def applies_to_def elim: sends_mono)

lemma note_contact_fields [simp]:
  "config (note_contact p n) = config n" "log (note_contact p n) = log n" "node_role (note_contact p n) = node_role n" "hard (note_contact p n) = hard n"
  "commit_index (note_contact p n) = commit_index n" "last_applied (note_contact p n) = last_applied n" "outbox (note_contact p n) = outbox n"
  "node_membership (note_contact p n) = node_membership n" "matches (note_contact p n) = matches n"
  by (auto simp: note_contact_def matches_def fun_eq_iff split: option.split)

lemma handle_append_response_moves:
  assumes ok: "replica_ok n" and V: "node_membership n = V" "members V"
    and e: "e \<in> N" "env_message e = AppendEntriesResponse t success m ci ct"
  shows "idles n (snd (handle_append_response M (env_from e) (AppendEntriesResponse t success m ci ct) n)) \<or>
    learns V N n (snd (handle_append_response M (env_from e) (AppendEntriesResponse t success m ci ct) n))"
proof (cases "node_role n \<noteq> Leader \<or> t \<noteq> node_term n")
  case False
  let ?p = "env_from e"
  define n1 where "n1 = note_contact ?p n"
  have role: "node_role n = Leader" and t: "t = node_term n" using False by auto
  have n1: "config n1 = config n" "log n1 = log n" "node_role n1 = Leader" "hard n1 = hard n" "commit_index n1 = commit_index n"
      "last_applied n1 = last_applied n" "outbox n1 = outbox n" "node_membership n1 = node_membership n" "matches n1 = matches n"
    using role by (simp_all add: n1_def)
  have ok1: "replica_ok n1" using ok n1(1,2) by (simp add: replica_ok_def)
  have tl1: "tail n n1" by (simp add: n1_def note_contact_tail)
  show ?thesis
  proof (cases "node_progress n1 ?p")
    case None
    then have "snd (handle_append_response M ?p (AppendEntriesResponse t success m ci ct) n) = n1" using False by (simp add: n1_def Let_def)
    then show ?thesis using tail_idles [OF ok tl1 role] by simp
  next
    case p: (Some p)
    show ?thesis
    proof (cases success)
      case False
      then obtain ni where step: "snd (handle_append_response M ?p (AppendEntriesResponse t success m ci ct) n) =
          snd (send_append ?p (n1\<lparr>node_progress := (node_progress n1)(?p \<mapsto> p\<lparr>next_index := ni\<rparr>)\<rparr>))"
        using role t p by (simp add: n1_def Let_def)
      have "tail n1 (n1\<lparr>node_progress := (node_progress n1)(?p \<mapsto> p\<lparr>next_index := ni\<rparr>)\<rparr>)"
        using p by (intro tail_update) (auto simp: matches_def fun_eq_iff)
      then have "tail n (snd (handle_append_response M ?p (AppendEntriesResponse t success m ci ct) n))"
        unfolding step by (rule tl.rel_trans [OF tl1 tl.rel_trans [OF _ send_append_tail]])
      then show ?thesis using tail_idles [OF ok _ role] by blast
    next
      case True
      define q where "q = p\<lparr>match_index := (if m > match_index p then m else match_index p),
        next_index := index_next (if m > match_index p then m else match_index p), snapshot_in_flight := False\<rparr>"
      define n2 where "n2 = n1\<lparr>node_progress := (node_progress n1)(?p \<mapsto> q)\<rparr>"
      define a where "a = apply_committed M (maybe_advance_commit n2)"
      define behind where "behind = (next_index q \<le> ml_last_index (log n1))"
      have step: "snd (handle_append_response M ?p (AppendEntriesResponse t success m ci ct) n) = snd (try_then a (\<lambda>_ n. if behind then send_append ?p n else ok () n))"
        using role t p True by (simp add: n1_def [symmetric] Let_def q_def n2_def a_def behind_def)
      have n2: "config n2 = config n" "log n2 = log n" "node_role n2 = Leader" "hard n2 = hard n" "commit_index n2 = commit_index n"
          "last_applied n2 = last_applied n" "outbox n2 = outbox n" "node_membership n2 = V"
        using n1 V by (simp_all add: n2_def)
      have m2: "matches n2 v = matches n v \<or> v = ?p \<and> matches n2 v = m" for v
        using p fun_cong [OF n1(9), of v] by (auto simp: n2_def q_def matches_def)
      have ok2: "replica_ok n2" using ok n2(1,2) by (simp add: replica_ok_def)
      note aa = advance_apply [OF ok2 n2(8) V(2) refl, of M, folded a_def]
      have ok3: "replica_ok (snd a)" using ok aa(1,3) n2(1,2) by (simp add: replica_ok_def)
      have learn: "learns V N n n'" if "tail (snd a) n'" for n'
      proof -
        note b = tailD [OF that ok3]
        have "commits V n n'" using aa(8) b n2 by (simp add: commits_def)
        moreover have "applies_to n n'" using aa(9) b n2 by (auto simp: applies_to_def)
        moreover have "sends n n' (append_of (entries_of n') (node_term n') (commit_index n'))"
          using b aa n2 by (simp add: sends_def)
        moreover have "\<forall>v. matches n' v = matches n v \<or> v = ?p \<and> matches n' v = m" using m2 b aa by simp
        ultimately show ?thesis
          unfolding learns_def using b(1-4) aa(1-4) n2(1-4) role e t True by (auto simp: unmoved_def)
      qed
      have "tail (snd a) (snd (try_then a (\<lambda>_ n. if behind then send_append ?p n else ok () n)))"
        by (intro tl.rel_try_then tl.rel_refl) (auto intro: tl.rel_trans send_append_tail)
      then show ?thesis unfolding step using learn by blast
    qed
  qed
qed simp

section \<open>Every input is a move\<close>

lemma idles_trans_follower:
  assumes "idles h n'" and h: "node_role h = Follower" "view h = view n" "node_term n < node_term h" "hs_voted_for (hard h) = None"
  shows "idles n n'"
proof -
  note v = view_parts [OF h(2)]
  have "no_vote n n'" using assms(1) h(3,4) by (auto simp: idles_def no_vote_def)
  moreover have "sends n n' calm" using assms(1) h(1) v by (auto simp: idles_def)
  then have "sends n n' (\<lambda>m. calm m \<or> node_role n = Leader \<and> append_of (entries_of n) (node_term n) (commit_index n) m)" by (rule sends_mono) simp
  ultimately show ?thesis using assms(1) h(1) v by (auto simp: idles_def same_role_def)
qed

lemma grants_trans_follower:
  assumes "grants N h n'" and h: "view h = view n" "node_term n < node_term h"
  shows "grants N n n'"
proof -
  note v = view_parts [OF h(1)]
  have "node_term n \<le> node_term n'" using assms(1) h(2) by (simp add: grants_def)
  then show ?thesis using assms(1) v unfolding grants_def by simp
qed

lemma merges_trans_follower:
  assumes "merges N h n'" and h: "node_role h = Follower" "view h = view n" "node_term n < node_term h" "hs_voted_for (hard h) = None"
  shows "merges N n n'"
proof -
  note v = view_parts [OF h(2)]
  have "no_vote n n'" using assms(1) h(3,4) by (auto simp: merges_def no_vote_def)
  moreover have "node_role n' = Follower" using assms(1) h(1) by (auto simp: merges_def same_role_def)
  ultimately show ?thesis using assms(1) v unfolding merges_def by simp
qed

lemma become_follower_view: "view (become_follower t l n) = view n"
  by (simp add: view_def)

lemma step_moves:
  assumes ok: "replica_ok n" and room: "Suc (length (entries_of n)) < u64_max" "node_term n < u64_max" and V: "members V"
    and elect: "elect_ok V cast n" and e: "e \<in> N" "sound_msg (env_message e)"
  shows "moves V N n (snd (step M e n))"
proof -
  let ?m = "env_message e" and ?p = "env_from e"
  have Vn: "node_membership n = V" using elect by (simp add: elect_ok_def member_ok_def static_node_def)
  have vote: "node_role n = Candidate \<or> node_role n = Leader \<Longrightarrow> hs_voted_for (hard n) \<noteq> None"
    using elect by (auto simp: elect_ok_def elected_def)
  have reject: "idles n (reject_stale ?p ?m n)"
    by (cases "(?p, ?m, n)" rule: reject_stale.cases)
      (auto simp: idles_def unmoved_def no_vote_def same_role_def applies_to_def sends_def send_def envelope_new_def matches_def)
  have here: "moves V N n (snd (dispatch M ?p ?m n))" if t: "message_term ?m = node_term n \<or> is_pre_vote ?m"
  proof (cases ?m)
    case (PreVoteRequest t i lt)
    then show ?thesis using handle_vote_request_moves [OF ok e(1) refl, of t i lt] vote by (auto simp: dispatch_def moves_def)
  next
    case (VoteRequest t i lt)
    then show ?thesis
      using handle_vote_request_moves [OF ok e(1) refl, of t i lt] vote t by (auto simp: dispatch_def moves_def)
  next
    case (PreVoteResponse t g)
    then show ?thesis using count_vote_moves [OF ok room Vn V, of M True ?p g] by (auto simp: dispatch_def moves_def)
  next
    case (VoteResponse t g)
    then show ?thesis using count_vote_moves [OF ok room Vn V, of M False ?p g] by (auto simp: dispatch_def moves_def)
  next
    case (AppendEntries t prev pt es lc)
    then have "node_term n = t" using t by simp
    then show ?thesis
      using handle_append_entries_moves [OF ok e(1) AppendEntries refl, of M] e(2) AppendEntries
      by (auto simp: dispatch_def moves_def simp del: handle_append_entries.simps sound_msg.simps)
  next
    case (AppendEntriesResponse t success m ci ct)
    then show ?thesis
      using handle_append_response_moves [OF ok Vn V e(1) AppendEntriesResponse, of M]
      by (auto simp: dispatch_def moves_def simp del: handle_append_response.simps)
  qed (use e(2) in auto)
  have high: "moves V N n (snd (dispatch M ?p ?m (handle_higher_term ?p ?m (message_term ?m) n)))" if lt: "node_term n < message_term ?m"
  proof (cases "is_pre_vote ?m \<and> handle_higher_term ?p ?m (message_term ?m) n = n")
    case True
    then show ?thesis using here by simp
  next
    case False
    let ?t = "message_term ?m"
    obtain l where h: "handle_higher_term ?p ?m ?t n = become_follower ?t l n"
      using False by (cases "(?p, ?m, ?t, n)" rule: handle_higher_term.cases) auto
    let ?h = "become_follower ?t l n"
    have hh: "node_role ?h = Follower" "view ?h = view n" "node_term n < node_term ?h" "hs_voted_for (hard ?h) = None" "node_term ?h = ?t"
      using lt by (simp_all add: become_follower_view become_follower_ballot)
    have okh: "replica_ok ?h" using ok by simp
    note lift = idles_trans_follower [OF _ hh(1-4)] grants_trans_follower [OF _ hh(2,3)] merges_trans_follower [OF _ hh(1-4)]
    show ?thesis
    proof (cases ?m)
      case (PreVoteRequest t i x)
      then show ?thesis using False by simp
    next
      case (VoteRequest t i x)
      then show ?thesis
        using handle_vote_request_moves [OF okh e(1) refl, of t i x] lift hh(1,5) h by (auto simp: dispatch_def moves_def simp del: handle_vote_request.simps)
    next
      case (AppendEntries t prev pt es lc)
      then show ?thesis
        using handle_append_entries_moves [OF okh e(1) AppendEntries refl, of M] e(2) hh(5) lift h
        by (auto simp: dispatch_def moves_def simp del: handle_append_entries.simps sound_msg.simps)
    next
      case (PreVoteResponse t g)
      then show ?thesis using hh h lift(1) by (auto simp: dispatch_def moves_def count_vote_def)
    next
      case (VoteResponse t g)
      then show ?thesis using hh h lift(1) by (auto simp: dispatch_def moves_def count_vote_def)
    next
      case (AppendEntriesResponse t success m ci ct)
      then show ?thesis using hh h lift(1) by (auto simp: dispatch_def moves_def)
    qed (use e(2) in auto)
  qed
  show ?thesis
    using reject high here
    by (auto simp: step_def Let_def is_stale_against_def rejects_def not_less moves_def simp del: handle_higher_term.simps reject_stale.simps)
qed

lemma tick_moves:
  assumes ok: "replica_ok n" and room: "Suc (length (entries_of n)) < u64_max" "node_term n < u64_max" and V: "node_membership n = V" "members V"
  shows "moves V N n (snd (tick M n))"
proof -
  let ?n = "n\<lparr>ticks := sat_add (ticks n) 1\<rparr>"
  have okn: "replica_ok ?n" using ok by (simp add: replica_ok_def)
  show ?thesis
  proof (cases "node_role n = Leader")
    case True
    define b where "b = (if sat_add (heartbeat_elapsed ?n) 1 \<ge> heartbeat_ticks (config n)
      then broadcast_append (?n\<lparr>heartbeat_elapsed := 0\<rparr>) else ok () (?n\<lparr>heartbeat_elapsed := sat_add (heartbeat_elapsed ?n) 1\<rparr>))"
    have "tail n (n\<lparr>ticks := x, heartbeat_elapsed := y\<rparr>)" for x y by (rule tail_update) simp_all
    then have tb: "tail n (snd b)" by (auto simp: b_def intro: tl.rel_trans [OF _ broadcast_append_tail])
    note t = tailD [OF tb ok]
    have step: "snd (tick M n) = snd (try_then b (\<lambda>_ n. let n = n\<lparr>election_elapsed := sat_add (election_elapsed n) 1\<rparr> in
        if election_elapsed n \<ge> election_timeout_ticks (config n) \<and> \<not> has_quorum_contact (election_timeout_ticks (config n)) n
        then ok () (become_follower (node_term n) None n) else ok () n))"
      using True by (simp add: tick_def tick_leader_def is_leader_def b_def Let_def)
    have elapsed: "idles n ((snd b)\<lparr>election_elapsed := x\<rparr>)" for x
      by (rule tail_idles [OF ok tl.rel_trans [OF tb tail_update] True]) simp_all
    have down: "idles n (become_follower (node_term n) None ((snd b)\<lparr>election_elapsed := x\<rparr>))" for x
      using t True by (auto simp: idles_def unmoved_def no_vote_def become_follower_ballot applies_to_def sends_def)
    have "idles n (snd (tick M n))"
      unfolding step using elapsed down tail_idles [OF ok tb True] t(2)
      by (cases b) (auto simp: try_then_def Let_def split: sum.split)
    then show ?thesis by (simp add: moves_def)
  next
    case False
    let ?m = "?n\<lparr>election_elapsed := sat_add (election_elapsed ?n) 1\<rparr>"
    have quiet: "idles n ?m" "idles n (?m\<lparr>election_elapsed := 0\<rparr>)"
      by (simp_all add: idles_def unmoved_def no_vote_def same_role_def applies_to_def sends_refl)
    have okm: "replica_ok ?m" using ok by (simp add: replica_ok_def)
    have camp: "moves V N n (snd (campaign M ?m))"
      using campaign_moves [OF okm, of V M] room V stands_view [of ?m n] wins_view [of ?m n] by (auto simp: view_def moves_def)
    have idles_m: "idles ?m n' \<Longrightarrow> idles n n'" for n'
      using view_parts [of ?m n] by (simp add: idles_def no_vote_def same_role_def view_def)
    have pre: "moves V N n (snd (campaign_pre_vote M ?m))"
      using campaign_pre_vote_moves [OF okm, of V M] room V stands_view [of ?m n] wins_view [of ?m n] idles_m by (auto simp: view_def moves_def)
    show ?thesis
      using False quiet camp pre by (simp add: tick_def tick_follower_def is_leader_def Let_def) (simp add: moves_def)
  qed
qed

text \<open>A replica restarts behind whatever its machine kept, which is no more than it had applied.\<close>

lemma node_new_applied:
  assumes "node_new M cfg l m = Inr n" and "ml_snap l = None"
  shows "last_applied n = sm_applied_index M m \<and> commit_index n = last_applied n"
  using assms
  by (auto simp: node_new_def Let_def recompute_membership_def index_zero_def ok_def err_def split: sum.splits prod.splits option.splits if_splits)

lemma node_new_restarts:
  assumes "node_new M (config n) (log n) m = Inr n'" and "sm_applied_index M m \<le> last_applied n" and "replica_ok n"
    and "hard n = ml_hard (log n)" and "outbox n = []"
  shows "restarts n n'"
  using node_new_applied [OF assms(1)] node_new_fields [OF assms(1)] assms(2-5) by (auto simp: restarts_def replica_ok_def plain_log_def)

end
