(* ===== verification/Raft_Matching.thy ===== *)
theory Raft_Matching
  imports Raft_Plain "HOL-Library.Sublist"
begin

text \<open>
  The logs of a cluster that has not compacted. A run is recorded beside the cluster: the log of the
  leader of each term, and the log each candidate stood with. Every log held or sent agrees, at each
  of its entries, with the log of the leader that created the entry, so two logs with an entry of one
  term at one index are equal up to it.
\<close>

section \<open>Executions\<close>

text \<open>
  One input of one replica. A restarted replica is handed a machine that has applied no more than the
  replica had when it stopped.
\<close>

inductive acts :: "'m state_machine \<Rightarrow> 'm cluster \<Rightarrow> peer_id \<Rightarrow> 'm raft_node \<Rightarrow> 'm raft_node \<Rightarrow> bool" for M c where
  time: "replicas c i = Some n \<Longrightarrow> acts M c i n (snd (tick M n))"
| deliver: "e \<in> net c \<Longrightarrow> replicas c (env_to e) = Some n \<Longrightarrow> acts M c (env_to e) n (snd (step M e n))"
| client: "replicas c i = Some n \<Longrightarrow> acts M c i n (snd (propose M cmd n))"
| restart: "replicas c i = Some n \<Longrightarrow> node_new M (config n) (log n) m = Inr n' \<Longrightarrow>
    sm_applied_index M m \<le> last_applied n \<Longrightarrow> acts M c i n n'"

text \<open>No compaction, and no counter at its largest value.\<close>

definition in_bounds :: "'m cluster \<Rightarrow> bool" where
  "in_bounds c \<longleftrightarrow> (\<forall>i n. replicas c i = Some n \<longrightarrow>
     node_term n < u64_max \<and> Suc (length (entries_of n)) < u64_max \<and> snapshot_threshold (config n) = 0)"

definition begins :: "'m state_machine \<Rightarrow> membership \<Rightarrow> 'm cluster \<Rightarrow> bool" where
  "begins M V c \<longleftrightarrow> members V \<and> cluster_start M V c \<and> in_bounds c \<and> (\<forall>i n. replicas c i = Some n \<longrightarrow> last_applied n = 0)"

inductive execution :: "'m state_machine \<Rightarrow> membership \<Rightarrow> 'm cluster \<Rightarrow> bool" for M V where
  start: "begins M V c \<Longrightarrow> execution M V c"
| go_on: "execution M V c \<Longrightarrow> acts M c i n n' \<Longrightarrow> in_bounds (settle i n' c) \<Longrightarrow> execution M V (settle i n' c)"

lemma acts_replica: "acts M c i n n' \<Longrightarrow> replicas c i = Some n"
  by (cases rule: acts.cases) auto

lemma acts_step: "acts M c i n n' \<Longrightarrow> cluster_step M c (settle i n' c)"
  by (erule acts.cases) (auto intro: cluster_step.intros)

section \<open>The history of a run\<close>

record history =
  led :: "raft_term \<Rightarrow> log_entry list"
  stood :: "peer_id \<Rightarrow> raft_term \<Rightarrow> log_entry list"

definition note_down :: "peer_id \<Rightarrow> 'm raft_node \<Rightarrow> history \<Rightarrow> history" where
  "note_down i n h =
     \<lparr>led = (if node_role n = Leader then (led h)(node_term n := entries_of n) else led h),
      stood = (if node_role n = Leader \<or> node_role n = Candidate
        then (stood h)(i := (stood h i)(node_term n := entries_of n)) else stood h)\<rparr>"

inductive chronicle :: "'m state_machine \<Rightarrow> membership \<Rightarrow> history \<Rightarrow> 'm cluster \<Rightarrow> bool" for M V where
  start: "begins M V c \<Longrightarrow> chronicle M V \<lparr>led = \<lambda>_. [], stood = \<lambda>_ _. []\<rparr> c"
| go_on: "chronicle M V h c \<Longrightarrow> acts M c i n n' \<Longrightarrow> in_bounds (settle i n' c) \<Longrightarrow>
    chronicle M V (note_down i n' h) (settle i n' c)"

lemma execution_chronicle: "execution M V c \<Longrightarrow> \<exists>h. chronicle M V h c"
  by (induction rule: execution.induct) (blast intro: chronicle.intros)+

lemma chronicle_reachable: "chronicle M V h c \<Longrightarrow> reachable M V c"
  by (induction rule: chronicle.induct) (auto simp: begins_def intro: reachable.intros acts_step)

lemma chronicle_bounds: "chronicle M V h c \<Longrightarrow> in_bounds c \<and> members V"
  by (induction rule: chronicle.induct) (auto simp: begins_def)

section \<open>Agreement with the leaders' logs\<close>

definition agrees :: "(raft_term \<Rightarrow> log_entry list) \<Rightarrow> log_entry list \<Rightarrow> bool" where
  "agrees K L \<longleftrightarrow> (\<forall>k < length L. take (Suc k) L = take (Suc k) (K (le_term (L ! k))) \<and> k < length (K (le_term (L ! k))))"

definition good_log :: "(raft_term \<Rightarrow> log_entry list) \<Rightarrow> raft_term \<Rightarrow> log_entry list \<Rightarrow> bool" where
  "good_log K t L \<longleftrightarrow> numbered L \<and> length L < u64_max \<and> sorted (map le_term L) \<and> (\<forall>e \<in> set L. le_term e \<le> t) \<and> agrees K L"

abbreviation grows :: "(raft_term \<Rightarrow> log_entry list) \<Rightarrow> (raft_term \<Rightarrow> log_entry list) \<Rightarrow> bool" where
  "grows K K' \<equiv> \<forall>t. prefix (K t) (K' t)"

lemma agreesD: "agrees K L \<Longrightarrow> k < length L \<Longrightarrow> take (Suc k) L = take (Suc k) (K (le_term (L ! k)))"
  by (simp add: agrees_def)

lemma agrees_take: "agrees K L \<Longrightarrow> agrees K (take m L)"
  by (auto simp: agrees_def min_def)

lemma prefix_take: "prefix xs ys \<Longrightarrow> k \<le> length xs \<Longrightarrow> take k ys = take k xs"
  by (auto simp: prefix_def)

lemma agrees_grows:
  assumes "agrees K L" and "grows K K'"
  shows "agrees K' L"
proof -
  have "take (Suc k) L = take (Suc k) (K' (le_term (L ! k))) \<and> k < length (K' (le_term (L ! k)))" if "k < length L" for k
    using assms(1) that prefix_take [OF spec [OF assms(2)], of "Suc k"] prefix_length_le [OF spec [OF assms(2)], of "le_term (L ! k)"]
    unfolding agrees_def by (metis Suc_leI order_less_le_trans)
  then show ?thesis by (simp add: agrees_def)
qed

lemma agrees_same:
  assumes "agrees K L" and "agrees K X" and "k < length L" and "k < length X" and "le_term (L ! k) = le_term (X ! k)"
  shows "take (Suc k) L = take (Suc k) X"
  using agreesD [OF assms(1,3)] agreesD [OF assms(2,4)] assms(5) by simp

lemma agrees_snoc: "agrees K L \<Longrightarrow> K (le_term e) = L @ [e] \<Longrightarrow> agrees K (L @ [e])"
  by (auto simp: agrees_def nth_append less_Suc_eq)

lemma good_log_take: "good_log K t L \<Longrightarrow> good_log K t (take m L)"
  by (auto simp: good_log_def numbered_take agrees_take take_map [symmetric] sorted_wrt_take dest: in_set_takeD)

lemma good_log_grows: "good_log K t L \<Longrightarrow> grows K K' \<Longrightarrow> t \<le> t' \<Longrightarrow> good_log K' t' L"
  by (auto simp: good_log_def intro: agrees_grows)

lemma good_log_snoc:
  assumes "good_log K t L" and "K (le_term e) = L @ [e]" and "t \<le> le_term e" and "le_index e = Suc (length L)" and "Suc (length L) < u64_max"
  shows "good_log K (le_term e) (L @ [e])"
  using assms by (fastforce simp: good_log_def agrees_snoc sorted_append numbered_def nth_append less_Suc_eq)

lemma good_log_Nil [simp]: "good_log K t []"
  by (simp add: good_log_def numbered_def agrees_def u64_max_eq)

section \<open>Merging a leader's entries\<close>

lemma merge_prefix:
  assumes L: "agrees K L" and X: "agrees K X" and s: "slice_of X prev es" and le: "prev \<le> length L"
    and before: "term_before L prev = term_before X prev"
    and m: "k \<le> length es" "\<And>i. i < k \<Longrightarrow> prev + i < length L \<and> le_term (L ! (prev + i)) = le_term (es ! i)"
  shows "take (prev + k) L = take (prev + k) X \<and> prev + k \<le> length L"
proof (cases k)
  case 0
  have "prev \<le> length X" using s by (simp add: slice_of_def)
  then show ?thesis
    using agrees_same [OF L X, of "prev - 1"] le before 0 by (cases prev) (auto simp: term_before_def)
next
  case (Suc j)
  have "prev + j < length L" "le_term (L ! (prev + j)) = le_term (es ! j)" using m(2) [of j] Suc by auto
  moreover have "es ! j = X ! (prev + j)" "prev + j < length X" using slice_nth [OF s, of j] m(1) s Suc by (auto simp: slice_of_def)
  ultimately show ?thesis using agrees_same [OF L X, of "prev + j"] Suc by simp
qed

lemma merge_agrees:
  assumes L: "agrees K L" and X: "agrees K X" and s: "slice_of X prev es" and le: "prev \<le> length L"
    and before: "term_before L prev = term_before X prev" and m: "merges_to L prev es L'"
  shows "L' = L \<or> L' = take (prev + length es) X"
    and "take (prev + length es) L' = take (prev + length es) X \<and> prev + length es \<le> length L'"
    and "a \<le> length L \<Longrightarrow> a \<le> length X \<Longrightarrow> take a L = take a X \<Longrightarrow> take a L' = take a L \<and> a \<le> length L'"
proof -
  obtain k where k: "k \<le> length es" "\<And>i. i < k \<Longrightarrow> prev + i < length L \<and> le_term (L ! (prev + i)) = le_term (es ! i)"
    and L': "if k = length es then L' = L
     else (prev + k < length L \<longrightarrow> le_term (L ! (prev + k)) \<noteq> le_term (es ! k)) \<and> prev + k \<le> length L \<and> L' = take (prev + k) L @ drop k es"
    using m unfolding merges_to_def by blast
  note p = merge_prefix [OF L X s le before k]
  have sX: "prev + length es \<le> length X" "es = take (length es) (drop prev X)" using s by (auto simp: slice_of_def)
  have cut: "take (prev + k) L @ drop k es = take (prev + length es) X"
    using p k(1) arg_cong [OF sX(2), of "drop k"] take_add [of "prev + k" "length es - k" X]
    by (simp add: drop_take add.commute)
  show "L' = L \<or> L' = take (prev + length es) X" using L' cut by (auto split: if_splits)
  show "take (prev + length es) L' = take (prev + length es) X \<and> prev + length es \<le> length L'"
    using L' cut p sX by (auto split: if_splits)
  show "take a L' = take a L \<and> a \<le> length L'" if a: "a \<le> length L" "a \<le> length X" "take a L = take a X"
  proof (cases "k = length es")
    case False
    have "a \<le> prev + k"
    proof (rule ccontr)
      assume "\<not> a \<le> prev + k"
      then have "L ! (prev + k) = X ! (prev + k)" using a by (metis not_le nth_take)
      moreover have "es ! k = X ! (prev + k)" using slice_nth [OF s, of k] k(1) False by simp
      ultimately show False using L' False a \<open>\<not> a \<le> prev + k\<close> by auto
    qed
    then show ?thesis using L' cut a sX k(1) False by (auto simp: min_def)
  qed (use L' a in simp)
qed

section \<open>The invariant\<close>

definition term_of :: "'m cluster \<Rightarrow> peer_id \<Rightarrow> raft_term" where
  "term_of c p = (case replicas c p of Some n \<Rightarrow> node_term n | None \<Rightarrow> 0)"

definition record_good :: "history \<Rightarrow> 'm cluster \<Rightarrow> bool" where
  "record_good h c \<longleftrightarrow>
     (\<forall>t. good_log (led h) t (led h t)) \<and> (\<forall>i t. good_log (led h) t (stood h i t))
     \<and> (\<forall>t. led h t \<noteq> [] \<longleftrightarrow> (\<exists>i. (i, t) \<in> reigns c))
     \<and> (\<forall>i t. (i, t) \<in> reigns c \<longrightarrow> stood h i t = led h t \<and> t \<le> term_of c i \<and> t < u64_max)
     \<and> (\<forall>i t. term_of c i < t \<longrightarrow> stood h i t = [])"

definition node_good :: "history \<Rightarrow> 'm cluster \<Rightarrow> peer_id \<Rightarrow> 'm raft_node \<Rightarrow> bool" where
  "node_good h c i n \<longleftrightarrow> replica_ok n \<and> good_log (led h) (node_term n) (entries_of n)
     \<and> (node_role n = Leader \<longrightarrow> (i, node_term n) \<in> reigns c \<and> led h (node_term n) = entries_of n)
     \<and> (node_role n = Candidate \<longrightarrow> (i, node_term n) \<notin> reigns c \<and> stood h i (node_term n) = entries_of n)"

fun msg_good :: "history \<Rightarrow> 'm cluster \<Rightarrow> peer_id \<Rightarrow> raft_message \<Rightarrow> bool" where
  "msg_good h c p (AppendEntries t prev pt es lc) =
     ((p, t) \<in> reigns c \<and> slice_of (led h t) prev es \<and> pt = term_before (led h t) prev)"
| "msg_good h c p (AppendEntriesResponse t success m _ _) = (success \<longrightarrow> m \<le> length (led h t) \<and> t \<le> term_of c p)"
| "msg_good h c p (VoteRequest t li lt) =
     (\<exists>X. prefix X (stood h p t) \<and> li = length X \<and> lt = term_before X (length X) \<and> (\<forall>e \<in> set X. le_term e < t))"
| "msg_good h c p (InstallSnapshot _ _) = False"
| "msg_good h c p (InstallSnapshotResponse _ _) = False"
| "msg_good h c p (TimeoutNow _) = False"
| "msg_good h c p _ = True"

definition matching :: "history \<Rightarrow> 'm cluster \<Rightarrow> bool" where
  "matching h c \<longleftrightarrow> record_good h c \<and> (\<forall>i n. replicas c i = Some n \<longrightarrow> node_good h c i n)
     \<and> (\<forall>e \<in> net c. msg_good h c (env_from e) (env_message e))"

lemma matchingD:
  assumes "matching h c"
  shows "record_good h c" and "replicas c i = Some n \<Longrightarrow> node_good h c i n"
    and "e \<in> net c \<Longrightarrow> msg_good h c (env_from e) (env_message e)"
  using assms by (auto simp: matching_def)

lemma record_goodD:
  assumes "record_good h c"
  shows "good_log (led h) t (led h t)" "good_log (led h) t (stood h i t)"
    and "led h t \<noteq> [] \<longleftrightarrow> (\<exists>i. (i, t) \<in> reigns c)"
    and "(i, t) \<in> reigns c \<Longrightarrow> stood h i t = led h t \<and> t \<le> term_of c i \<and> t < u64_max"
    and "term_of c i < t \<Longrightarrow> stood h i t = []"
  using assms unfolding record_good_def by blast+

lemma term_of_settle [simp]: "term_of (settle i n' c) j = (if j = i then node_term n' else term_of c j)"
  by (simp add: term_of_def settle_fields)

lemma msg_good_mono:
  assumes "msg_good h c p m" and "\<And>t. prefix (led h t) (led h' t)" and "\<And>t. prefix (stood h p t) (stood h' p t)"
    and "reigns c \<subseteq> reigns c'" and "term_of c p \<le> term_of c' p"
  shows "msg_good h' c' p m"
proof (cases m)
  case (AppendEntries t prev pt es lc)
  obtain ys where ys: "led h' t = led h t @ ys" using assms(2) [of t] by (auto simp: prefix_def)
  have s: "slice_of (led h t) prev es" "pt = term_before (led h t) prev" "(p, t) \<in> reigns c"
    using assms(1) AppendEntries by auto
  then have "slice_of (led h' t) prev es" "pt = term_before (led h' t) prev"
    using ys by (auto simp: slice_of_def term_before_append)
  then show ?thesis using s(3) assms(4) AppendEntries by auto
next
  case (AppendEntriesResponse t success m a b)
  then show ?thesis using assms(1,5) prefix_length_le [OF assms(2) [of t]] by auto
next
  case (VoteRequest t li lt)
  then show ?thesis using assms(1,3) prefix_order.trans by fastforce
qed (use assms(1) in auto)

lemma msg_good_sound:
  assumes "record_good h c" and "msg_good h c p m"
  shows "sound_msg m"
proof (cases m)
  case (AppendEntries t prev pt es lc)
  then have s: "slice_of (led h t) prev es" using assms(2) by simp
  have "good_log (led h) t (led h t)" using record_goodD(1) [OF assms(1)] .
  then show ?thesis using AppendEntries slice_numbered [OF s] s by (auto simp: good_log_def slice_of_def)
qed (use assms(2) in auto)

section \<open>One input\<close>

definition at_input :: "membership \<Rightarrow> history \<Rightarrow> 'm cluster \<Rightarrow> peer_id \<Rightarrow> 'm raft_node \<Rightarrow> 'm raft_node \<Rightarrow> bool" where
  "at_input V h c i n n' \<longleftrightarrow> matching h c \<and> cluster_inv V c \<and> cluster_inv V (settle i n' c)
     \<and> in_bounds (settle i n' c) \<and> replicas c i = Some n"

lemma at_inputD:
  assumes "at_input V h c i n n'"
  shows "matching h c" "record_good h c" "node_good h c i n" "replicas c i = Some n"
    and "node_id n = i" "outbox n = []" "node_term n' < u64_max" "Suc (length (entries_of n')) < u64_max"
    and "node_role n' = Leader \<Longrightarrow> (j, node_term n') \<in> reigns c \<Longrightarrow> j = i"
    and "term_of c i = node_term n"
proof -
  note t = assms [unfolded at_input_def]
  show "matching h c" "record_good h c" "node_good h c i n" "replicas c i = Some n" using t by (auto simp: matching_def)
  show "node_id n = i" "outbox n = []" using t cluster_invD(1) [of V c i n] by auto
  have "replicas (settle i n' c) i = Some (n'\<lparr>outbox := []\<rparr>)" by (simp add: settle_fields)
  then show b: "node_term n' < u64_max" "Suc (length (entries_of n')) < u64_max" using t by (fastforce simp: in_bounds_def)+
  show "j = i" if "node_role n' = Leader" "(j, node_term n') \<in> reigns c"
    using reigns_unique [of V "settle i n' c" j "node_term n'" i] that t b(1) by (auto simp: settle_fields reign_def is_leader_def)
  show "term_of c i = node_term n" using t by (simp add: term_of_def)
qed

lemma note_down_led: "led (note_down i n h) t = (if node_role n = Leader \<and> t = node_term n then entries_of n else led h t)"
  by (simp add: note_down_def)

lemma note_down_stood:
  "stood (note_down i n h) j t =
     (if (node_role n = Leader \<or> node_role n = Candidate) \<and> j = i \<and> t = node_term n then entries_of n else stood h j t)"
  by (simp add: note_down_def)

lemma reigns_settle: "(j, t) \<in> reigns (settle i n' c) \<longleftrightarrow> (j, t) \<in> reigns c \<or> node_role n' = Leader \<and> j = i \<and> t = node_term n'"
  by (auto simp: settle_fields reign_def is_leader_def)

text \<open>What an input has to show: its own log, and that it only extends what was led and stood with.\<close>

definition enters :: "history \<Rightarrow> 'm cluster \<Rightarrow> peer_id \<Rightarrow> 'm raft_node \<Rightarrow> 'm raft_node \<Rightarrow> bool" where
  "enters h c i n n' \<longleftrightarrow> node_term n \<le> node_term n' \<and> unmoved n n'
     \<and> good_log (led (note_down i n' h)) (node_term n') (entries_of n')
     \<and> (node_role n' = Leader \<longrightarrow> prefix (led h (node_term n')) (entries_of n') \<and> entries_of n' \<noteq> [])
     \<and> (node_role n' = Leader \<or> node_role n' = Candidate \<longrightarrow> prefix (stood h i (node_term n')) (entries_of n'))
     \<and> (node_role n' = Candidate \<longrightarrow> (i, node_term n') \<notin> reigns c)
     \<and> (\<forall>e \<in> set (outbox n'). env_from e = i \<and> msg_good (note_down i n' h) (settle i n' c) i (env_message e))"

lemma enters_grows:
  assumes "enters h c i n n'"
  shows "prefix (led h t) (led (note_down i n' h) t)" "prefix (stood h j t) (stood (note_down i n' h) j t)"
  using assms by (auto simp: note_down_led note_down_stood enters_def)

lemma enters_record:
  assumes t: "at_input V h c i n n'" and e: "enters h c i n n'"
  shows "record_good (note_down i n' h) (settle i n' c)"
  unfolding record_good_def
proof (intro conjI allI impI)
  note r = record_goodD [OF at_inputD(2) [OF t]]
  let ?h = "note_down i n' h"
  have log: "good_log (led ?h) (node_term n') (entries_of n')" using e by (simp add: enters_def)
  have keep: "good_log (led ?h) u L" if "good_log (led h) u L" for u L
    by (rule good_log_grows [OF that _ order_refl]) (simp add: enters_grows(1) [OF e])
  show "good_log (led ?h) u (led ?h u)" for u
    using log keep [OF r(1), of u] by (simp add: note_down_led)
  show "good_log (led ?h) u (stood ?h j u)" for j u
    using log keep [OF r(2), of u j] by (simp add: note_down_stood)
  show "(led ?h u \<noteq> []) \<longleftrightarrow> (\<exists>j. (j, u) \<in> reigns (settle i n' c))" for u
    using r(3) [of u] e by (auto simp: note_down_led reigns_settle enters_def)
  fix j u
  show "stood ?h j u = []" if "term_of (settle i n' c) j < u"
    using that r(5) [of j u] e at_inputD(10) [OF t] by (auto simp: note_down_stood enters_def split: if_splits)
  assume "(j, u) \<in> reigns (settle i n' c)"
  then show "stood ?h j u = led ?h u" "u \<le> term_of (settle i n' c) j" "u < u64_max"
    using r(4) [of j u] e at_inputD(7,9,10) [OF t]
    by (auto simp: note_down_led note_down_stood reigns_settle enters_def)
qed

lemma enters_matching:
  assumes t: "at_input V h c i n n'" and e: "enters h c i n n'"
  shows "matching (note_down i n' h) (settle i n' c)"
  unfolding matching_def
proof (intro conjI allI impI ballI)
  note r = record_goodD [OF at_inputD(2) [OF t]]
  let ?h = "note_down i n' h" and ?c = "settle i n' c"
  show "record_good ?h ?c" by (rule enters_record [OF t e])
  have keep: "good_log (led ?h) u L" if "good_log (led h) u L" for u L
    by (rule good_log_grows [OF that _ order_refl]) (simp add: enters_grows(1) [OF e])
  have le: "term_of c j \<le> term_of ?c j" for j using e at_inputD(10) [OF t] by (simp add: enters_def)
  have sub: "reigns c \<subseteq> reigns ?c" by (auto simp: settle_fields)
  show "node_good ?h ?c j m" if "replicas ?c j = Some m" for j m
  proof (cases "j = i")
    case True
    then have m: "m = n'\<lparr>outbox := []\<rparr>" using that by (simp add: settle_fields)
    have "replica_ok n'"
      using e at_inputD(3) [OF t] at_inputD(8) [OF t] by (auto simp: enters_def good_log_def node_good_def replica_ok_def plain_log_def unmoved_def)
    then show ?thesis
      using e True by (auto simp: m node_good_def enters_def reigns_settle note_down_led note_down_stood replica_ok_def)
  next
    case False
    then have g: "node_good h c j m" using that matchingD(2) [OF at_inputD(1) [OF t]] by (simp add: settle_fields)
    show ?thesis
      using g False keep at_inputD(9) [OF t, of j]
      by (auto simp: node_good_def reigns_settle note_down_led note_down_stood)
  qed
  show "msg_good ?h ?c (env_from x) (env_message x)" if "x \<in> net ?c" for x
  proof (cases "x \<in> net c")
    case True
    show ?thesis
      by (rule msg_good_mono [OF matchingD(3) [OF at_inputD(1) [OF t] True] enters_grows [OF e] sub le])
  qed (use that e in \<open>auto simp: settle_fields enters_def\<close>)
qed

section \<open>Every move\<close>

lemma calm_good: "calm m \<Longrightarrow> msg_good h c p m"
  by (cases m) auto

lemma append_good: "append_of L t lc m \<Longrightarrow> (p, t) \<in> reigns c \<Longrightarrow> led h t = L \<Longrightarrow> msg_good h c p m"
  by (auto simp: append_of_def)

lemma sendsD: "sends n n' P \<Longrightarrow> outbox n = [] \<Longrightarrow> e \<in> set (outbox n') \<Longrightarrow> env_from e = node_id n \<and> P (env_message e)"
  by (auto simp: sends_def)

lemma no_vote_term: "no_vote n n' \<Longrightarrow> node_term n \<le> node_term n'"
  by (auto simp: no_vote_def)

text \<open>A replica that neither stands nor changes a log it leads with adds nothing to the history.\<close>

definition inert :: "'m raft_node \<Rightarrow> 'm raft_node \<Rightarrow> bool" where
  "inert n n' \<longleftrightarrow> node_role n' = Follower \<or> node_role n' = PreCandidate \<or>
     node_role n' = node_role n \<and> hard n' = hard n \<and> entries_of n' = entries_of n"

lemma inert_note:
  assumes t: "at_input V h c i n n'" and p: "inert n n'"
  shows "note_down i n' h = h"
  using at_inputD(3) [OF t] p record_goodD(4) [OF at_inputD(2) [OF t], of i "node_term n"]
  by (auto simp: inert_def note_down_def node_good_def fun_upd_idem)

lemma inert_enters:
  assumes t: "at_input V h c i n n'" and p: "inert n n'" and k: "unmoved n n'" "node_term n \<le> node_term n'"
    and log: "good_log (led h) (node_term n') (entries_of n')"
    and sent: "sends n n' (msg_good h (settle i n' c) i)"
  shows "enters h c i n n'"
proof -
  have n: "node_good h c i n" by (rule at_inputD(3) [OF t])
  note r = record_goodD [OF at_inputD(2) [OF t]]
  have "entries_of n \<noteq> []" if "node_role n = Leader" using n that r(3) [of "node_term n"] by (auto simp: node_good_def)
  moreover have "stood h i (node_term n) = entries_of n" if "node_role n = Leader \<or> node_role n = Candidate"
    using n that r(4) [of i "node_term n"] by (auto simp: node_good_def)
  ultimately show ?thesis
    using n p k log sendsD [OF sent at_inputD(6) [OF t]] at_inputD(5) [OF t]
    by (auto simp: enters_def inert_note [OF t p] inert_def node_good_def)
qed

lemma idles_enters:
  assumes t: "at_input V h c i n n'" and m: "idles n n'"
  shows "inert n n' \<and> enters h c i n n'"
proof -
  have n: "node_good h c i n" by (rule at_inputD(3) [OF t])
  have p: "inert n n'" using m by (auto simp: idles_def inert_def same_role_def)
  have "msg_good h (settle i n' c) i x" if "calm x \<or> node_role n = Leader \<and> append_of (entries_of n) (node_term n) (commit_index n) x" for x
    using that calm_good append_good [of _ "node_term n" _ x i "settle i n' c" h] n by (auto simp: node_good_def reigns_settle)
  then have s: "sends n n' (msg_good h (settle i n' c) i)" using m by (fastforce simp: idles_def sends_def)
  have le: "node_term n \<le> node_term n'" using m by (auto simp: idles_def no_vote_term)
  have "good_log (led h) (node_term n') (entries_of n')"
    using n m good_log_grows [OF _ _ le, of "led h" _ "led h"] by (auto simp: node_good_def idles_def)
  then show ?thesis using inert_enters [OF t p _ le _ s] p m by (auto simp: idles_def)
qed

lemma grants_enters:
  assumes t: "at_input V h c i n n'" and m: "grants N n n'"
  shows "inert n n' \<and> enters h c i n n'"
proof -
  have p: "inert n n'" using m by (auto simp: grants_def inert_def)
  have s: "sends n n' (msg_good h (settle i n' c) i)" using m calm_good by (fastforce simp: grants_def sends_def)
  have le: "node_term n \<le> node_term n'" using m by (simp add: grants_def)
  have "good_log (led h) (node_term n') (entries_of n')"
    using at_inputD(3) [OF t] m good_log_grows [OF _ _ le, of "led h" _ "led h"] by (auto simp: node_good_def grants_def)
  then show ?thesis using inert_enters [OF t p _ le _ s] p m by (auto simp: grants_def)
qed

lemma restarts_enters:
  assumes t: "at_input V h c i n n'" and m: "restarts n n'"
  shows "inert n n' \<and> enters h c i n n'"
proof -
  have p: "inert n n'" using m by (simp add: restarts_def inert_def)
  have "sends n n' (msg_good h (settle i n' c) i)" using m by (simp add: restarts_def sends_refl)
  then show ?thesis
    using inert_enters [OF t p] at_inputD(3) [OF t] p m by (auto simp: restarts_def unmoved_def node_good_def)
qed

lemma learns_enters:
  assumes t: "at_input V h c i n n'" and m: "learns V N n n'"
  shows "inert n n' \<and> enters h c i n n'"
proof -
  have p: "inert n n'" using m by (simp add: learns_def inert_def)
  have n: "node_good h c i n" by (rule at_inputD(3) [OF t])
  have "msg_good h (settle i n' c) i x" if "append_of (entries_of n') (node_term n') (commit_index n') x" for x
    using append_good [OF that, of i "settle i n' c" h] n m by (auto simp: node_good_def reigns_settle learns_def)
  then have "sends n n' (msg_good h (settle i n' c) i)" using m by (fastforce simp: learns_def sends_def)
  then show ?thesis using inert_enters [OF t p] n p m by (auto simp: learns_def node_good_def)
qed

text \<open>A leader's own entries come back to it as a prefix of the log it holds.\<close>

definition takes_in :: "history \<Rightarrow> 'm cluster \<Rightarrow> 'm raft_node \<Rightarrow> 'm raft_node \<Rightarrow> envelope \<Rightarrow> nat \<Rightarrow> log_entry list \<Rightarrow> log_index \<Rightarrow> bool" where
  "takes_in h c n n' e prev es lc \<longleftrightarrow> (let L = entries_of n; L' = entries_of n'; X = led h (node_term n'); last = prev + length es in
     e \<in> net c \<and> env_message e = AppendEntries (node_term n') prev (term_before L prev) es lc
     \<and> (env_from e, node_term n') \<in> reigns c \<and> slice_of X prev es
     \<and> (commit_index n' = commit_index n \<or> commit_index n' = min lc last)
     \<and> sends n n' (\<lambda>m. m = AppendEntriesResponse (node_term n') True last 0 0)
     \<and> (L' = L \<or> L' = take last X) \<and> take last L' = take last X \<and> last \<le> length L'
     \<and> (\<forall>a. a \<le> length L \<longrightarrow> a \<le> length X \<longrightarrow> take a L = take a X \<longrightarrow> take a L' = take a L \<and> a \<le> length L'))"

lemma merges_takes_in:
  assumes t: "at_input V h c i n n'" and m: "merges (net c) n n'"
  shows "\<exists>e prev es lc. takes_in h c n n' e prev es lc"
proof -
  obtain e prev es lc where e: "e \<in> net c" "env_message e = AppendEntries (node_term n') prev (term_before (entries_of n) prev) es lc"
    and le: "prev \<le> length (entries_of n)" and mt: "merges_to (entries_of n) prev es (entries_of n')"
    and rest: "commit_index n' = commit_index n \<or> commit_index n' = min lc (prev + length es)"
      "sends n n' (\<lambda>m. m = AppendEntriesResponse (node_term n') True (prev + length es) 0 0)"
    using m unfolding merges_def by blast
  have g: "(env_from e, node_term n') \<in> reigns c" "slice_of (led h (node_term n')) prev es"
      "term_before (entries_of n) prev = term_before (led h (node_term n')) prev"
    using matchingD(3) [OF at_inputD(1) [OF t] e(1)] e(2) by auto
  have a: "agrees (led h) (entries_of n)" "agrees (led h) (led h (node_term n'))"
    using at_inputD(3) [OF t] record_goodD(1) [OF at_inputD(2) [OF t]] by (auto simp: node_good_def good_log_def)
  have "takes_in h c n n' e prev es lc"
    unfolding takes_in_def Let_def using merge_agrees [OF a g(2) le g(3) mt] e g(1,2) rest by blast
  then show ?thesis by blast
qed

lemma merges_enters:
  assumes t: "at_input V h c i n n'" and m: "merges (net c) n n'"
  shows "inert n n' \<and> enters h c i n n'"
proof -
  obtain e prev es lc where ti: "takes_in h c n n' e prev es lc" using merges_takes_in [OF t m] by blast
  note ti = ti [unfolded takes_in_def Let_def]
  have n: "node_good h c i n" by (rule at_inputD(3) [OF t])
  have le: "node_term n \<le> node_term n'" using m by (auto simp: merges_def no_vote_term)
  have "entries_of n' = entries_of n" if "node_role n = Leader" "hard n' = hard n"
    using that n ti by (auto simp: node_good_def)
  then have p: "inert n n'"
    using m by (cases "node_role n") (auto simp: merges_def inert_def same_role_def)
  have log: "good_log (led h) (node_term n') (entries_of n')"
    using ti n good_log_grows [OF _ _ le, of "led h" _ "led h"] good_log_take [OF record_goodD(1) [OF at_inputD(2) [OF t]]]
    by (auto simp: node_good_def)
  have "sends n n' (msg_good h (settle i n' c) i)"
    using ti by (fastforce simp: sends_def slice_of_def)
  then show ?thesis using inert_enters [OF t p _ le log] p m by (auto simp: merges_def)
qed

text \<open>The moves that add to the history: standing, winning and appending as a leader.\<close>

lemma stands_enters:
  assumes t: "at_input V h c i n n'" and m: "stands n n'"
  shows "enters h c i n n'"
proof -
  have n: "node_good h c i n" by (rule at_inputD(3) [OF t])
  note r = record_goodD [OF at_inputD(2) [OF t]]
  have [simp]: "node_role n' = Candidate" "entries_of n' = entries_of n" "node_term n' = Suc (node_term n)"
    using m by (auto simp: stands_def)
  have new: "stood h i (node_term n') = []" "(i, node_term n') \<notin> reigns c"
    using r(5) [of i "node_term n'"] r(4) [of i "node_term n'"] at_inputD(10) [OF t] by auto
  have led: "led (note_down i n' h) = led h" by (simp add: note_down_def)
  have log: "good_log (led h) (node_term n) (entries_of n)" using n by (simp add: node_good_def)
  then have below: "\<forall>e \<in> set (entries_of n). le_term e < node_term n'" by (auto simp: good_log_def less_Suc_eq_le)
  have "env_from e = i \<and> msg_good (note_down i n' h) (settle i n' c) i (env_message e)" if "e \<in> set (outbox n')" for e
  proof -
    have "env_from e = i" "env_message e = VoteRequest (node_term n') (length (entries_of n)) (term_before (entries_of n) (length (entries_of n)))"
      using m sendsD [OF _ at_inputD(6) [OF t] that] at_inputD(5) [OF t] unfolding stands_def by blast+
    then show ?thesis using below by (auto simp: note_down_stood intro!: exI [of _ "entries_of n"])
  qed
  then show ?thesis
    using m new good_log_grows [OF log, of "led h" "node_term n'"] by (simp add: enters_def led stands_def)
qed

lemma appends_enters:
  assumes t: "at_input V h c i n n'" and role: "node_role n' = Leader" and k: "unmoved n n'" "node_term n \<le> node_term n'" and a: "appends n n'"
    and old: "prefix (led h (node_term n')) (entries_of n)" "prefix (stood h i (node_term n')) (entries_of n)"
    and sent: "sends n n' (append_of (entries_of n') (node_term n') lc)"
  shows "enters h c i n n'"
proof -
  let ?h = "note_down i n' h"
  obtain x where x: "entries_of n' = entries_of n @ [x]" "le_term x = node_term n'" "le_index x = Suc (length (entries_of n))"
    using a by (auto simp: appends_def)
  have pre: "prefix (led h (node_term n')) (entries_of n')" "prefix (stood h i (node_term n')) (entries_of n')"
    using old by (auto simp: x(1))
  have led: "led ?h (node_term n') = entries_of n'" by (simp add: note_down_led role)
  have "good_log (led ?h) (node_term n) (entries_of n)"
    by (rule good_log_grows [OF _ _ order_refl, of "led h"]) (use at_inputD(3) [OF t] pre in \<open>auto simp: node_good_def note_down_led\<close>)
  then have log: "good_log (led ?h) (node_term n') (entries_of n')"
    using good_log_snoc [of "led ?h" "node_term n" "entries_of n" x] led x k(2) at_inputD(8) [OF t] by simp
  have "env_from e = i \<and> msg_good ?h (settle i n' c) i (env_message e)" if "e \<in> set (outbox n')" for e
    using sendsD [OF sent at_inputD(6) [OF t] that] at_inputD(5) [OF t] append_good [OF _ _ led, of lc _ i "settle i n' c"] role by (simp add: reigns_settle)
  then show ?thesis using role k log pre by (auto simp: enters_def x(1))
qed

lemma wins_enters:
  assumes t: "at_input V h c i n n'" and m: "wins V n n'"
  shows "enters h c i n n'" and "led h (node_term n') = []"
proof -
  have n: "node_good h c i n" by (rule at_inputD(3) [OF t])
  note r = record_goodD [OF at_inputD(2) [OF t]]
  have fresh: "(i, node_term n') \<notin> reigns c" "prefix (stood h i (node_term n')) (entries_of n)" "node_term n \<le> node_term n'"
    using m n r(4,5) [of i "node_term n'"] at_inputD(10) [OF t] by (auto simp: wins_def node_good_def)
  then show none: "led h (node_term n') = []"
    using r(3) [of "node_term n'"] at_inputD(9) [OF t] m by (auto simp: wins_def)
  show "enters h c i n n'"
    using appends_enters [OF t] fresh none m by (auto simp: wins_def)
qed

lemma extends_enters:
  assumes t: "at_input V h c i n n'" and m: "extends V n n'"
  shows "enters h c i n n'"
proof -
  have n: "node_good h c i n" by (rule at_inputD(3) [OF t])
  have "led h (node_term n') = entries_of n" "stood h i (node_term n') = entries_of n"
    using m n record_goodD(4) [OF at_inputD(2) [OF t], of i "node_term n"] by (auto simp: extends_def node_good_def)
  then show ?thesis using appends_enters [OF t] m by (auto simp: extends_def)
qed

lemma moves_enters:
  assumes "at_input V h c i n n'" and "moves V (net c) n n'"
  shows "enters h c i n n'"
  using assms(2) idles_enters [OF assms(1)] grants_enters [OF assms(1)] stands_enters [OF assms(1)] wins_enters(1) [OF assms(1)]
    extends_enters [OF assms(1)] merges_enters [OF assms(1)] learns_enters [OF assms(1)] restarts_enters [OF assms(1)]
  unfolding moves_def by blast

section \<open>Every run\<close>

lemma acts_moves:
  assumes a: "acts M c i n n'" and m: "matching h c" and inv: "cluster_inv V c" and b: "in_bounds c" and V: "members V"
  shows "moves V (net c) n n'"
proof -
  have n: "replicas c i = Some n" by (rule acts_replica [OF a])
  have ok: "replica_ok n" using matchingD(2) [OF m n] by (simp add: node_good_def)
  have room: "Suc (length (entries_of n)) < u64_max" "node_term n < u64_max" using b n by (auto simp: in_bounds_def)
  have el: "outbox n = []" "elect_ok V (ballots c) n" using cluster_invD(1) [OF inv n] by auto
  then have Vn: "node_membership n = V" "hard n = ml_hard (log n)" by (auto simp: elect_ok_def member_ok_def static_node_def)
  from a show ?thesis
  proof cases
    case time
    then show ?thesis using tick_moves [OF ok room Vn(1) V] by simp
  next
    case (deliver e)
    then show ?thesis using step_moves [OF ok room V el(2)] msg_good_sound [OF matchingD(1) [OF m] matchingD(3) [OF m]] by blast
  next
    case (client cmd)
    then show ?thesis using propose_moves [OF ok room(1) Vn(1) V] by (auto simp: moves_def)
  next
    case (restart m')
    then show ?thesis using node_new_restarts [OF restart(2,3) ok Vn(2) el(1)] by (simp add: moves_def)
  qed
qed

lemma begins_node:
  assumes "begins M V c" and "replicas c i = Some n"
  shows "replica_ok n \<and> entries_of n = [] \<and> node_role n = Follower \<and> commit_index n = 0 \<and> last_applied n = 0"
proof -
  obtain cfg m where new: "node_new M cfg memory_log_new m = Inr n"
    using assms unfolding begins_def cluster_start_def by blast
  have "snapshot_threshold (config n) = 0" "last_applied n = 0" using assms by (auto simp: begins_def in_bounds_def)
  then show ?thesis
    using node_new_fields [OF new] node_new_applied [OF new]
    by (auto simp: replica_ok_def plain_log_def numbered_def memory_log_new_def u64_max_eq)
qed

lemma begins_matching:
  assumes b: "begins M V c"
  shows "matching \<lparr>led = \<lambda>_. [], stood = \<lambda>_ _. []\<rparr> c"
  using b begins_node [OF b]
  by (auto simp: matching_def record_good_def node_good_def begins_def cluster_start_def)

lemma chronicle_matching: "chronicle M V h c \<Longrightarrow> matching h c"
  and chronicle_at_input: "chronicle M V h c \<Longrightarrow> acts M c i n n' \<Longrightarrow> in_bounds (settle i n' c) \<Longrightarrow> at_input V h c i n n' \<and> moves V (net c) n n'"
proof -
  have at_input: "at_input V h c i n n' \<and> moves V (net c) n n'"
    if h: "chronicle M V h c" and m: "matching h c" and a: "acts M c i n n'" and b: "in_bounds (settle i n' c)" for h c i n n'
  proof -
    have inv: "cluster_inv V c" by (rule reachable_inv [OF chronicle_reachable [OF h]])
    then have "cluster_inv V (settle i n' c)" using cluster_step_inv acts_step [OF a] by blast
    then show ?thesis
      using inv m a b acts_replica [OF a] acts_moves [OF a m inv] chronicle_bounds [OF h] by (simp add: at_input_def)
  qed
  have matching: "matching h c" if "chronicle M V h c" for h c
    using that
  proof (induction rule: chronicle.induct)
    case (start c)
    then show ?case by (rule begins_matching)
  next
    case (go_on h c i n n')
    then show ?case using at_input [OF go_on.hyps(1) go_on.IH go_on.hyps(2,3)] enters_matching moves_enters by blast
  qed
  show "chronicle M V h c \<Longrightarrow> matching h c" by (rule matching)
  show "chronicle M V h c \<Longrightarrow> acts M c i n n' \<Longrightarrow> in_bounds (settle i n' c) \<Longrightarrow> at_input V h c i n n' \<and> moves V (net c) n n'"
    using at_input matching by blast
qed

end
