(* ===== verification/Raft_Completeness.thy ===== *)
theory Raft_Completeness
  imports Raft_Matching
begin

text \<open>
  What a committed entry can rely on, in a cluster that has not compacted. An entry of a leader's own
  term is chosen when a majority has acknowledged it. As long as a majority could still acknowledge
  it, whoever has acknowledged it holds it and only votes for candidates that hold it, so every later
  leader holds it. From this follow the completeness of leaders' logs and the agreement of the
  replicas on everything they apply.
\<close>

section \<open>Acknowledgement\<close>

definition acked :: "history \<Rightarrow> 'm cluster \<Rightarrow> peer_id \<Rightarrow> raft_term \<Rightarrow> nat \<Rightarrow> bool" where
  "acked h c p t k \<longleftrightarrow>
     (\<exists>e \<in> net c. env_from e = p \<and> (\<exists>m a b. env_message e = AppendEntriesResponse t True m a b \<and> k \<le> m))
     \<or> (p, t) \<in> reigns c \<and> k \<le> length (led h t)"

definition own_entry :: "history \<Rightarrow> raft_term \<Rightarrow> nat \<Rightarrow> bool" where
  "own_entry h t k \<longleftrightarrow> 0 < k \<and> k \<le> length (led h t) \<and> le_term (led h t ! (k - 1)) = t"

text \<open>A majority has acknowledged the entry, or each of it still can.\<close>

definition choosable :: "membership \<Rightarrow> history \<Rightarrow> 'm cluster \<Rightarrow> raft_term \<Rightarrow> nat \<Rightarrow> bool" where
  "choosable V h c t k \<longleftrightarrow> own_entry h t k \<and> (\<exists>Q. decides V Q \<and> (\<forall>p \<in> Q. acked h c p t k \<or> term_of c p \<le> t))"

definition chosen :: "membership \<Rightarrow> history \<Rightarrow> 'm cluster \<Rightarrow> raft_term \<Rightarrow> nat \<Rightarrow> bool" where
  "chosen V h c t k \<longleftrightarrow> own_entry h t k \<and> (\<exists>Q. decides V Q \<and> (\<forall>p \<in> Q. acked h c p t k))"

lemma chosen_choosable: "chosen V h c t k \<Longrightarrow> choosable V h c t k"
  by (auto simp: chosen_def choosable_def)

lemma acked_le: "acked h c p t k \<Longrightarrow> j \<le> k \<Longrightarrow> acked h c p t j"
  unfolding acked_def by (meson order_trans)

lemma acked_bounds:
  assumes "matching h c" and "acked h c p t k"
  shows "t \<le> term_of c p" and "k \<le> length (led h t)"
proof -
  have "t \<le> term_of c p \<and> k \<le> length (led h t)"
    using assms(2) matchingD(3) [OF assms(1)] record_goodD(4) [OF matchingD(1) [OF assms(1)]]
    unfolding acked_def by fastforce
  then show "t \<le> term_of c p" "k \<le> length (led h t)" by auto
qed

lemma acked_grows:
  assumes "acked h c p t k" and "grows (led h) (led h')" and "net c \<subseteq> net c'" and "reigns c \<subseteq> reigns c'"
  shows "acked h' c' p t k"
  using assms prefix_length_le [OF spec [OF assms(2), of t]] unfolding acked_def by (meson order_trans subsetD)

lemma own_entry_grows:
  assumes "own_entry h t k" and "grows (led h) (led h')"
  shows "own_entry h' t k"
proof -
  obtain ys where "led h' t = led h t @ ys" using spec [OF assms(2), of t] by (auto simp: prefix_def)
  then show ?thesis using assms(1) by (auto simp: own_entry_def nth_append)
qed

lemma chosen_grows:
  assumes "chosen V h c t k" and "grows (led h) (led h')" and "net c \<subseteq> net c'" and "reigns c \<subseteq> reigns c'"
  shows "chosen V h' c' t k"
  using assms acked_grows [OF _ assms(2-4)] own_entry_grows [OF _ assms(2)] unfolding chosen_def by blast

section \<open>The invariant\<close>

definition ballots_good :: "'m cluster \<Rightarrow> bool" where
  "ballots_good c \<longleftrightarrow> (\<forall>p t v. (p, t, v) \<in> ballots c \<longrightarrow> t \<le> term_of c p)
     \<and> (\<forall>i n. replicas c i = Some n \<longrightarrow> ballot i n \<subseteq> ballots c)"

lemma ballots_goodD:
  assumes "ballots_good c"
  shows "(p, t, v) \<in> ballots c \<Longrightarrow> t \<le> term_of c p" and "replicas c i = Some n \<Longrightarrow> ballot i n \<subseteq> ballots c"
  using assms unfolding ballots_good_def by blast+

definition holds_acked :: "membership \<Rightarrow> history \<Rightarrow> 'm cluster \<Rightarrow> bool" where
  "holds_acked V h c \<longleftrightarrow> (\<forall>p n t k. replicas c p = Some n \<longrightarrow> choosable V h c t k \<longrightarrow> acked h c p t k \<longrightarrow>
     prefix (take k (led h t)) (entries_of n))"

definition votes_acked :: "membership \<Rightarrow> history \<Rightarrow> 'm cluster \<Rightarrow> bool" where
  "votes_acked V h c \<longleftrightarrow> (\<forall>p t' v t k. (p, t', v) \<in> ballots c \<longrightarrow> t < t' \<longrightarrow> choosable V h c t k \<longrightarrow> acked h c p t k \<longrightarrow>
     prefix (take k (led h t)) (stood h v t'))"

definition complete_inv :: "membership \<Rightarrow> history \<Rightarrow> 'm cluster \<Rightarrow> bool" where
  "complete_inv V h c \<longleftrightarrow> ballots_good c \<and> holds_acked V h c \<and> votes_acked V h c"

text \<open>The majority that elected a later leader and a majority that can choose the entry share a voter.\<close>

lemma later_leader_holds:
  assumes inv: "cluster_inv V c" and m: "matching h c" and ci: "complete_inv V h c"
    and lt: "t < t'" and led: "led h t' \<noteq> []" and ch: "choosable V h c t k"
  shows "prefix (take k (led h t)) (led h t')"
proof -
  note r = record_goodD [OF matchingD(1) [OF m]]
  obtain j where j: "(j, t') \<in> reigns c" using r(3) led by blast
  obtain A where A: "decides V A" "\<And>p. p \<in> A \<Longrightarrow> (p, t', j) \<in> ballots c" using cluster_invD(5) [OF inv j] by blast
  obtain B where B: "decides V B" "\<And>p. p \<in> B \<Longrightarrow> acked h c p t k \<or> term_of c p \<le> t" using ch by (auto simp: choosable_def)
  obtain p where p: "p \<in> A" "p \<in> B" using majority.intersect [OF A(1) B(1)] by blast
  have "t' \<le> term_of c p" using A(2) [OF p(1)] ci by (auto simp: complete_inv_def ballots_good_def)
  then have "acked h c p t k" using B(2) [OF p(2)] lt by auto
  then have "prefix (take k (led h t)) (stood h j t')"
    using A(2) [OF p(1)] ci lt ch by (auto simp: complete_inv_def votes_acked_def)
  then show ?thesis using r(4) [OF j] by simp
qed

section \<open>What one input adds\<close>

lemma acked_new:
  assumes t: "at_input V h c i n n'" and m: "moves V (net c) n n'"
    and new: "acked (note_down i n' h) (settle i n' c) p u k" and old: "\<not> acked h c p u k"
  shows "p = i \<and> u = node_term n' \<and> prefix (take k (led (note_down i n' h) u)) (entries_of n')"
proof (cases "(p, u) \<in> reigns (settle i n' c) \<and> k \<le> length (led (note_down i n' h) u)")
  case True
  then have "node_role n' = Leader \<and> p = i \<and> u = node_term n'"
    using old at_inputD(9) [OF t] by (auto simp: acked_def reigns_settle note_down_led split: if_splits)
  then show ?thesis by (simp add: note_down_led take_is_prefix)
next
  case False
  then obtain e x a b where e: "e \<in> net (settle i n' c)" "env_from e = p" "env_message e = AppendEntriesResponse u True x a b" "k \<le> x"
    using new by (auto simp: acked_def)
  then have out: "e \<in> set (outbox n')" using old by (auto simp: acked_def settle_fields)
  have "\<not> sends n n' P" if "\<not> P (AppendEntriesResponse u True x a b)" for P
    using sendsD [OF _ at_inputD(6) [OF t] out, of P] that e(3) by auto
  then have mg: "merges (net c) n n'"
    using m at_inputD(6) [OF t] out
    by (auto simp: moves_def idles_def grants_def stands_def wins_def extends_def learns_def restarts_def append_of_def)
  then obtain e' prev es lc where ti: "takes_in h c n n' e' prev es lc" using merges_takes_in [OF t] by blast
  note ti = ti [unfolded takes_in_def Let_def]
  have "p = i" "u = node_term n'" "k \<le> prev + length es"
    using sendsD [OF _ at_inputD(6) [OF t] out, of "\<lambda>m. m = AppendEntriesResponse (node_term n') True (prev + length es) 0 0"] ti e at_inputD(5) [OF t] by auto
  moreover have "note_down i n' h = h" using inert_note [OF t] merges_enters [OF t mg] by blast
  moreover have "take k (entries_of n') = take k (led h (node_term n'))"
    using ti \<open>k \<le> prev + length es\<close> by (metis min.absorb1 take_take)
  ultimately show ?thesis by (metis take_is_prefix)
qed

lemma own_entry_new:
  assumes t: "at_input V h c i n n'" and e: "enters h c i n n'"
    and new: "own_entry (note_down i n' h) u k" and old: "\<not> own_entry h u k"
  shows "node_role n' = Leader \<and> u = node_term n' \<and> length (led h u) < k"
proof -
  have "node_role n' = Leader \<and> u = node_term n'" using new old by (auto simp: own_entry_def note_down_led split: if_splits)
  moreover have "length (led h u) < k"
  proof (rule ccontr)
    assume "\<not> length (led h u) < k"
    then have "k - 1 < length (led h u)" "k \<le> length (led h u)" using new by (auto simp: own_entry_def)
    then have "own_entry h u k" using new enters_grows(1) [OF e, of u] by (auto simp: own_entry_def prefix_def nth_append)
    then show False using old by simp
  qed
  ultimately show ?thesis by simp
qed

lemma new_entry_unacked:
  assumes t: "at_input V h c i n n'" and m: "moves V (net c) n n'"
    and "own_entry (note_down i n' h) u k" and "\<not> own_entry h u k" and "acked (note_down i n' h) (settle i n' c) p u k"
  shows "p = i \<and> node_role n' = Leader \<and> u = node_term n'"
  using own_entry_new [OF t moves_enters [OF t m] assms(3,4)] acked_bounds(2) [OF at_inputD(1) [OF t]] acked_new [OF t m assms(5)] by fastforce

lemma choosable_back:
  assumes t: "at_input V h c i n n'" and m: "moves V (net c) n n'"
    and own: "own_entry h u k" and ch: "choosable V (note_down i n' h) (settle i n' c) u k"
  shows "choosable V h c u k"
proof -
  obtain Q where Q: "decides V Q" "\<And>p. p \<in> Q \<Longrightarrow> acked (note_down i n' h) (settle i n' c) p u k \<or> term_of (settle i n' c) p \<le> u"
    using ch by (auto simp: choosable_def)
  have le: "term_of c i \<le> node_term n'" using moves_enters [OF t m] at_inputD(10) [OF t] by (simp add: enters_def)
  have "acked h c p u k \<or> term_of c p \<le> u" if "p \<in> Q" for p
    using Q(2) [OF that] acked_new [OF t m, of p u k] le by (auto split: if_splits)
  then show ?thesis using Q(1) own by (auto simp: choosable_def)
qed

lemma acked_keeps:
  assumes t: "at_input V h c i n n'" and m: "moves V (net c) n n'" and a: "acked h c p u k"
  shows "acked (note_down i n' h) (settle i n' c) p u k"
  by (rule acked_grows [OF a]) (use enters_grows(1) [OF moves_enters [OF t m]] in \<open>auto simp: settle_fields\<close>)

lemma chosen_keeps:
  assumes t: "at_input V h c i n n'" and m: "moves V (net c) n n'" and a: "chosen V h c u k"
  shows "chosen V (note_down i n' h) (settle i n' c) u k"
  by (rule chosen_grows [OF a]) (use enters_grows(1) [OF moves_enters [OF t m]] in \<open>auto simp: settle_fields\<close>)

text \<open>A replica never drops what it holds of a log that can still be chosen.\<close>

lemma log_keeps:
  assumes t: "at_input V h c i n n'" and m: "moves V (net c) n n'" and ci: "complete_inv V h c"
    and ch: "choosable V h c u k" and u: "u \<le> node_term n" and xs: "prefix xs (take k (led h u))" "prefix xs (entries_of n)"
  shows "prefix xs (entries_of n')"
proof (cases "merges (net c) n n'")
  case True
  then obtain e prev es lc where ti: "takes_in h c n n' e prev es lc" using merges_takes_in [OF t] by blast
  note ti = ti [unfolded takes_in_def Let_def]
  let ?T = "node_term n'"
  have inv: "cluster_inv V c" using t by (simp add: at_input_def)
  have le: "u \<le> ?T" using moves_enters [OF t m] u by (simp add: enters_def)
  have "led h ?T \<noteq> []" using record_goodD(3) [OF at_inputD(2) [OF t], of ?T] ti by blast
  then have "prefix (take k (led h u)) (led h ?T)"
    using later_leader_holds [OF inv at_inputD(1) [OF t] ci _ _ ch] le by (cases "u = ?T") (auto simp: take_is_prefix)
  then have X: "prefix xs (led h ?T)" using xs(1) prefix_order.trans by blast
  have "take (length xs) (entries_of n) = xs" "take (length xs) (led h ?T) = xs" "length xs \<le> length (entries_of n)" "length xs \<le> length (led h ?T)"
    using X xs(2) by (auto simp: prefix_def)
  then have "take (length xs) (entries_of n') = xs" using ti by fastforce
  then show ?thesis by (metis take_is_prefix)
next
  case False
  then have "entries_of n' = entries_of n \<or> appends n n'"
    using m by (auto simp: moves_def idles_def grants_def stands_def wins_def extends_def learns_def restarts_def)
  then show ?thesis using xs(2) by (auto simp: appends_def)
qed

text \<open>A candidate whose log is as up to date as one that holds the entry holds it as well.\<close>

lemma up_to_date_holds:
  assumes inv: "cluster_inv V c" and m: "matching h c" and ci: "complete_inv V h c"
    and ch: "choosable V h c u k" and L: "good_log (led h) w L" and E: "prefix (take k (led h u)) L"
    and X: "agrees (led h) X" and up: "up_to_date L (length X) (term_before X (length X))"
  shows "prefix (take k (led h u)) X"
proof -
  let ?own = "term_before L (length L)" and ?s = "term_before X (length X)"
  have own: "0 < k" "k \<le> length (led h u)" "le_term (led h u ! (k - 1)) = u" using ch by (auto simp: choosable_def own_entry_def)
  obtain ys where ys: "L = take k (led h u) @ ys" using E by (auto simp: prefix_def)
  then have k: "k \<le> length L" "le_term (L ! (k - 1)) = u" using own by (auto simp: nth_append)
  have "sorted (map le_term L)" using L by (simp add: good_log_def)
  then have "u \<le> ?own" using sorted_nth_mono [of "map le_term L" "k - 1" "length L - 1"] k own(1) by (auto simp: term_before_def)
  moreover have os: "?own \<le> ?s" "?s = ?own \<Longrightarrow> length L \<le> length X" using up by (auto simp: up_to_date_def Let_def split: if_splits)
  moreover have ne: "X \<noteq> []" using up k own(1) by (auto simp: up_to_date_def Let_def split: if_splits)
  ultimately have us: "u \<le> ?s" by simp
  define x where "x = length X - 1"
  have sX: "?s = le_term (X ! x)" "x < length X" "Suc x = length X" using ne by (auto simp: term_before_def x_def)
  have "take (Suc x) X = take (Suc x) (led h ?s)" "x < length (led h ?s)" using X sX(2) unfolding sX(1) agrees_def by blast+
  then have Xs: "X = take (length X) (led h ?s)" "length X \<le> length (led h ?s)" unfolding sX(3) [symmetric] using sX(3) by simp_all
  have "prefix (take k (led h u)) (led h ?s) \<and> k \<le> length X"
  proof (cases "u = ?s")
    case True
    then show ?thesis using os k(1) \<open>u \<le> ?own\<close> by (auto simp: take_is_prefix)
  next
    case False
    have p: "prefix (take k (led h u)) (led h ?s)"
      using later_leader_holds [OF inv m ci _ _ ch, of ?s] us False Xs ne by (metis le_neq_implies_less le_zero_eq length_0_conv)
    have "k \<le> length X"
    proof (rule ccontr)
      assume "\<not> k \<le> length X"
      then have x: "x < k" "x < length (led h u)" using sX own(2) by auto
      obtain zs where zs: "led h ?s = take k (led h u) @ zs" using p by (auto simp: prefix_def)
      have "X ! x = led h ?s ! x" using arg_cong [OF Xs(1), of "\<lambda>l. l ! x"] sX(2) by simp
      then have "X ! x = led h u ! x" using zs x by (simp add: nth_append)
      then have "?s \<le> u" using record_goodD(1) [OF matchingD(1) [OF m], of u] x(2) sX(1) by (auto simp: good_log_def)
      then show False using us False by simp
    qed
    then show ?thesis using p by simp
  qed
  then show ?thesis using Xs own(2) by (metis length_take min.absorb2 prefix_length_prefix take_is_prefix)
qed

section \<open>Every input keeps it\<close>

lemma ballots_good_keeps:
  assumes t: "at_input V h c i n n'" and m: "moves V (net c) n n'" and g: "ballots_good c"
  shows "ballots_good (settle i n' c)"
proof -
  have "term_of c i \<le> node_term n'" using moves_enters [OF t m] at_inputD(10) [OF t] by (simp add: enters_def)
  moreover have "ballot i (n'\<lparr>outbox := []\<rparr>) = ballot i n'" by (simp add: ballot_def split: option.split)
  moreover have "t \<le> term_of (settle i n' c) p" if "(p, t, v) \<in> ballots (settle i n' c)" for p t v
    using that g calculation(1) unfolding ballots_good_def by (auto simp: settle_fields(3) ballot_iff dest: spec order_trans)
  moreover have "ballot j x \<subseteq> ballots (settle i n' c)" if "replicas (settle i n' c) j = Some x" for j x
    using that ballots_goodD(2) [OF g, of j x] calculation(2) by (cases "j = i") (auto simp: settle_fields(1,3))
  ultimately show ?thesis unfolding ballots_good_def by blast
qed

lemma holds_acked_keeps:
  assumes t: "at_input V h c i n n'" and m: "moves V (net c) n n'" and ci: "complete_inv V h c"
  shows "holds_acked V (note_down i n' h) (settle i n' c)"
  unfolding holds_acked_def
proof (intro allI impI)
  let ?h = "note_down i n' h" and ?c = "settle i n' c"
  fix p x u k
  assume x: "replicas ?c p = Some x" and ch: "choosable V ?h ?c u k" and a: "acked ?h ?c p u k"
  have e: "enters h c i n n'" by (rule moves_enters [OF t m])
  have log': "entries_of x = entries_of n'" if "p = i" using x that by (auto simp: settle_fields)
  show "prefix (take k (led ?h u)) (entries_of x)"
  proof (cases "own_entry h u k \<and> acked h c p u k")
    case True
    then have same: "take k (led ?h u) = take k (led h u)"
      using prefix_take [OF enters_grows(1) [OF e]] by (simp add: own_entry_def)
    have ch0: "choosable V h c u k" using choosable_back [OF t m _ ch] True by blast
    have held: "prefix (take k (led h u)) (entries_of y)" if "replicas c p = Some y" for y
      using ci ch0 True that by (auto simp: complete_inv_def holds_acked_def)
    show ?thesis
    proof (cases "p = i")
      case here: True
      have "u \<le> node_term n" using acked_bounds(1) [OF at_inputD(1) [OF t]] True at_inputD(10) [OF t] here by metis
      then have "prefix (take k (led h u)) (entries_of n')"
        using log_keeps [OF t m ci ch0 _ prefix_order.refl] held at_inputD(4) [OF t] here by blast
      then show ?thesis using same log' [OF here] by simp
    next
      case False
      then show ?thesis using held x same by (simp add: settle_fields)
    qed
  next
    case False
    have "p = i \<and> prefix (take k (led ?h u)) (entries_of n')"
    proof (cases "acked h c p u k")
      case True
      then show ?thesis
        using False new_entry_unacked [OF t m _ _ a] ch by (auto simp: choosable_def note_down_led take_is_prefix)
    qed (use acked_new [OF t m a] in blast)
    then show ?thesis using log' by metis
  qed
qed

lemma ballot_new:
  assumes t: "at_input V h c i n n'" and m: "moves V (net c) n n'" and g: "ballots_good c"
    and new: "(p, t', v) \<in> ballots (settle i n' c)" and old: "(p, t', v) \<notin> ballots c"
  shows "p = i" and "grants (net c) n n' \<and> hs_voted_for (hard n') = Some v \<or> v = i \<and> prefix (entries_of n) (stood (note_down i n' h) i t')"
    and "t' = node_term n'"
proof -
  show p: "p = i" and b: "t' = node_term n'" using new old by (auto simp: settle_fields(3) ballot_iff)
  have h': "hard n' = \<lparr>hs_term = t', hs_voted_for = Some v\<rparr>" using new old by (auto simp: settle_fields(3) ballot_iff)
  have ne: "hard n' \<noteq> hard n"
    using ballots_goodD(2) [OF g at_inputD(4) [OF t]] old p h' by (metis ballot_iff subsetD)
  then have nv: "\<not> no_vote n n'" by (simp add: no_vote_def h')
  have "grants (net c) n n' \<or> stands n n' \<or> wins V n n'"
    using m ne nv unfolding moves_def idles_def extends_def merges_def learns_def restarts_def by blast
  then show "grants (net c) n n' \<and> hs_voted_for (hard n') = Some v \<or> v = i \<and> prefix (entries_of n) (stood (note_down i n' h) i t')"
  proof (elim disjE)
    assume "stands n n'"
    then have "node_role n' = Candidate" "entries_of n' = entries_of n" "v = node_id n" using h' by (auto simp: stands_def)
    then show ?thesis using b at_inputD(5) [OF t] by (simp add: note_down_stood)
  next
    assume "wins V n n'"
    then have "node_role n' = Leader" "prefix (entries_of n) (entries_of n')" "v = node_id n"
      using ne h' by (auto simp: wins_def appends_def)
    then show ?thesis using b at_inputD(5) [OF t] by (simp add: note_down_stood)
  qed (simp add: h')
qed

lemma votes_acked_keeps:
  assumes t: "at_input V h c i n n'" and m: "moves V (net c) n n'" and ci: "complete_inv V h c"
  shows "votes_acked V (note_down i n' h) (settle i n' c)"
  unfolding votes_acked_def
proof (intro allI impI)
  let ?h = "note_down i n' h" and ?c = "settle i n' c"
  fix p t' v u k
  assume b: "(p, t', v) \<in> ballots ?c" and lt: "u < t'" and ch: "choosable V ?h ?c u k" and a: "acked ?h ?c p u k"
  have e: "enters h c i n n'" by (rule moves_enters [OF t m])
  have g: "ballots_good c" using ci by (simp add: complete_inv_def)
  have "t' \<le> term_of ?c p" using ballots_good_keeps [OF t m g] b unfolding ballots_good_def by blast
  then have a0: "acked h c p u k" using acked_new [OF t m a] lt by (cases "acked h c p u k") auto
  have own: "own_entry h u k"
    using new_entry_unacked [OF t m _ _ a] ch lt \<open>t' \<le> term_of ?c p\<close> by (cases "own_entry h u k") (auto simp: choosable_def)
  have same: "take k (led ?h u) = take k (led h u)" using prefix_take [OF enters_grows(1) [OF e]] own by (simp add: own_entry_def)
  have ch0: "choosable V h c u k" by (rule choosable_back [OF t m own ch])
  have inv: "cluster_inv V c" using t by (simp add: at_input_def)
  show "prefix (take k (led ?h u)) (stood ?h v t')"
  proof (cases "(p, t', v) \<in> ballots c")
    case True
    then have "prefix (take k (led h u)) (stood h v t')" using ci a0 ch0 lt by (auto simp: complete_inv_def votes_acked_def)
    then show ?thesis using same enters_grows(2) [OF e] prefix_order.trans by metis
  next
    case False
    note new = ballot_new [OF t m g b False]
    have E: "prefix (take k (led h u)) (entries_of n)"
      using ci a0 ch0 new(1) at_inputD(4) [OF t] by (auto simp: complete_inv_def holds_acked_def)
    from new(2) show ?thesis
    proof
      assume "grants (net c) n n' \<and> hs_voted_for (hard n') = Some v"
      then obtain x li lt where x: "x \<in> net c" "env_message x = VoteRequest t' li lt" "env_from x = v" "up_to_date (entries_of n) li lt"
        using new(3) by (auto simp: grants_def)
      obtain X where X: "prefix X (stood h v t')" "li = length X" "lt = term_before X (length X)"
        using matchingD(3) [OF at_inputD(1) [OF t] x(1)] x(2,3) by auto
      have "agrees (led h) (stood h v t')" using record_goodD(2) [OF at_inputD(2) [OF t]] by (simp add: good_log_def)
      then have "agrees (led h) X" using agrees_take [of "led h" "stood h v t'" "length X"] X(1) by (auto simp: prefix_def)
      moreover have "good_log (led h) (node_term n) (entries_of n)" using at_inputD(3) [OF t] by (simp add: node_good_def)
      ultimately have "prefix (take k (led h u)) X" using up_to_date_holds [OF inv at_inputD(1) [OF t] ci ch0 _ E] x(4) X(2,3) by blast
      then show ?thesis using same X(1) enters_grows(2) [OF e] prefix_order.trans by metis
    next
      assume "v = i \<and> prefix (entries_of n) (stood ?h i t')"
      then show ?thesis using same E prefix_order.trans by metis
    qed
  qed
qed

lemma complete_inv_keeps:
  assumes "at_input V h c i n n'" and "moves V (net c) n n'" and "complete_inv V h c"
  shows "complete_inv V (note_down i n' h) (settle i n' c)"
  using ballots_good_keeps [OF assms(1,2)] holds_acked_keeps [OF assms] votes_acked_keeps [OF assms] assms(3)
  by (simp add: complete_inv_def)

lemma begins_complete:
  assumes b: "begins M V c"
  shows "complete_inv V \<lparr>led = \<lambda>_. [], stood = \<lambda>_ _. []\<rparr> c"
proof -
  have "ballot i n = {}" if n: "replicas c i = Some n" for i n
  proof -
    obtain cfg m where new: "node_new M cfg memory_log_new m = Inr n"
      using b n unfolding begins_def cluster_start_def by blast
    then have "hs_voted_for (hard n) = None" using node_new_fields [OF new] by (simp add: memory_log_new_def)
    then show ?thesis by (simp add: ballot_def)
  qed
  then show ?thesis using b
    by (auto simp: complete_inv_def ballots_good_def holds_acked_def votes_acked_def begins_def cluster_start_def)
qed

lemma chronicle_complete: "chronicle M V h c \<Longrightarrow> complete_inv V h c"
proof (induction rule: chronicle.induct)
  case (start c)
  then show ?case by (rule begins_complete)
next
  case (go_on h c i n n')
  then show ?case using complete_inv_keeps chronicle_at_input [OF go_on.hyps] by blast
qed

section \<open>Committing\<close>

text \<open>A log is safe when it lies within a chosen one of no later term.\<close>

definition safe :: "membership \<Rightarrow> history \<Rightarrow> 'm cluster \<Rightarrow> raft_term \<Rightarrow> log_entry list \<Rightarrow> bool" where
  "safe V h c T xs \<longleftrightarrow> xs = [] \<or> (\<exists>t k. t \<le> T \<and> chosen V h c t k \<and> prefix xs (take k (led h t)))"

definition node_safe :: "membership \<Rightarrow> history \<Rightarrow> 'm cluster \<Rightarrow> peer_id \<Rightarrow> 'm raft_node \<Rightarrow> bool" where
  "node_safe V h c i n \<longleftrightarrow> commit_index n \<le> length (entries_of n) \<and> last_applied n \<le> length (entries_of n)
     \<and> safe V h c (node_term n) (take (commit_index n) (entries_of n)) \<and> safe V h c (node_term n) (take (last_applied n) (entries_of n))
     \<and> (node_role n = Leader \<longrightarrow> (\<forall>v. v \<noteq> i \<longrightarrow> 0 < matches n v \<longrightarrow> acked h c v (node_term n) (matches n v)))"

fun msg_safe :: "membership \<Rightarrow> history \<Rightarrow> 'm cluster \<Rightarrow> raft_message \<Rightarrow> bool" where
  "msg_safe V h c (AppendEntries t prev pt es lc) = (lc \<le> length (led h t) \<and> safe V h c t (take lc (led h t)))"
| "msg_safe V h c _ = True"

definition commit_inv :: "membership \<Rightarrow> history \<Rightarrow> 'm cluster \<Rightarrow> bool" where
  "commit_inv V h c \<longleftrightarrow> (\<forall>i n. replicas c i = Some n \<longrightarrow> node_safe V h c i n) \<and> (\<forall>e \<in> net c. msg_safe V h c (env_message e))"

lemma safe_Nil [simp]: "safe V h c T []"
  by (simp add: safe_def)

lemma safe_prefix: "safe V h c T ys \<Longrightarrow> prefix xs ys \<Longrightarrow> safe V h c T xs"
  unfolding safe_def using prefix_order.trans by fastforce

lemma safe_take: "safe V h c T (take b L) \<Longrightarrow> a \<le> b \<Longrightarrow> safe V h c T (take a L)"
  by (erule safe_prefix) (metis min.absorb1 take_is_prefix take_take)

lemma safe_later: "safe V h c T xs \<Longrightarrow> T \<le> T' \<Longrightarrow> safe V h c T' xs"
  unfolding safe_def by (meson order_trans)

lemma safe_grows:
  assumes s: "safe V h c T xs" and g: "grows (led h) (led h')" and ch: "\<And>t k. chosen V h c t k \<Longrightarrow> chosen V h' c' t k"
  shows "safe V h' c' T xs"
proof -
  have "take k (led h' t) = take k (led h t)" if "chosen V h c t k" for t k
    using prefix_take [OF spec [OF g, of t]] that by (simp add: chosen_def own_entry_def)
  then show ?thesis using s ch unfolding safe_def by metis
qed

lemma safe_keeps:
  assumes t: "at_input V h c i n n'" and m: "moves V (net c) n n'" and s: "safe V h c T xs"
  shows "safe V (note_down i n' h) (settle i n' c) T xs"
  by (rule safe_grows [OF s]) (use enters_grows(1) [OF moves_enters [OF t m]] chosen_keeps [OF t m] in auto)

text \<open>Two safe logs are one log, cut at two places.\<close>

lemma safe_comparable:
  assumes inv: "cluster_inv V c" "matching h c" "complete_inv V h c" and s: "safe V h c S xs" "safe V h c T ys"
  shows "prefix xs ys \<or> prefix ys xs"
proof -
  have one: "prefix xs (led h t')" if "chosen V h c t k" "prefix xs (take k (led h t))" "t \<le> t'" "led h t' \<noteq> []" for xs t k t'
    using later_leader_holds [OF inv _ that(4) chosen_choosable [OF that(1)]] that
    by (cases "t = t'") (auto intro: prefix_order.trans [OF that(2)] simp: take_is_prefix)
  have ne: "led h t \<noteq> []" if "chosen V h c t k" for t k using that by (auto simp: chosen_def own_entry_def)
  show ?thesis
  proof (cases "xs = [] \<or> ys = []")
    case False
    then obtain t k u l where a: "chosen V h c t k" "prefix xs (take k (led h t))" "chosen V h c u l" "prefix ys (take l (led h u))"
      using s by (auto simp: safe_def)
    have "prefix xs (led h (max t u))" "prefix ys (led h (max t u))"
      using one [OF a(1,2), of "max t u"] one [OF a(3,4), of "max t u"] ne [OF a(1)] ne [OF a(3)] by (auto simp: max_def)
    then show ?thesis using prefix_same_cases by blast
  qed auto
qed

lemma safe_log_keeps:
  assumes t: "at_input V h c i n n'" and m: "moves V (net c) n n'" and ci: "complete_inv V h c"
    and s: "safe V h c (node_term n) (take a (entries_of n))" and a: "a \<le> length (entries_of n)"
  shows "a \<le> length (entries_of n') \<and> take a (entries_of n') = take a (entries_of n)
    \<and> safe V (note_down i n' h) (settle i n' c) (node_term n') (take a (entries_of n))"
proof -
  have "prefix (take a (entries_of n)) (entries_of n')"
  proof (cases "take a (entries_of n) = []")
    case False
    then obtain u k where "u \<le> node_term n" "chosen V h c u k" "prefix (take a (entries_of n)) (take k (led h u))"
      using s by (auto simp: safe_def)
    then show ?thesis using log_keeps [OF t m ci chosen_choosable] take_is_prefix by blast
  qed auto
  then have k: "a \<le> length (entries_of n')" "take a (entries_of n') = take a (entries_of n)" using a by (auto simp: prefix_def)
  have "node_term n \<le> node_term n'" using moves_enters [OF t m] by (simp add: enters_def)
  then show ?thesis using k safe_later [OF safe_keeps [OF t m s]] by simp
qed

lemma matches_keep:
  assumes t: "at_input V h c i n n'" and m: "moves V (net c) n n'" and s: "node_safe V h c i n"
    and role: "node_role n' = Leader" and v: "v \<noteq> i" "0 < matches n' v"
  shows "acked (note_down i n' h) (settle i n' c) v (node_term n') (matches n' v)"
proof -
  have "acked h c v (node_term n') (matches n' v)"
  proof (cases "node_role n = Leader \<and> hard n' = hard n \<and> matches n' v = matches n v")
    case True
    then show ?thesis using s v by (simp add: node_safe_def)
  next
    case False
    then have "learns V (net c) n n'"
      using m v role at_inputD(5) [OF t]
      by (auto simp: moves_def idles_def same_role_def grants_def stands_def wins_def extends_def merges_def restarts_def)
    then show ?thesis using False by (fastforce simp: learns_def acked_def)
  qed
  then show ?thesis by (rule acked_keeps [OF t m])
qed

text \<open>The commit rule: a majority has acknowledged an entry of the leader's own term.\<close>

lemma commits_safe:
  assumes t: "at_input V h c i n n'" and m: "moves V (net c) n n'" and s: "node_safe V h c i n"
    and role: "node_role n' = Leader" and co: "commits V n n'" and new: "commit_index n' \<noteq> commit_index n" and id: "node_id n' = i"
  shows "commit_index n' \<le> length (entries_of n')
    \<and> safe V (note_down i n' h) (settle i n' c) (node_term n') (take (commit_index n') (entries_of n'))"
proof -
  let ?h = "note_down i n' h" and ?c = "settle i n' c" and ?T = "node_term n'" and ?k = "commit_index n'"
  have k: "0 < ?k" "?k \<le> length (entries_of n')" "term_before (entries_of n') ?k = ?T"
    and q: "decides V {v \<in> set (voters V). v = i \<or> ?k \<le> matches n' v}" using co new id by (auto simp: commits_def)
  have led: "led ?h ?T = entries_of n'" by (simp add: note_down_led role)
  have "acked ?h ?c v ?T ?k" if "v = i \<or> ?k \<le> matches n' v" for v
  proof (cases "v = i")
    case True
    then show ?thesis using k(2) led role by (auto simp: acked_def reigns_settle)
  next
    case False
    then show ?thesis using that k(1) acked_le [OF matches_keep [OF t m s role False]] by auto
  qed
  then have "chosen V ?h ?c ?T ?k" using q k led by (auto simp: chosen_def own_entry_def term_before_def)
  then show ?thesis using k(2) led unfolding safe_def by (metis order_refl prefix_order.refl)
qed

lemma applied_below:
  assumes t: "at_input V h c i n n'" and m: "moves V (net c) n n'" and ci: "complete_inv V h c" and s: "node_safe V h c i n" and a: "a \<le> last_applied n"
  shows "a \<le> length (entries_of n') \<and> safe V (note_down i n' h) (settle i n' c) (node_term n') (take a (entries_of n'))"
proof -
  have l: "last_applied n \<le> length (entries_of n)" "safe V h c (node_term n) (take (last_applied n) (entries_of n))"
    using s by (auto simp: node_safe_def)
  show ?thesis using safe_log_keeps [OF t m ci safe_take [OF l(2) a]] a l(1) by simp
qed

lemma commit_keeps:
  assumes t: "at_input V h c i n n'" and m: "moves V (net c) n n'" and ci: "complete_inv V h c" and cm: "commit_inv V h c"
  shows "commit_index n' \<le> length (entries_of n')
    \<and> safe V (note_down i n' h) (settle i n' c) (node_term n') (take (commit_index n') (entries_of n'))"
proof -
  have s: "node_safe V h c i n" using cm at_inputD(4) [OF t] by (simp add: commit_inv_def)
  have id: "node_id n' = i" using moves_enters [OF t m] at_inputD(5) [OF t] by (simp add: enters_def unmoved_def)
  consider (same) "commit_index n' = commit_index n" | (leads) "node_role n' = Leader" "commits V n n'" "commit_index n' \<noteq> commit_index n"
    | (merges) "merges (net c) n n'" "commit_index n' \<noteq> commit_index n" | (restarts) "restarts n n'"
    using m unfolding moves_def idles_def grants_def stands_def wins_def extends_def learns_def by blast
  then show ?thesis
  proof cases
    case same
    then show ?thesis using safe_log_keeps [OF t m ci, of "commit_index n"] s by (simp add: node_safe_def)
  next
    case leads
    then show ?thesis using commits_safe [OF t m s] id by blast
  next
    case restarts
    then have "commit_index n' \<le> last_applied n" by (auto simp: restarts_def)
    then show ?thesis using applied_below [OF t m ci s] by blast
  next
    case merges
    then obtain e prev es lc where ti: "takes_in h c n n' e prev es lc" using merges_takes_in [OF t] by blast
    note ti = ti [unfolded takes_in_def Let_def]
    let ?X = "led h (node_term n')"
    have k: "commit_index n' = min lc (prev + length es)" using ti merges(2) by blast
    have "safe V h c (node_term n') (take lc ?X)" using cm ti by (auto simp: commit_inv_def)
    then have "safe V h c (node_term n') (take (commit_index n') ?X)" by (rule safe_take) (simp add: k)
    moreover have "take (commit_index n') (entries_of n') = take (commit_index n') ?X" using ti by (metis k min.commute take_take)
    ultimately show ?thesis using safe_keeps [OF t m] ti k by (simp add: min_le_iff_disj)
  qed
qed

lemma applied_keeps:
  assumes t: "at_input V h c i n n'" and m: "moves V (net c) n n'" and ci: "complete_inv V h c" and cm: "commit_inv V h c"
  shows "last_applied n' \<le> length (entries_of n')
    \<and> safe V (note_down i n' h) (settle i n' c) (node_term n') (take (last_applied n') (entries_of n'))"
proof -
  have s: "node_safe V h c i n" using cm at_inputD(4) [OF t] by (simp add: commit_inv_def)
  have "last_applied n' \<le> last_applied n \<or> last_applied n' \<le> commit_index n'"
    using m by (auto simp: moves_def idles_def grants_def stands_def wins_def extends_def merges_def learns_def restarts_def applies_to_def)
  then show ?thesis
  proof
    assume "last_applied n' \<le> last_applied n"
    then show ?thesis by (rule applied_below [OF t m ci s])
  next
    assume le: "last_applied n' \<le> commit_index n'"
    note k = commit_keeps [OF assms]
    show ?thesis using safe_take [OF conjunct2 [OF k] le] conjunct1 [OF k] le by simp
  qed
qed

lemma sent_append:
  assumes t: "at_input V h c i n n'" and m: "moves V (net c) n n'" and e: "e \<in> set (outbox n')" "env_message e = AppendEntries u prev pt es lc"
  shows "node_role n = Leader \<and> u = node_term n \<and> lc = commit_index n
    \<or> node_role n' = Leader \<and> u = node_term n' \<and> (lc = commit_index n \<or> lc = commit_index n')"
proof -
  have s: "P (AppendEntries u prev pt es lc)" if "sends n n' P" for P using sendsD [OF that at_inputD(6) [OF t] e(1)] e(2) by simp
  show ?thesis
    using m at_inputD(6) [OF t] e(1)
    by (auto simp: moves_def idles_def grants_def stands_def wins_def extends_def merges_def learns_def restarts_def append_of_def dest!: s)
qed

lemma msg_safe_keeps:
  assumes t: "at_input V h c i n n'" and m: "moves V (net c) n n'" and ci: "complete_inv V h c" and cm: "commit_inv V h c"
    and e: "e \<in> net (settle i n' c)"
  shows "msg_safe V (note_down i n' h) (settle i n' c) (env_message e)"
proof (cases "env_message e")
  case (AppendEntries u prev pt es lc)
  let ?h = "note_down i n' h" and ?c = "settle i n' c"
  have s: "node_safe V h c i n" using cm at_inputD(4) [OF t] by (simp add: commit_inv_def)
  have old: "?thesis" if "lc \<le> length (led h u) \<and> safe V h c u (take lc (led h u))"
    using safe_keeps [OF t m, of u] that prefix_take [OF enters_grows(1) [OF moves_enters [OF t m]], of lc u]
      prefix_length_le [OF enters_grows(1) [OF moves_enters [OF t m]], of u] AppendEntries by simp
  show ?thesis
  proof (cases "e \<in> net c")
    case True
    then have "msg_safe V h c (env_message e)" using cm by (simp add: commit_inv_def)
    then show ?thesis using old AppendEntries by simp
  next
    case False
    then have "e \<in> set (outbox n')" using e by (simp add: settle_fields)
    from sent_append [OF t m this AppendEntries] show ?thesis
    proof (elim disjE conjE)
      assume "node_role n = Leader" "u = node_term n" "lc = commit_index n"
      then show ?thesis using old s at_inputD(3) [OF t] by (simp add: node_safe_def node_good_def)
    next
      assume "node_role n' = Leader" "u = node_term n'" "lc = commit_index n"
      then show ?thesis
        using AppendEntries safe_log_keeps [OF t m ci, of "commit_index n"] s by (simp add: note_down_led node_safe_def)
    next
      assume "node_role n' = Leader" "u = node_term n'" "lc = commit_index n'"
      then show ?thesis using AppendEntries commit_keeps [OF t m ci cm] by (simp add: note_down_led)
    qed
  qed
qed simp_all

lemma commit_inv_keeps:
  assumes t: "at_input V h c i n n'" and m: "moves V (net c) n n'" and ci: "complete_inv V h c" and cm: "commit_inv V h c"
  shows "commit_inv V (note_down i n' h) (settle i n' c)"
proof -
  let ?h = "note_down i n' h" and ?c = "settle i n' c"
  have s: "node_safe V h c j x" if "replicas c j = Some x" for j x using cm that by (simp add: commit_inv_def)
  have "node_safe V ?h ?c j x" if x: "replicas ?c j = Some x" for j x
  proof (cases "j = i")
    case True
    then have x': "x = n'\<lparr>outbox := []\<rparr>" using x by (simp add: settle_fields)
    have "matches x = matches n'" by (simp add: x' matches_def fun_eq_iff)
    then show ?thesis
      using commit_keeps [OF assms] applied_keeps [OF assms] matches_keep [OF t m s [OF at_inputD(4) [OF t]]] True
      by (simp add: node_safe_def x')
  next
    case False
    then have "node_safe V h c j x" using s x by (simp add: settle_fields)
    then show ?thesis using safe_keeps [OF t m] acked_keeps [OF t m] by (simp add: node_safe_def)
  qed
  then show ?thesis using msg_safe_keeps [OF assms] by (simp add: commit_inv_def)
qed

lemma chronicle_commit: "chronicle M V h c \<Longrightarrow> commit_inv V h c"
proof (induction rule: chronicle.induct)
  case (start c)
  then show ?case using begins_node [OF start] by (auto simp: commit_inv_def node_safe_def begins_def cluster_start_def)
next
  case (go_on h c i n n')
  then show ?case using commit_inv_keeps chronicle_at_input [OF go_on.hyps] chronicle_complete [OF go_on.hyps(1)] by blast
qed

section \<open>Through time\<close>

inductive evolves :: "'m state_machine \<Rightarrow> 'm cluster \<Rightarrow> 'm cluster \<Rightarrow> bool" for M c where
  now: "evolves M c c"
| later: "evolves M c c1 \<Longrightarrow> acts M c1 i n n' \<Longrightarrow> in_bounds (settle i n' c1) \<Longrightarrow> evolves M c (settle i n' c1)"

lemma evolves_safe:
  assumes "evolves M c c'" and "chronicle M V h c"
  shows "\<exists>h'. chronicle M V h' c' \<and> (\<forall>T xs. safe V h c T xs \<longrightarrow> safe V h' c' T xs)"
  using assms(1)
proof (induction rule: evolves.induct)
  case now
  then show ?case using assms(2) by blast
next
  case (later c1 i n n')
  then obtain h1 where h1: "chronicle M V h1 c1" "\<forall>T xs. safe V h c T xs \<longrightarrow> safe V h1 c1 T xs" by blast
  then show ?case
    using chronicle.go_on [OF h1(1) later.hyps(2,3)] safe_keeps chronicle_at_input [OF h1(1) later.hyps(2,3)] by blast
qed

text \<open>What the safe logs of a run at two moments have in common.\<close>

lemma execution_safe:
  assumes "execution M V c" and "evolves M c c'" and "replicas c i = Some m" and "replicas c' j = Some n"
  obtains h where "cluster_inv V c'" "matching h c'" "complete_inv V h c'" "node_safe V h c' j n" "node_good h c' j n"
    "safe V h c' (node_term m) (take (commit_index m) (entries_of m))" "commit_index m \<le> length (entries_of m)"
    "safe V h c' (node_term m) (take (last_applied m) (entries_of m))" "last_applied m \<le> length (entries_of m)"
proof -
  obtain h0 where h0: "chronicle M V h0 c" using execution_chronicle [OF assms(1)] by blast
  obtain h where h: "chronicle M V h c'" "\<forall>T xs. safe V h0 c T xs \<longrightarrow> safe V h c' T xs" using evolves_safe [OF assms(2) h0] by blast
  have "node_safe V h0 c i m" "node_safe V h c' j n" using chronicle_commit [OF h0] chronicle_commit [OF h(1)] assms(3,4) by (auto simp: commit_inv_def)
  then show ?thesis
    using that [of h] h reachable_inv [OF chronicle_reachable [OF h(1)]] chronicle_matching [OF h(1)] chronicle_complete [OF h(1)]
      matchingD(2) [OF chronicle_matching [OF h(1)] assms(4)] by (simp add: node_safe_def)
qed

end
