(* ===== verification/Raft_Agreement.thy ===== *)
theory Raft_Agreement
  imports Raft_Completeness Raft_Scenario
begin

text \<open>
  The agreement of the replicas of a cluster that has not compacted: equal logs below an equal entry,
  leaders that hold every committed entry, and machines that are fed the same entries. Each theorem
  is instantiated on a run in which an elected leader replicates, commits and announces its first
  entry.
\<close>

section \<open>A run\<close>

definition append_request :: envelope where
  "append_request = \<lparr>env_from = 1, env_to = 2, env_message = AppendEntries 1 0 0 [noop_entry] 0\<rparr>"

definition append_response :: envelope where
  "append_response = \<lparr>env_from = 2, env_to = 1, env_message = AppendEntriesResponse 1 True 1 0 0\<rparr>"

definition heartbeat :: envelope where
  "heartbeat = \<lparr>env_from = 1, env_to = 2, env_message = AppendEntries 1 1 1 [] 1\<rparr>"

definition follower2 :: "memory_machine raft_node" where
  "follower2 = voter2\<lparr>leader := Some 1, log := (log voter2)\<lparr>ml_held := [noop_entry]\<rparr>,
     node_rng := snd (next_u64 (node_rng voter2))\<rparr>"

definition committed1 :: "memory_machine raft_node" where
  "committed1 = leader1\<lparr>commit_index := 1, last_applied := 1, node_progress := (node_progress leader1)(2 \<mapsto> peer_progress 2 1),
     applied := [\<lparr>ap_index = 1, ap_term = 1, ap_result = None\<rparr>]\<rparr>"

definition applied2 :: "memory_machine raft_node" where
  "applied2 = follower2\<lparr>commit_index := 1, last_applied := 1, node_rng := snd (next_u64 (node_rng follower2)),
     applied := [\<lparr>ap_index = 1, ap_term = 1, ap_result = None\<rparr>]\<rparr>"

lemmas run_evals = append_request_def append_response_def heartbeat_def follower2_def committed1_def applied2_def
  voter2_def leader1_def candidate1_def replica1_def replica2_def peer_progress_def noop_entry_def demo_evals node_evals

lemma demo_append: "step demo_machine append_request voter2 = ok () (follower2\<lparr>outbox := [append_response]\<rparr>)"
  by (simp add: run_evals)

lemma demo_commit: "step demo_machine append_response leader1 = ok () committed1"
  by (simp add: run_evals) (simp add: numeral_2_eq_2)

lemma demo_heartbeat:
  "tick demo_machine committed1 = ok () (committed1\<lparr>election_elapsed := 1, ticks := 3,
     outbox := [heartbeat, heartbeat\<lparr>env_to := 3, env_message := AppendEntries 1 0 0 [noop_entry] 1\<rparr>]\<rparr>)"
  by (simp add: run_evals)

lemma demo_apply: "step demo_machine heartbeat follower2 = ok () (applied2\<lparr>outbox := [append_response]\<rparr>)"
  by (simp add: run_evals)

definition demo3 :: "memory_machine cluster" where
  "demo3 = settle 1 (snd (step demo_machine append_response leader1))
     (settle 2 (snd (step demo_machine append_request voter2)) demo2)"

definition demo4 :: "memory_machine cluster" where
  "demo4 = settle 2 (snd (step demo_machine heartbeat follower2))
     (settle 1 (snd (tick demo_machine committed1)) demo3)"

definition small :: "'m raft_node \<Rightarrow> bool" where
  "small n \<longleftrightarrow> node_term n \<le> 1 \<and> length (entries_of n) \<le> 1 \<and> snapshot_threshold (config n) = 0"

lemma small_bounds: "in_bounds c \<Longrightarrow> small n \<Longrightarrow> in_bounds (settle i n c)"
  by (fastforce simp: in_bounds_def small_def settle_fields u64_max_eq split: if_splits)

lemma execution_bounds: "execution M V c \<Longrightarrow> in_bounds c"
  by (cases rule: execution.cases) (auto simp: begins_def)

lemma run_on: "execution M V c \<Longrightarrow> acts M c i n n' \<Longrightarrow> small n' \<Longrightarrow> execution M V (settle i n' c)"
  using execution.go_on small_bounds execution_bounds by blast

lemma small_nodes [simp]:
  "small ticked1" "small candidate1" "small voter2" "small leader1" "small follower2" "small committed1" "small applied2"
  "small (n\<lparr>outbox := ms\<rparr>) = small n" "small (n\<lparr>election_elapsed := e\<rparr>) = small n" "small (n\<lparr>ticks := e\<rparr>) = small n"
  by (simp_all add: small_def ticked1_def run_evals)

lemma run_ready [simp]:
  "voter2\<lparr>outbox := []\<rparr> = voter2" "leader1\<lparr>outbox := []\<rparr> = leader1" "follower2\<lparr>outbox := []\<rparr> = follower2"
  "committed1\<lparr>outbox := []\<rparr> = committed1" "applied2\<lparr>outbox := []\<rparr> = applied2"
  "committed1\<lparr>election_elapsed := e, ticks := k, outbox := []\<rparr> = committed1\<lparr>election_elapsed := e, ticks := k\<rparr>"
  by (simp_all add: run_evals)

lemma run_to [simp]: "env_to vote_request = 2" "env_to append_request = 2"
  by (simp_all add: vote_request_def append_request_def)

lemmas run_steps = demo_tick1 demo_tick2 demo_vote demo_win demo_append demo_commit demo_heartbeat demo_apply
lemmas run_states = demo0_def demo1_def demo2_def demo3_def demo4_def settle_fields run_steps

lemma small_steps:
  "small (snd (step demo_machine vote_request replica2))" "small (snd (step demo_machine vote_response candidate1))"
  "small (snd (step demo_machine append_request voter2))" "small (snd (step demo_machine append_response leader1))"
  by (simp_all add: run_steps)

lemma demo0_execution: "execution demo_machine demo_voters demo0"
proof (rule execution.start)
  have "cluster_start demo_machine demo_voters demo0"
    using demo0_start by simp
  moreover have "in_bounds demo0" "\<forall>i n. replicas demo0 i = Some n \<longrightarrow> last_applied n = 0"
    by (auto simp: in_bounds_def demo0_def replica1_def replica2_def demo_evals u64_max_eq memory_log_new_def split: if_splits)
  moreover have "members demo_voters" by (simp add: members_def demo_voters_def membership_wf_def btree_set_def)
  ultimately show "begins demo_machine demo_voters demo0" by (simp add: begins_def)
qed

lemma demo1_execution: "execution demo_machine demo_voters demo1"
  unfolding demo1_def
  by (rule run_on [OF run_on [OF demo0_execution acts.time] acts.time]) (simp_all add: run_states)

lemma demo2_execution: "execution demo_machine demo_voters demo2"
proof -
  have "execution demo_machine demo_voters (settle (env_to vote_request) (snd (step demo_machine vote_request replica2)) demo1)"
    by (rule run_on [OF demo1_execution acts.deliver small_steps(1)]) (simp_all add: run_states vote_request_def)
  then have "execution demo_machine demo_voters (settle (env_to vote_response) (snd (step demo_machine vote_response candidate1))
      (settle 2 (snd (step demo_machine vote_request replica2)) demo1))"
    by (intro run_on [OF _ acts.deliver small_steps(2)]) (simp_all add: run_states vote_response_def)
  then show ?thesis by (simp add: demo2_def vote_response_def)
qed

lemma demo3_execution: "execution demo_machine demo_voters demo3"
proof -
  have "execution demo_machine demo_voters (settle (env_to append_request) (snd (step demo_machine append_request voter2)) demo2)"
    by (rule run_on [OF demo2_execution acts.deliver small_steps(3)]) (simp_all add: run_states append_request_def)
  then have "execution demo_machine demo_voters (settle (env_to append_response) (snd (step demo_machine append_response leader1))
      (settle 2 (snd (step demo_machine append_request voter2)) demo2))"
    by (intro run_on [OF _ acts.deliver small_steps(4)]) (simp_all add: run_states append_response_def)
  then show ?thesis by (simp add: demo3_def append_response_def)
qed

lemma demo3_evolves: "evolves demo_machine demo3 demo4"
proof -
  let ?c = "settle 1 (snd (tick demo_machine committed1)) demo3"
  have "acts demo_machine demo3 1 committed1 (snd (tick demo_machine committed1))"
    by (rule acts.time) (simp add: run_states)
  moreover have b: "in_bounds ?c"
    by (rule small_bounds [OF execution_bounds [OF demo3_execution]]) (simp add: run_steps)
  ultimately have e: "evolves demo_machine demo3 ?c" using evolves.later [OF evolves.now] by blast
  have "acts demo_machine ?c (env_to heartbeat) follower2 (snd (step demo_machine heartbeat follower2))"
    by (rule acts.deliver) (simp_all add: run_states heartbeat_def)
  moreover have "in_bounds (settle (env_to heartbeat) (snd (step demo_machine heartbeat follower2)) ?c)"
    by (rule small_bounds [OF b]) (simp add: run_steps)
  ultimately show ?thesis using evolves.later [OF e] by (simp add: demo4_def heartbeat_def)
qed

lemma demo3_replicas: "replicas demo3 1 = Some committed1" "replicas demo3 2 = Some follower2"
  by (simp_all add: run_states)

lemma demo4_replicas: "replicas demo4 1 = Some (committed1\<lparr>election_elapsed := 1, ticks := 3\<rparr>)" "replicas demo4 2 = Some applied2"
  by (simp_all add: run_states)

lemma run_fields [simp]:
  "entries_of committed1 = [noop_entry]" "entries_of follower2 = [noop_entry]" "entries_of applied2 = [noop_entry]"
  "commit_index committed1 = 1" "last_applied committed1 = 1" "last_applied applied2 = 1" "node_role committed1 = Leader" "node_term committed1 = 1"
  by (simp_all add: run_evals)

section \<open>Log matching\<close>

text \<open>
  C3: in every execution of a cluster that has not compacted, two replicas whose logs have an entry of
  the same term at the same index hold the same entries up to and including it, through elections,
  lost, delayed and repeated messages, and restarts.
\<close>

theorem log_matching:
  assumes "execution M V c" and "replicas c i = Some m" and "replicas c j = Some n"
    and "k < length (entries_of m)" and "k < length (entries_of n)"
    and "le_term (entries_of m ! k) = le_term (entries_of n ! k)"
  shows "take (Suc k) (entries_of m) = take (Suc k) (entries_of n)"
proof -
  obtain h where "chronicle M V h c" using execution_chronicle [OF assms(1)] by blast
  then have "node_good h c i m" "node_good h c j n" using matchingD(2) [OF chronicle_matching] assms(2,3) by blast+
  then show ?thesis using agrees_same [OF _ _ assms(4-6)] by (auto simp: node_good_def good_log_def)
qed

theorem log_matching_witness:
  "execution demo_machine demo_voters demo3 \<and> replicas demo3 1 = Some committed1 \<and> replicas demo3 2 = Some follower2
    \<and> entries_of committed1 = [noop_entry] \<and> take 1 (entries_of committed1) = take 1 (entries_of follower2)"
  using log_matching [OF demo3_execution demo3_replicas, of 0] demo3_execution demo3_replicas by simp

section \<open>Leader completeness\<close>

text \<open>
  C2: every entry a replica has counted as committed is, from then on, in the log of every leader of
  the same or a later term, at the same place, whatever is lost, repeated or restarted in between.
\<close>

theorem leader_completeness:
  assumes "execution M V c" and "evolves M c c'" and "replicas c i = Some m" and "replicas c' j = Some n"
    and "node_role n = Leader" and "node_term m \<le> node_term n"
  shows "commit_index m \<le> length (entries_of m) \<and> prefix (take (commit_index m) (entries_of m)) (entries_of n)"
proof -
  obtain h where h: "cluster_inv V c'" "matching h c'" "complete_inv V h c'" "node_good h c' j n"
    "safe V h c' (node_term m) (take (commit_index m) (entries_of m))" "commit_index m \<le> length (entries_of m)"
    by (rule execution_safe [OF assms(1-4)])
  have led: "led h (node_term n) = entries_of n" "led h (node_term n) \<noteq> []"
    using h(4) record_goodD(3) [OF matchingD(1) [OF h(2)], of "node_term n"] assms(5) by (auto simp: node_good_def)
  have "prefix (take k (led h t)) (entries_of n)" if "chosen V h c' t k" "t \<le> node_term m" for t k
    using later_leader_holds [OF h(1-3) _ led(2) chosen_choosable [OF that(1)]] that(2) assms(6) led(1)
    by (cases "t = node_term n") (auto simp: take_is_prefix)
  then show ?thesis using h(5,6) unfolding safe_def by (metis Nil_prefix prefix_order.trans)
qed

theorem leader_completeness_witness:
  "evolves demo_machine demo3 demo4 \<and> commit_index committed1 = 1
    \<and> prefix (take 1 (entries_of committed1)) (entries_of (committed1\<lparr>election_elapsed := 1, ticks := 3\<rparr>))"
  using leader_completeness [OF demo3_execution demo3_evolves demo3_replicas(1) demo4_replicas(1)] demo3_evolves by simp

section \<open>State machine safety\<close>

text \<open>
  C1: no two replicas ever apply different entries at the same place. What one replica has applied and
  what any replica has applied at any later moment are the same entries, as far as both go.
\<close>

theorem state_machine_safety:
  assumes "execution M V c" and "evolves M c c'" and "replicas c i = Some m" and "replicas c' j = Some n"
    and "k < last_applied m" and "k < last_applied n"
  shows "k < length (entries_of m) \<and> k < length (entries_of n) \<and> entries_of m ! k = entries_of n ! k"
proof -
  obtain h where h: "cluster_inv V c'" "matching h c'" "complete_inv V h c'" "node_safe V h c' j n"
    "safe V h c' (node_term m) (take (last_applied m) (entries_of m))" "last_applied m \<le> length (entries_of m)"
    by (rule execution_safe [OF assms(1-4)])
  have n: "safe V h c' (node_term n) (take (last_applied n) (entries_of n))" "last_applied n \<le> length (entries_of n)"
    using h(4) by (auto simp: node_safe_def)
  have "take (last_applied m) (entries_of m) ! k = take (last_applied n) (entries_of n) ! k"
    using safe_comparable [OF h(1-3,5) n(1)] assms(5,6) h(6) n(2)
    by (elim disjE) (auto simp del: nth_take simp: prefix_def nth_append)
  then show ?thesis using assms(5,6) h(6) n(2) by simp
qed

theorem state_machine_safety_witness:
  "execution demo_machine demo_voters demo3 \<and> evolves demo_machine demo3 demo4 \<and> last_applied committed1 = 1 \<and> last_applied applied2 = 1
    \<and> entries_of committed1 ! 0 = entries_of applied2 ! 0"
  using state_machine_safety [OF demo3_execution demo3_evolves demo3_replicas(1) demo4_replicas(2), of 0] demo3_execution demo3_evolves by simp

end
