(* ===== verification/Raft_Compaction.thy ===== *)
theory Raft_Compaction
  imports Raft_Agreement
begin

text \<open>
  What compaction breaks. A leader that compacts sends its snapshot to a follower whose
  acknowledgements it has not seen yet. The follower installs it although its log goes further and
  agrees with it, and drops the entries above the snapshot, which it has already acknowledged. A run
  of three replicas shows where this leads: an entry that was committed and applied is replaced.
\<close>

section \<open>A run that compacts\<close>

definition compacting :: "peer_id \<Rightarrow> raft_config" where
  "compacting i = with_snapshot_threshold (demo_config i) 1"

definition fresh :: "peer_id \<Rightarrow> memory_machine raft_node" where
  "fresh i = (demo_node i)\<lparr>config := compacting i\<rparr>"

lemma compacting_fields [simp]:
  "cfg_id (compacting i) = i" "election_timeout_ticks (compacting i) = 2"
  "election_jitter_ticks (compacting i) = 0" "heartbeat_ticks (compacting i) = 1"
  "pre_vote (compacting i) = False" "max_entries_per_append (compacting i) = 256"
  "snapshot_threshold (compacting i) = 1" "initial_membership (compacting i) = demo_voters" "cfg_seed (compacting i) = cfg_seed (demo_config i)"
  by (simp_all add: compacting_def with_snapshot_threshold_def initial_membership_def) (simp add: demo_config_fields [unfolded initial_membership_def])

abbreviation machine_of where "machine_of enc dec \<equiv> memory_state_machine enc dec"

definition term1 :: hard_state where "term1 = \<lparr>hs_term = 1, hs_voted_for = Some 1\<rparr>"

definition waiting1 :: "memory_machine raft_node" where
  "waiting1 = (fresh 1)\<lparr>election_elapsed := 1, ticks := 1\<rparr>"

definition standing1 :: "memory_machine raft_node" where
  "standing1 = (fresh 1)\<lparr>node_role := Candidate, hard := term1, log := memory_log_new\<lparr>ml_hard := term1\<rparr>,
     votes := [(1, True)], node_rng := snd (next_u64 (demo_seed 1)), ticks := 2\<rparr>"

definition voted2 :: "memory_machine raft_node" where
  "voted2 = (fresh 2)\<lparr>hard := term1, log := memory_log_new\<lparr>ml_hard := term1\<rparr>, node_rng := snd (next_u64 (snd (next_u64 (demo_seed 2))))\<rparr>"

definition leading1 :: "memory_machine raft_node" where
  "leading1 = standing1\<lparr>node_role := Leader, leader := Some 1, votes := [],
     log := (log standing1)\<lparr>ml_held := [noop_entry]\<rparr>,
     node_progress := [3 \<mapsto> peer_progress 1 0, 2 \<mapsto> peer_progress 1 0, 1 \<mapsto> peer_progress 2 1]\<rparr>"

definition entry_a :: log_entry where "entry_a = \<lparr>le_term = 1, le_index = 2, le_payload = Command [10]\<rparr>"
definition entry_b :: log_entry where "entry_b = \<lparr>le_term = 1, le_index = 3, le_payload = Command [11]\<rparr>"

definition proposed1 :: "memory_machine raft_node" where
  "proposed1 = leading1\<lparr>log := (log leading1)\<lparr>ml_held := [noop_entry, entry_a]\<rparr>,
     node_progress := (node_progress leading1)(1 \<mapsto> peer_progress 3 2)\<rparr>"

definition proposed2 :: "memory_machine raft_node" where
  "proposed2 = leading1\<lparr>log := (log leading1)\<lparr>ml_held := [noop_entry, entry_a, entry_b]\<rparr>,
     node_progress := (node_progress leading1)(1 \<mapsto> peer_progress 4 3)\<rparr>"

lemma apply_loop_numeral:
  "apply_loop (numeral k) M n =
     (if last_applied n < commit_index n then try_then (apply_one M n) (\<lambda>_. apply_loop (pred_numeral k) M) else ok () n)"
  by (simp add: numeral_eq_Suc)

lemmas lossy_evals = waiting1_def standing1_def voted2_def leading1_def proposed1_def proposed2_def term1_def entry_a_def entry_b_def
  fresh_def vote_request_def vote_response_def peer_progress_def noop_entry_def apply_loop_numeral numeral_2_eq_2 [symmetric] demo_evals node_evals

lemma lossy1: "tick (machine_of enc dec) (fresh 1) = ok () waiting1"
  by (simp add: lossy_evals)

lemma lossy2: "tick (machine_of enc dec) waiting1 = ok () (standing1\<lparr>outbox := map (\<lambda>p. vote_request\<lparr>env_to := p\<rparr>) [2, 3]\<rparr>)"
  by (simp add: lossy_evals)

lemma lossy3: "step (machine_of enc dec) vote_request (fresh 2) = ok () (voted2\<lparr>outbox := [vote_response]\<rparr>)"
  by (simp add: lossy_evals)

definition append_to :: "peer_id \<Rightarrow> log_index \<Rightarrow> raft_term \<Rightarrow> log_entry list \<Rightarrow> log_index \<Rightarrow> envelope" where
  "append_to p prev t es lc = \<lparr>env_from = 1, env_to = p, env_message = AppendEntries 1 prev t es lc\<rparr>"

lemma lossy4:
  "step (machine_of enc dec) vote_response standing1 = ok () (leading1\<lparr>outbox := map (\<lambda>p. append_to p 0 0 [noop_entry] 0) [2, 3]\<rparr>)"
  by (simp add: lossy_evals append_to_def)

lemma lossy5:
  "propose (machine_of enc dec) [10] leading1 = ok 2 (proposed1\<lparr>outbox := map (\<lambda>p. append_to p 0 0 [noop_entry, entry_a] 0) [2, 3]\<rparr>)"
  by (simp add: lossy_evals append_to_def)

lemma lossy6:
  "propose (machine_of enc dec) [11] proposed1 = ok 3 (proposed2\<lparr>outbox := map (\<lambda>p. append_to p 0 0 [noop_entry, entry_a, entry_b] 0) [2, 3]\<rparr>)"
  by (simp add: lossy_evals append_to_def)


definition ack :: "peer_id \<Rightarrow> log_index \<Rightarrow> envelope" where
  "ack p i = \<lparr>env_from = p, env_to = 1, env_message = AppendEntriesResponse 1 True i 0 0\<rparr>"

definition ahead2 :: "memory_machine raft_node" where
  "ahead2 = voted2\<lparr>leader := Some 1, log := (log voted2)\<lparr>ml_held := [noop_entry, entry_a, entry_b]\<rparr>, node_rng := snd (next_u64 (node_rng voted2))\<rparr>"

definition behind3 :: "memory_machine raft_node" where
  "behind3 = (fresh 3)\<lparr>leader := Some 1, hard := \<lparr>hs_term = 1, hs_voted_for = None\<rparr>,
     log := \<lparr>ml_hard = \<lparr>hs_term = 1, hs_voted_for = None\<rparr>, ml_held = [noop_entry, entry_a], ml_snap = None\<rparr>,
     node_rng := snd (next_u64 (snd (next_u64 (demo_seed 3))))\<rparr>"

lemma lossy7: "step (machine_of enc dec) (append_to 2 0 0 [noop_entry, entry_a, entry_b] 0) voted2 = ok () (ahead2\<lparr>outbox := [ack 2 3]\<rparr>)"
  by (simp add: lossy_evals append_to_def ack_def ahead2_def)

lemma lossy8: "step (machine_of enc dec) (append_to 3 0 0 [noop_entry, entry_a] 0) (fresh 3) = ok () (behind3\<lparr>outbox := [ack 3 2]\<rparr>)"
  by (simp add: lossy_evals append_to_def ack_def behind3_def)

definition snapshot_a :: "u8 list \<Rightarrow> snapshot" where
  "snapshot_a b = \<lparr>snap_meta = snapshot_meta_new 2 1 demo_voters, snap_data = b\<rparr>"

definition compacted1 :: "u8 list \<Rightarrow> memory_machine raft_node" where
  "compacted1 b = proposed2\<lparr>log := (log proposed2)\<lparr>ml_held := [entry_b], ml_snap := Some (snapshot_a b)\<rparr>,
     machine := \<lparr>mm_commands = [[10]], mm_last_applied = 2\<rparr>, commit_index := 2, last_applied := 2,
     node_progress := (node_progress proposed2)(3 \<mapsto> peer_progress 3 2),
     applied := [\<lparr>ap_index = 1, ap_term = 1, ap_result = None\<rparr>, \<lparr>ap_index = 2, ap_term = 1, ap_result = Some [10]\<rparr>]\<rparr>"

lemma lossy9: "enc (2, [[10]]) = Inr b \<Longrightarrow> step (machine_of enc dec) (ack 3 2) proposed2 = ok () ((compacted1 b)\<lparr>outbox := [append_to 3 2 1 [entry_b] 2]\<rparr>)"
  by (simp add: lossy_evals append_to_def ack_def compacted1_def snapshot_a_def)

definition install :: "u8 list \<Rightarrow> envelope" where
  "install b = \<lparr>env_from = 1, env_to = 2, env_message = InstallSnapshot 1 (snapshot_a b)\<rparr>"

definition sending1 :: "u8 list \<Rightarrow> memory_machine raft_node" where
  "sending1 b = (compacted1 b)\<lparr>election_elapsed := 1, ticks := 3,
     node_progress := (node_progress (compacted1 b))(2 \<mapsto> (peer_progress 3 0)\<lparr>snapshot_in_flight := True\<rparr>)\<rparr>"

lemma lossy10: "tick (machine_of enc dec) (compacted1 b) = ok () ((sending1 b)\<lparr>outbox := [install b, append_to 3 2 1 [entry_b] 2]\<rparr>)"
  by (simp add: lossy_evals append_to_def ack_def compacted1_def snapshot_a_def install_def sending1_def)

definition applied1 :: "u8 list \<Rightarrow> memory_machine raft_node" where
  "applied1 b = (sending1 b)\<lparr>commit_index := 3, last_applied := 3, machine := \<lparr>mm_commands = [[10], [11]], mm_last_applied = 3\<rparr>,
     node_progress := (node_progress (compacted1 b))(2 \<mapsto> (peer_progress 4 3)\<lparr>last_contact := 3, snapshot_in_flight := False\<rparr>),
     applied := applied (compacted1 b) @ [\<lparr>ap_index = 3, ap_term = 1, ap_result = Some [11]\<rparr>]\<rparr>"

lemma lossy11: "step (machine_of enc dec) (ack 2 3) (sending1 b) = ok () (applied1 b)"
  by (simp add: lossy_evals append_to_def ack_def compacted1_def snapshot_a_def install_def sending1_def applied1_def)

definition dropped2 :: "u8 list \<Rightarrow> memory_machine raft_node" where
  "dropped2 b = ahead2\<lparr>log := (log ahead2)\<lparr>ml_held := [], ml_snap := Some (snapshot_a b)\<rparr>, machine := \<lparr>mm_commands = [[10]], mm_last_applied = 2\<rparr>,
     commit_index := 2, last_applied := 2, node_rng := snd (next_u64 (node_rng ahead2))\<rparr>"

lemma lossy12:
  "dec b = Inr (2, [[10]]) \<Longrightarrow> step (machine_of enc dec) (install b) ahead2 =
     ok () ((dropped2 b)\<lparr>outbox := [\<lparr>env_from = 2, env_to = 1, env_message = InstallSnapshotResponse 1 2\<rparr>]\<rparr>)"
  by (simp add: lossy_evals append_to_def ack_def compacted1_def snapshot_a_def install_def ahead2_def dropped2_def)

lemma lossy13: "tick (machine_of enc dec) behind3 = ok () (behind3\<lparr>election_elapsed := 1, ticks := 1\<rparr>)"
  by (simp add: lossy_evals behind3_def)

definition standing3 :: "memory_machine raft_node" where
  "standing3 = behind3\<lparr>node_role := Candidate, leader := None, hard := \<lparr>hs_term = 2, hs_voted_for = Some 3\<rparr>, log := (log behind3)\<lparr>ml_hard := \<lparr>hs_term = 2, hs_voted_for = Some 3\<rparr>\<rparr>,
     votes := [(3, True)], node_rng := snd (next_u64 (node_rng behind3)), election_elapsed := 0, ticks := 2\<rparr>"

definition ask3 :: "peer_id \<Rightarrow> envelope" where
  "ask3 p = \<lparr>env_from = 3, env_to = p, env_message = VoteRequest 2 2 1\<rparr>"

lemma lossy14: "tick (machine_of enc dec) (behind3\<lparr>election_elapsed := 1, ticks := 1\<rparr>) = ok () (standing3\<lparr>outbox := map ask3 [1, 2]\<rparr>)"
  by (simp add: lossy_evals behind3_def standing3_def ask3_def)

definition granted2 :: "u8 list \<Rightarrow> memory_machine raft_node" where
  "granted2 b = (dropped2 b)\<lparr>leader := None, hard := \<lparr>hs_term = 2, hs_voted_for = Some 3\<rparr>,
     log := (log (dropped2 b))\<lparr>ml_hard := \<lparr>hs_term = 2, hs_voted_for = Some 3\<rparr>\<rparr>,
     node_rng := snd (next_u64 (snd (next_u64 (node_rng (dropped2 b)))))\<rparr>"

definition granted3 :: envelope where
  "granted3 = \<lparr>env_from = 2, env_to = 3, env_message = VoteResponse 2 True\<rparr>"

lemma lossy15: "step (machine_of enc dec) (ask3 2) (dropped2 b) = ok () ((granted2 b)\<lparr>outbox := [granted3]\<rparr>)"
  by (simp add: lossy_evals append_to_def ack_def compacted1_def snapshot_a_def install_def ahead2_def dropped2_def ask3_def granted2_def granted3_def)

definition entry_c :: log_entry where "entry_c = \<lparr>le_term = 2, le_index = 3, le_payload = Noop\<rparr>"

definition leading3 :: "memory_machine raft_node" where
  "leading3 = standing3\<lparr>node_role := Leader, leader := Some 3, votes := [], log := (log standing3)\<lparr>ml_held := [noop_entry, entry_a, entry_c]\<rparr>,
     node_progress := [2 \<mapsto> peer_progress 3 0, 1 \<mapsto> peer_progress 3 0, 3 \<mapsto> peer_progress 4 3]\<rparr>"

definition append3 :: "peer_id \<Rightarrow> envelope" where
  "append3 p = \<lparr>env_from = 3, env_to = p, env_message = AppendEntries 2 2 1 [entry_c] 0\<rparr>"

lemma lossy16: "step (machine_of enc dec) granted3 standing3 = ok () (leading3\<lparr>outbox := map append3 [1, 2]\<rparr>)"
  by (simp add: lossy_evals behind3_def standing3_def granted3_def leading3_def append3_def entry_c_def)

definition replaced2 :: "u8 list \<Rightarrow> memory_machine raft_node" where
  "replaced2 b = (granted2 b)\<lparr>leader := Some 3, log := (log (granted2 b))\<lparr>ml_held := [entry_c]\<rparr>, node_rng := snd (next_u64 (node_rng (granted2 b)))\<rparr>"

definition ack3 :: envelope where
  "ack3 = \<lparr>env_from = 2, env_to = 3, env_message = AppendEntriesResponse 2 True 3 0 0\<rparr>"

lemma lossy17: "step (machine_of enc dec) (append3 2) (granted2 b) = ok () ((replaced2 b)\<lparr>outbox := [ack3]\<rparr>)"
  by (simp add: lossy_evals snapshot_a_def ahead2_def dropped2_def granted2_def append3_def replaced2_def ack3_def entry_c_def)

definition applied3 :: "u8 list \<Rightarrow> memory_machine raft_node" where
  "applied3 b = leading3\<lparr>log := (log leading3)\<lparr>ml_held := [], ml_snap := Some \<lparr>snap_meta = snapshot_meta_new 3 2 demo_voters, snap_data = b\<rparr>\<rparr>,
     machine := \<lparr>mm_commands = [[10]], mm_last_applied = 2\<rparr>, commit_index := 3, last_applied := 3,
     node_progress := (node_progress leading3)(2 \<mapsto> peer_progress 4 3),
     applied := applied (compacted1 b) @ [\<lparr>ap_index = 3, ap_term = 2, ap_result = None\<rparr>]\<rparr>"

lemma lossy18: "enc (2, [[10]]) = Inr b \<Longrightarrow> step (machine_of enc dec) ack3 leading3 = ok () (applied3 b)"
  by (simp add: lossy_evals behind3_def standing3_def granted3_def leading3_def append3_def entry_c_def ack3_def applied3_def compacted1_def)

section \<open>The cluster along the run\<close>

definition start_c :: "memory_machine cluster" where
  "start_c = \<lparr>replicas = [1 \<mapsto> fresh 1, 2 \<mapsto> fresh 2, 3 \<mapsto> fresh 3], net = {}, ballots = {}, reigns = {}\<rparr>"

lemma start_c_starts: "cluster_start (machine_of enc dec) demo_voters start_c"
proof -
  have new: "node_new (machine_of enc dec) (compacting i) memory_log_new memory_machine_new = Inr (fresh i)" if "i \<in> {1, 2, 3}" for i
  proof -
    have "config_validate (compacting i) = Inr ()"
      using demo_config_ok [OF that] by (simp add: config_validate_ok compacting_def with_snapshot_threshold_def)
    then show ?thesis by (simp add: node_new_def demo_seed_def lossy_evals)
  qed
  then have "\<exists>cfg m. cfg_id cfg = i \<and> initial_membership cfg = demo_voters \<and> node_new (machine_of enc dec) cfg memory_log_new m = Inr (fresh i)"
    if "i \<in> {1, 2, 3}" for i
    using that by (intro exI [of _ "compacting i"]) auto
  then show ?thesis
    by (auto simp: cluster_start_def start_c_def demo_voters_def split: if_splits)
qed

text \<open>
  Runs without a failure: no replica restarts, no input returns an error, and every message that is
  delivered was sent. What is left to chance is only when messages arrive and when clocks tick.
\<close>

inductive unfailing :: "'m state_machine \<Rightarrow> 'm cluster \<Rightarrow> 'm cluster \<Rightarrow> bool" for M c0 where
  begin_run: "unfailing M c0 c0"
| on_time: "unfailing M c0 c \<Longrightarrow> replicas c i = Some n \<Longrightarrow> tick M n = ok () n' \<Longrightarrow> unfailing M c0 (settle i n' c)"
| on_message: "unfailing M c0 c \<Longrightarrow> step M e n = ok () n' \<Longrightarrow> e \<in> net c \<Longrightarrow> env_to e = i \<Longrightarrow> replicas c i = Some n
    \<Longrightarrow> unfailing M c0 (settle i n' c)"
| on_command: "unfailing M c0 c \<Longrightarrow> replicas c i = Some n \<Longrightarrow> propose M cmd n = ok k n' \<Longrightarrow> unfailing M c0 (settle i n' c)"

lemmas on_time = unfailing.on_time
lemmas on_message = unfailing.on_message
lemmas on_command = unfailing.on_command

lemma unfailing_reachable: "unfailing M c0 c \<Longrightarrow> cluster_start M V c0 \<Longrightarrow> reachable M V c"
proof (induction rule: unfailing.induct)
  case begin_run
  then show ?case by (rule reachable.start)
next
  case (on_time c i n n')
  then show ?case using reachable.further [OF _ cluster_step.time, of M V c i n] by (simp add: ok_def)
next
  case (on_message c e n n' i)
  then show ?case using reachable.further [OF _ cluster_step.deliver, of M V c e n] by (simp add: ok_def)
next
  case (on_command c i n cmd k n')
  then show ?case using reachable.further [OF _ cluster_step.client, of M V c i n cmd] by (simp add: ok_def)
qed

text \<open>The run up to the two commits: the leader is elected, replicates two commands, and compacts after the first.\<close>

definition elected_c :: "memory_machine cluster" where
  "elected_c = settle 1 (leading1\<lparr>outbox := map (\<lambda>p. append_to p 0 0 [noop_entry] 0) [2, 3]\<rparr>)
     (settle 2 (voted2\<lparr>outbox := [vote_response]\<rparr>)
     (settle 1 (standing1\<lparr>outbox := map (\<lambda>p. vote_request\<lparr>env_to := p\<rparr>) [2, 3]\<rparr>) (settle 1 waiting1 start_c)))"

definition acked_c :: "memory_machine cluster" where
  "acked_c = settle 3 (behind3\<lparr>outbox := [ack 3 2]\<rparr>) (settle 2 (ahead2\<lparr>outbox := [ack 2 3]\<rparr>)
     (settle 1 (proposed2\<lparr>outbox := map (\<lambda>p. append_to p 0 0 [noop_entry, entry_a, entry_b] 0) [2, 3]\<rparr>)
     (settle 1 (proposed1\<lparr>outbox := map (\<lambda>p. append_to p 0 0 [noop_entry, entry_a] 0) [2, 3]\<rparr>) elected_c)))"

definition dropped_c :: "u8 list \<Rightarrow> memory_machine cluster" where
  "dropped_c b = settle 2 ((dropped2 b)\<lparr>outbox := [\<lparr>env_from = 2, env_to = 1, env_message = InstallSnapshotResponse 1 2\<rparr>]\<rparr>)
     (settle 1 (applied1 b) (settle 1 ((sending1 b)\<lparr>outbox := [install b, append_to 3 2 1 [entry_b] 2]\<rparr>)
     (settle 1 ((compacted1 b)\<lparr>outbox := [append_to 3 2 1 [entry_b] 2]\<rparr>) acked_c)))"

definition replaced_c :: "u8 list \<Rightarrow> memory_machine cluster" where
  "replaced_c b = settle 3 (applied3 b) (settle 2 ((replaced2 b)\<lparr>outbox := [ack3]\<rparr>)
     (settle 3 (leading3\<lparr>outbox := map append3 [1, 2]\<rparr>) (settle 2 ((granted2 b)\<lparr>outbox := [granted3]\<rparr>)
     (settle 3 (standing3\<lparr>outbox := map ask3 [1, 2]\<rparr>) (settle 3 (behind3\<lparr>election_elapsed := 1, ticks := 1\<rparr>) (dropped_c b))))))"

lemma quiet_nodes [simp]:
  "waiting1\<lparr>outbox := []\<rparr> = waiting1" "standing1\<lparr>outbox := []\<rparr> = standing1" "voted2\<lparr>outbox := []\<rparr> = voted2" "leading1\<lparr>outbox := []\<rparr> = leading1"
  "proposed1\<lparr>outbox := []\<rparr> = proposed1" "proposed2\<lparr>outbox := []\<rparr> = proposed2" "(compacted1 b)\<lparr>outbox := []\<rparr> = compacted1 b"
  "(sending1 b)\<lparr>outbox := []\<rparr> = sending1 b" "(applied1 b)\<lparr>outbox := []\<rparr> = applied1 b"
  by (simp_all add: lossy_evals compacted1_def sending1_def applied1_def)

lemma quiet_followers [simp]:
  "ahead2\<lparr>outbox := []\<rparr> = ahead2" "behind3\<lparr>outbox := []\<rparr> = behind3"
  "(dropped2 b)\<lparr>outbox := []\<rparr> = dropped2 b" "(granted2 b)\<lparr>outbox := []\<rparr> = granted2 b" "(replaced2 b)\<lparr>outbox := []\<rparr> = replaced2 b"
  "behind3\<lparr>election_elapsed := e, ticks := k, outbox := []\<rparr> = behind3\<lparr>election_elapsed := e, ticks := k\<rparr>"
  "standing3\<lparr>outbox := []\<rparr> = standing3" "leading3\<lparr>outbox := []\<rparr> = leading3" "(applied3 b)\<lparr>outbox := []\<rparr> = applied3 b"
  by (simp_all add: lossy_evals ahead2_def behind3_def dropped2_def granted2_def replaced2_def standing3_def leading3_def applied3_def)

lemma to_whom [simp]:
  "env_to (append_to p i t es lc) = p" "env_to (ack p i) = 1" "env_to (install b) = 2" "env_to (ask3 p) = p" "env_to granted3 = 3"
  "env_to (append3 p) = p" "env_to ack3 = 3" "env_to vote_request = 2" "env_to vote_response = 1" "vote_request\<lparr>env_to := 2\<rparr> = vote_request"
  by (simp_all add: append_to_def ack_def install_def ask3_def granted3_def append3_def ack3_def vote_request_def vote_response_def)

lemmas run_of = settle_fields start_c_def elected_c_def acked_c_def dropped_c_def replaced_c_def

lemma elected_c_runs: "unfailing (machine_of enc dec) start_c elected_c"
  unfolding elected_c_def
  by (rule on_message [OF on_message [OF on_time [OF on_time [OF unfailing.begin_run _ lossy1] _ lossy2] lossy3] lossy4]) (simp_all add: run_of)

lemma acked_c_runs: "unfailing (machine_of enc dec) start_c acked_c"
  unfolding acked_c_def
  by (rule on_message [OF on_message [OF on_command [OF on_command [OF elected_c_runs _ lossy5] _ lossy6] lossy7] lossy8]) (simp_all add: run_of)

lemma dropped_c_runs:
  assumes "enc (2, [[10]]) = Inr b" and "dec b = Inr (2, [[10]])"
  shows "unfailing (machine_of enc dec) start_c (dropped_c b)"
  unfolding dropped_c_def
  by (rule on_message [OF on_message [OF on_time [OF on_message [OF acked_c_runs lossy9 [where enc = enc, OF assms(1)]] _ lossy10] lossy11] lossy12 [where dec = dec, OF assms(2)]])
    (simp_all add: run_of)

lemma replaced_c_runs:
  assumes "enc (2, [[10]]) = Inr b" and "dec b = Inr (2, [[10]])"
  shows "unfailing (machine_of enc dec) start_c (replaced_c b)"
  unfolding replaced_c_def
  by (rule on_message [OF on_message [OF on_message [OF on_message [OF on_time [OF on_time [OF dropped_c_runs [where enc = enc and dec = dec, OF assms] _ lossy13]
      _ lossy14] lossy15] lossy16] lossy17] lossy18 [where enc = enc, OF assms(1)]])
    (simp_all add: run_of)

section \<open>A committed entry is lost\<close>

text \<open>
  C39: with compaction on, a committed and applied entry can be lost although nothing fails. For every
  snapshot codec that reads back what it wrote, three replicas that start with empty logs and empty
  machines have a run without a restart or an error in which the first leader applies the command
  11 as the third entry, of term 1, and a later leader applies another entry, of term 2, in its
  place: both have applied three entries, and their machines hold different commands. The three
  agreement theorems exclude this for replicas that never compact.
\<close>

theorem compaction_loses_committed:
  assumes "encode (2, [[10]]) = Inr b" and "decode b = Inr (2, [[10]])"
  shows "\<exists>c0 c m n. cluster_start (memory_state_machine encode decode) demo_voters c0
    \<and> (\<forall>i r. replicas c0 i = Some r \<longrightarrow> machine r = memory_machine_new \<and> last_applied r = 0 \<and> applied r = [])
    \<and> unfailing (memory_state_machine encode decode) c0 c \<and> replicas c 1 = Some m \<and> replicas c 3 = Some n
    \<and> last_applied m = 3 \<and> last (applied m) = \<lparr>ap_index = 3, ap_term = 1, ap_result = Some [11]\<rparr>
    \<and> last_applied n = 3 \<and> last (applied n) = \<lparr>ap_index = 3, ap_term = 2, ap_result = None\<rparr>
    \<and> mm_commands (machine m) = [[10], [11]] \<and> mm_commands (machine n) = [[10]]"
proof (intro exI conjI)
  show "cluster_start (memory_state_machine encode decode) demo_voters start_c" by (rule start_c_starts)
  show "\<forall>i r. replicas start_c i = Some r \<longrightarrow> machine r = memory_machine_new \<and> last_applied r = 0 \<and> applied r = []"
    by (auto simp: start_c_def fresh_def demo_node_def split: if_splits)
  show "unfailing (memory_state_machine encode decode) start_c (replaced_c b)"
    by (rule replaced_c_runs [where enc = encode and dec = decode, OF assms])
  show "replicas (replaced_c b) 1 = Some (applied1 b)" "replicas (replaced_c b) 3 = Some (applied3 b)" by (simp_all add: run_of)
qed (simp_all add: applied1_def applied3_def)

theorem compaction_loses_committed_witness:
  "\<exists>c0 c m n. cluster_start (memory_state_machine (\<lambda>x. Inr [2]) (\<lambda>b. Inr (2, [[10]]))) demo_voters c0
    \<and> unfailing (memory_state_machine (\<lambda>x. Inr [2]) (\<lambda>b. Inr (2, [[10]]))) c0 c \<and> replicas c 1 = Some m \<and> replicas c 3 = Some n
    \<and> last_applied m = 3 \<and> last_applied n = 3 \<and> mm_commands (machine m) = [[10], [11]] \<and> mm_commands (machine n) = [[10]]"
  using compaction_loses_committed [where b = "[2]" and encode = "\<lambda>x. Inr [2]" and decode = "\<lambda>b. Inr (2, [[10]])"] by simp blast

section \<open>An answer that claims too much\<close>

definition same_matches :: "'m raft_node \<Rightarrow> 'm raft_node \<Rightarrow> bool" where
  "same_matches n n' \<longleftrightarrow> matches n' = matches n"

interpretation sm: state_preorder same_matches
  by unfold_locales (auto simp: same_matches_def)

lemma send_append_matches: "same_matches n (snd (send_append p n))"
  by (auto simp: send_append_def send_snapshot_def Let_def same_matches_def matches_def fun_eq_iff send_def split: option.splits sum.splits)

lemma take_snapshot_matches: "same_matches n (snd (take_snapshot M n))"
  by (auto simp: take_snapshot_def Let_def same_matches_def lift_part_def ok_def err_def split: option.splits sum.splits prod.splits)

lemma apply_one_matches: "same_matches n (snd (apply_one M n))"
  by (auto simp: apply_one_def Let_def same_matches_def matches_def fun_eq_iff split: option.split entry_payload.split prod.split sum.split)

lemma apply_loop_matches: "same_matches n (snd (apply_loop fuel M n))"
  by (induction fuel arbitrary: n) (auto simp: sm.rel_refl intro!: sm.rel_try_then apply_one_matches intro: sm.rel_trans)

lemma apply_committed_matches: "same_matches n (snd (apply_committed M n))"
  unfolding apply_committed_def
  by (rule sm.rel_try_then [OF apply_loop_matches])
    (auto simp: maybe_compact_def Let_def intro: sm.rel_trans take_snapshot_matches)

text \<open>
  C40: a follower that already has what a snapshot covers answers with the last index of its log, and
  the leader counts that index as replicated, although the entries above the snapshot need not be
  the leader's. In the instance below the follower's second entry is from an earlier term than the
  leader's, and the answer makes the leader commit its own.
\<close>

theorem stale_snapshot_overclaims:
  assumes "node_role f = Follower" and "sm_last_index (snap_meta snap) \<le> commit_index f"
    and "node_role l = Leader" and "node_term l = node_term f" and "node_progress l p \<noteq> None"
  shows "\<exists>e. outbox (snd (handle_install_snapshot M q (InstallSnapshot t snap) f)) = outbox f @ [e]
    \<and> ml_last_index (log f) \<le> matches (snd (handle_install_snapshot_response M p (env_message e) l)) p"
proof -
  let ?i = "ml_last_index (log f)"
  let ?n = "note_contact p l"
  obtain x where x: "node_progress ?n p = Some x" using assms(5) by (auto simp: note_contact_def)
  have out: "outbox (snd (handle_install_snapshot M q (InstallSnapshot t snap) f)) =
      outbox f @ [\<lparr>env_from = node_id f, env_to = q, env_message = InstallSnapshotResponse (node_term f) ?i\<rparr>]"
    using assms(1,2) by (simp add: is_campaigning_def reset_election_timer_def Let_def send_def envelope_new_def split: prod.split)
  define k where "k = ?n\<lparr>node_progress := (node_progress ?n)(p \<mapsto> x\<lparr>snapshot_in_flight := False, match_index := max ?i (match_index x),
    next_index := max (index_next (max ?i (match_index x))) index_first\<rparr>)\<rparr>"
  have "snd (handle_install_snapshot_response M p (InstallSnapshotResponse (node_term f) ?i) l) =
      snd (try_then (apply_committed M (maybe_advance_commit k)) (\<lambda>_. send_append p))"
    using assms(3,4) x by (auto simp: k_def Let_def max_def)
  moreover have "same_matches (maybe_advance_commit k) (snd (try_then (apply_committed M (maybe_advance_commit k)) (\<lambda>_. send_append p)))"
    by (rule sm.rel_try_then [OF apply_committed_matches]) (blast intro: sm.rel_trans send_append_matches)
  moreover have "?i \<le> matches k p" by (simp add: k_def matches_def)
  ultimately show ?thesis using out by (auto simp: same_matches_def)
qed

definition diverged2 :: "memory_machine raft_node" where
  "diverged2 = (demo_node 2)\<lparr>hard := \<lparr>hs_term = 2, hs_voted_for = None\<rparr>,
     log := \<lparr>ml_hard = \<lparr>hs_term = 2, hs_voted_for = None\<rparr>, ml_held = [noop_entry, entry_a], ml_snap = None\<rparr>,
     commit_index := 1, last_applied := 1\<rparr>"

definition other_entry :: log_entry where
  "other_entry = \<lparr>le_term = 2, le_index = 2, le_payload = Noop\<rparr>"

definition first_snapshot_of :: snapshot where
  "first_snapshot_of = \<lparr>snap_meta = snapshot_meta_new 1 1 demo_voters, snap_data = []\<rparr>"

definition ahead3 :: "memory_machine raft_node" where
  "ahead3 = (demo_node 3)\<lparr>node_role := Leader, hard := \<lparr>hs_term = 2, hs_voted_for = Some 3\<rparr>,
     log := \<lparr>ml_hard = \<lparr>hs_term = 2, hs_voted_for = Some 3\<rparr>, ml_held = [other_entry], ml_snap = Some first_snapshot_of\<rparr>,
     commit_index := 1, last_applied := 1, node_progress := [1 \<mapsto> peer_progress 1 0, 2 \<mapsto> peer_progress 1 0, 3 \<mapsto> peer_progress 3 2]\<rparr>"

theorem stale_snapshot_overclaims_witness:
  "ml_entry (log diverged2) 2 = Some entry_a \<and> ml_entry (log ahead3) 2 = Some other_entry
    \<and> (\<exists>e. outbox (snd (handle_install_snapshot demo_machine 3 (InstallSnapshot 2 first_snapshot_of) diverged2)) = [e]
        \<and> 2 \<le> matches (snd (handle_install_snapshot_response demo_machine 2 (env_message e) ahead3)) 2)
    \<and> commit_index (snd (handle_install_snapshot_response demo_machine 2 (InstallSnapshotResponse 2 2) ahead3)) = 2"
proof -
  note d = diverged2_def ahead3_def other_entry_def first_snapshot_of_def
  have "\<exists>e. outbox (snd (handle_install_snapshot demo_machine 3 (InstallSnapshot 2 first_snapshot_of) diverged2)) = outbox diverged2 @ [e]
        \<and> ml_last_index (log diverged2) \<le> matches (snd (handle_install_snapshot_response demo_machine 2 (env_message e) ahead3)) 2"
    by (rule stale_snapshot_overclaims) (simp_all add: d demo_node_def snapshot_meta_new_def)
  moreover have "outbox diverged2 = []" "ml_last_index (log diverged2) = 2"
    by (simp_all add: d demo_node_def ml_last_index_def entry_a_def)
  moreover have "ml_entry (log diverged2) 2 = Some entry_a" "ml_entry (log ahead3) 2 = Some other_entry"
    by (simp_all add: d entry_a_def node_evals)
  moreover have "commit_index (snd (handle_install_snapshot_response demo_machine 2 (InstallSnapshotResponse 2 2) ahead3)) = 2"
    by (simp add: d lossy_evals)
  ultimately show ?thesis by simp
qed

end
