(* ===== verification/Raft_Departures.thy ===== *)
theory Raft_Departures
  imports Raft_Compaction Raft_Behaviour
begin

text \<open>
  Three behaviours that differ from what the comments of the code promise, each stated for every
  replica in the situation it needs: the commit index of a follower that is sent an old append once
  more, the configuration a snapshot stores when a change is not committed yet, and the vote of a
  replica in the largest term. The first comes with a run without failures that leads to it.
\<close>

section \<open>What applying leaves alone\<close>

lemma apply_loop_leaves:
  "commit_index (snd (apply_loop k M n)) = commit_index n \<and> node_membership (snd (apply_loop k M n)) = node_membership n
   \<and> log (snd (apply_loop k M n)) = log n"
proof (induction k arbitrary: n)
  case (Suc k)
  have "commit_index (snd (apply_one M n)) = commit_index n \<and> node_membership (snd (apply_one M n)) = node_membership n
      \<and> log (snd (apply_one M n)) = log n"
    by (auto simp: apply_one_def Let_def split: option.split entry_payload.split prod.split sum.split)
  then show ?case
    using Suc.IH [of "snd (apply_one M n)"]
    by (cases "apply_one M n"; cases "fst (apply_one M n)") (auto simp: try_then_def ok_def err_def)
qed simp

lemma maybe_compact_shrinks: "set (ml_held (log (snd (maybe_compact M n)))) \<subseteq> set (ml_held (log n))"
  by (auto simp: maybe_compact_def take_snapshot_def Let_def lift_part_def ml_save_snapshot_def ok_def err_def
      split: option.splits sum.splits if_splits)

lemma apply_committed_leaves:
  "commit_index (snd (apply_committed M n)) = commit_index n"
  "node_membership (snd (apply_committed M n)) = node_membership n"
  "set (ml_held (log (snd (apply_committed M n)))) \<subseteq> set (ml_held (log n))"
proof -
  let ?l = "apply_loop (commit_index n - last_applied n) M n"
  obtain r s where l: "?l = (r, s)" by (cases ?l)
  have s: "commit_index s = commit_index n" "node_membership s = node_membership n" "log s = log n"
    using apply_loop_leaves [of "commit_index n - last_applied n" M n] l by simp_all
  obtain q l' where c: "maybe_compact M s = (q, s\<lparr>log := l'\<rparr>)" using maybe_compact_log [of M s] by blast
  have held: "set (ml_held l') \<subseteq> set (ml_held (log n))" using maybe_compact_shrinks [of M s] c s by simp
  show "commit_index (snd (apply_committed M n)) = commit_index n"
      "node_membership (snd (apply_committed M n)) = node_membership n"
      "set (ml_held (log (snd (apply_committed M n)))) \<subseteq> set (ml_held (log n))"
    using l s c held by (auto simp: apply_committed_def try_then_def err_def split: sum.splits)
qed

lemma apply_committed_done:
  assumes "commit_index n \<le> last_applied n"
  shows "last_applied (snd (apply_committed M n)) = last_applied n"
  using assms maybe_compact_log [of M n] by (auto simp: apply_committed_def try_then_def ok_def)

section \<open>The commit index\<close>

lemma merge_scan_held:
  "(\<And>x. x \<in> set es \<Longrightarrow> ml_term_at l (le_index x) = Some (le_term x)) \<Longrightarrow> merge_scan l es = (length es, None)"
  by (induction es) auto

lemma merge_entries_held:
  "(\<And>x. x \<in> set es \<Longrightarrow> ml_term_at (log n) (le_index x) = Some (le_term x)) \<Longrightarrow> merge_entries es n = ok () n"
  by (simp add: merge_entries_def merge_scan_held)

text \<open>
  C33: the commit index of a follower goes back when an append that is behind it arrives once more.
  Every entry of the append is already in the log and the last one lies below the follower's commit
  index, but the leader had committed more when it sent it: the commit index becomes the index of
  that last entry. The applied index stays, so the follower is then applied past its commit index.
\<close>

theorem commit_index_can_go_back:
  assumes "env_to e = node_id n" and "env_message e = AppendEntries (node_term n) prev pt es lc"
    and "node_role n = Follower" and "ml_first_index (log n) \<le> Suc prev" and "prev \<le> ml_last_index (log n)"
    and "ml_term_at (log n) prev = Some pt"
    and "\<And>x. x \<in> set es \<Longrightarrow> ml_term_at (log n) (le_index x) = Some (le_term x)"
    and "prev + length es < commit_index n" and "commit_index n < lc" and "lc \<le> u64_max"
    and "last_applied n = commit_index n"
  shows "commit_index (snd (step M e n)) = prev + length es
    \<and> commit_index (snd (step M e n)) < commit_index n
    \<and> last_applied (snd (step M e n)) = commit_index n"
proof -
  let ?q = "env_from e"
  let ?n = "reset_election_timer (n\<lparr>leader := Some ?q\<rparr>)"
  let ?m = "?n\<lparr>commit_index := prev + length es\<rparr>"
  have log: "log ?n = log n" "last_applied ?n = last_applied n" by (simp_all add: reset_election_timer_def split: prod.split)
  have bound: "\<not> prev < index_previous (ml_first_index (log n))" "\<not> ml_last_index (log n) < prev"
    using assms(4,5) by (auto simp: index_previous_def sat_sub_def)
  have last_new: "index_saturating_add prev (length es) = prev + length es" "min lc (prev + length es) = prev + length es"
    using assms(8-10) by (auto simp: index_saturating_add_def sat_add_def)
  have "snd (step M e n) = snd (try_then (apply_committed M ?m)
      (\<lambda>_ n. ok () (send ?q (AppendEntriesResponse (node_term n) True (prev + length es) index_zero term_initial) n)))"
    using assms(1-3,6,9) bound merge_entries_held [of es ?n] assms(7) last_new
    by (simp add: step_def Let_def is_stale_against_def rejects_def dispatch_def is_campaigning_def log)
  moreover have "commit_index (snd (apply_committed M ?m)) = prev + length es"
      "last_applied (snd (apply_committed M ?m)) = commit_index n"
    using apply_committed_leaves(1) [of M ?m] apply_committed_done [of ?m M] assms(8,11) log by simp_all
  ultimately show ?thesis
    using assms(8) by (auto simp: try_then_def send_def ok_def err_def split: prod.splits sum.splits)
qed

text \<open>
  A run that leads there. Three replicas send one entry per append. The leader commits three entries
  with the second replica while the third one is behind, sends the third one the first entry and then
  the second; the network delivers the first append twice.
\<close>

definition trickling :: "peer_id \<Rightarrow> raft_config" where
  "trickling i = (demo_config i)\<lparr>max_entries_per_append := 1\<rparr>"

lemma trickling_fields [simp]:
  "cfg_id (trickling i) = i" "election_timeout_ticks (trickling i) = 2"
  "election_jitter_ticks (trickling i) = 0" "heartbeat_ticks (trickling i) = 1"
  "pre_vote (trickling i) = False" "max_entries_per_append (trickling i) = 1"
  "snapshot_threshold (trickling i) = 0" "initial_membership (trickling i) = demo_voters" "cfg_seed (trickling i) = cfg_seed (demo_config i)"
  by (simp_all add: trickling_def initial_membership_def) (simp add: demo_config_fields [unfolded initial_membership_def])

definition trickle :: "peer_id \<Rightarrow> memory_machine raft_node \<Rightarrow> memory_machine raft_node" where
  "trickle i n = n\<lparr>config := trickling i\<rparr>"

definition reports :: "nat \<Rightarrow> applied_entry list" where
  "reports k = take k [\<lparr>ap_index = 1, ap_term = 1, ap_result = None\<rparr>, \<lparr>ap_index = 2, ap_term = 1, ap_result = Some [10]\<rparr>,
     \<lparr>ap_index = 3, ap_term = 1, ap_result = Some [11]\<rparr>]"

definition machine_at :: "nat \<Rightarrow> memory_machine" where
  "machine_at k = (if k < 2 then memory_machine_new else \<lparr>mm_commands = take (k - 1) [[10], [11]], mm_last_applied = k\<rparr>)"

text \<open>The leader after \<open>k\<close> acknowledgements of the second replica, and the second replica after \<open>k\<close> appends.\<close>

definition pacing1 :: "nat \<Rightarrow> memory_machine raft_node" where
  "pacing1 k = (trickle 1 proposed2)\<lparr>commit_index := k, last_applied := k, machine := machine_at k, applied := reports k,
     node_progress := (node_progress proposed2)(2 \<mapsto> peer_progress (Suc k) k)\<rparr>"

definition keeping2 :: "nat \<Rightarrow> memory_machine raft_node" where
  "keeping2 k = (trickle 2 voted2)\<lparr>leader := Some 1, log := (log voted2)\<lparr>ml_held := take k [noop_entry, entry_a, entry_b]\<rparr>,
     node_rng := ((\<lambda>r. snd (next_u64 r)) ^^ k) (node_rng voted2), commit_index := k - 1, last_applied := k - 1,
     machine := machine_at (k - 1), applied := reports (k - 1)\<rparr>"

definition lagging3 :: "nat \<Rightarrow> memory_machine raft_node" where
  "lagging3 k = (trickle 3 (fresh 3))\<lparr>leader := Some 1, hard := \<lparr>hs_term = 1, hs_voted_for = None\<rparr>,
     log := \<lparr>ml_hard = \<lparr>hs_term = 1, hs_voted_for = None\<rparr>, ml_held = take k [noop_entry, entry_a, entry_b], ml_snap = None\<rparr>,
     node_rng := ((\<lambda>r. snd (next_u64 r)) ^^ Suc k) (demo_seed 3), commit_index := k, last_applied := k,
     machine := machine_at k, applied := reports k\<rparr>"

definition beating1 :: "nat \<Rightarrow> memory_machine raft_node" where
  "beating1 k = (pacing1 3)\<lparr>election_elapsed := 1, ticks := 3,
     node_progress := (if k = 0 then node_progress (pacing1 3) else (node_progress (pacing1 3))(3 \<mapsto> (peer_progress (Suc k) k)\<lparr>last_contact := 3\<rparr>))\<rparr>"

lemma funpow_of_numeral: "(f ^^ numeral k) x = f ((f ^^ pred_numeral k) x)"
  by (simp add: numeral_eq_Suc)

lemmas pace_evals = funpow_of_numeral trickle_def reports_def machine_at_def pacing1_def keeping2_def lagging3_def beating1_def append_to_def ack_def lossy_evals

lemma paced1: "tick demo_machine (trickle 1 (fresh 1)) = ok () (trickle 1 waiting1)"
  by (simp add: pace_evals)

lemma paced2: "tick demo_machine (trickle 1 waiting1) = ok () ((trickle 1 standing1)\<lparr>outbox := map (\<lambda>p. vote_request\<lparr>env_to := p\<rparr>) [2, 3]\<rparr>)"
  by (simp add: pace_evals)

lemma paced3: "step demo_machine vote_request (trickle 2 (fresh 2)) = ok () ((trickle 2 voted2)\<lparr>outbox := [vote_response]\<rparr>)"
  by (simp add: pace_evals)

lemma paced4:
  "step demo_machine vote_response (trickle 1 standing1) = ok () ((trickle 1 leading1)\<lparr>outbox := map (\<lambda>p. append_to p 0 0 [noop_entry] 0) [2, 3]\<rparr>)"
  by (simp add: pace_evals)

lemma paced5:
  "propose demo_machine [10] (trickle 1 leading1) = ok 2 ((trickle 1 proposed1)\<lparr>outbox := map (\<lambda>p. append_to p 0 0 [noop_entry] 0) [2, 3]\<rparr>)"
  by (simp add: pace_evals)

lemma paced6:
  "propose demo_machine [11] (trickle 1 proposed1) = ok 3 ((trickle 1 proposed2)\<lparr>outbox := map (\<lambda>p. append_to p 0 0 [noop_entry] 0) [2, 3]\<rparr>)"
  by (simp add: pace_evals)

lemma paced7: "step demo_machine (append_to 2 0 0 [noop_entry] 0) (trickle 2 voted2) = ok () ((keeping2 1)\<lparr>outbox := [ack 2 1]\<rparr>)"
  by (simp add: pace_evals)

lemma paced8: "step demo_machine (ack 2 1) (trickle 1 proposed2) = ok () ((pacing1 1)\<lparr>outbox := [append_to 2 1 1 [entry_a] 1]\<rparr>)"
  by (simp add: pace_evals)

lemma paced9: "step demo_machine (append_to 2 1 1 [entry_a] 1) (keeping2 1) = ok () ((keeping2 2)\<lparr>outbox := [ack 2 2]\<rparr>)"
  by (simp add: pace_evals)

lemma paced10: "step demo_machine (ack 2 2) (pacing1 1) = ok () ((pacing1 2)\<lparr>outbox := [append_to 2 2 1 [entry_b] 2]\<rparr>)"
  by (simp add: pace_evals)

lemma paced11: "step demo_machine (append_to 2 2 1 [entry_b] 2) (keeping2 2) = ok () ((keeping2 3)\<lparr>outbox := [ack 2 3]\<rparr>)"
  by (simp add: pace_evals)

lemma paced12: "step demo_machine (ack 2 3) (pacing1 2) = ok () (pacing1 3)"
  by (simp add: pace_evals)

lemma paced13: "tick demo_machine (pacing1 3) = ok () ((beating1 0)\<lparr>outbox := [append_to 2 3 1 [] 3, append_to 3 0 0 [noop_entry] 3]\<rparr>)"
  by (simp add: pace_evals)

lemma paced14: "step demo_machine (append_to 3 0 0 [noop_entry] 3) (trickle 3 (fresh 3)) = ok () ((lagging3 1)\<lparr>outbox := [ack 3 1]\<rparr>)"
  by (simp add: pace_evals)

lemma paced15: "step demo_machine (ack 3 1) (beating1 0) = ok () ((beating1 1)\<lparr>outbox := [append_to 3 1 1 [entry_a] 3]\<rparr>)"
  by (simp add: pace_evals)

lemma paced16: "step demo_machine (append_to 3 1 1 [entry_a] 3) (lagging3 1) = ok () ((lagging3 2)\<lparr>outbox := [ack 3 2]\<rparr>)"
  by (simp add: pace_evals)

definition start_p :: "memory_machine cluster" where
  "start_p = \<lparr>replicas = [1 \<mapsto> trickle 1 (fresh 1), 2 \<mapsto> trickle 2 (fresh 2), 3 \<mapsto> trickle 3 (fresh 3)], net = {}, ballots = {}, reigns = {}\<rparr>"

lemma start_p_starts: "cluster_start demo_machine demo_voters start_p"
proof -
  have "node_new demo_machine (trickling i) memory_log_new memory_machine_new = Inr (trickle i (fresh i))" if "i \<in> {1, 2, 3}" for i
  proof -
    have "config_validate (trickling i) = Inr ()"
      using demo_config_ok [OF that] by (simp add: config_validate_ok trickling_def)
    then show ?thesis by (simp add: node_new_def demo_seed_def pace_evals)
  qed
  then have "\<exists>cfg m. cfg_id cfg = i \<and> initial_membership cfg = demo_voters \<and> node_new demo_machine cfg memory_log_new m = Inr (trickle i (fresh i))"
    if "i \<in> {1, 2, 3}" for i
    using that by (intro exI [of _ "trickling i"]) auto
  then show ?thesis
    by (auto simp: cluster_start_def start_p_def demo_voters_def split: if_splits)
qed

definition chosen_p :: "memory_machine cluster" where
  "chosen_p = settle 1 ((trickle 1 proposed2)\<lparr>outbox := map (\<lambda>p. append_to p 0 0 [noop_entry] 0) [2, 3]\<rparr>)
     (settle 1 ((trickle 1 proposed1)\<lparr>outbox := map (\<lambda>p. append_to p 0 0 [noop_entry] 0) [2, 3]\<rparr>)
     (settle 1 ((trickle 1 leading1)\<lparr>outbox := map (\<lambda>p. append_to p 0 0 [noop_entry] 0) [2, 3]\<rparr>)
     (settle 2 ((trickle 2 voted2)\<lparr>outbox := [vote_response]\<rparr>)
     (settle 1 ((trickle 1 standing1)\<lparr>outbox := map (\<lambda>p. vote_request\<lparr>env_to := p\<rparr>) [2, 3]\<rparr>) (settle 1 (trickle 1 waiting1) start_p)))))"

definition agreed_p :: "memory_machine cluster" where
  "agreed_p = settle 1 (pacing1 3) (settle 2 ((keeping2 3)\<lparr>outbox := [ack 2 3]\<rparr>)
     (settle 1 ((pacing1 2)\<lparr>outbox := [append_to 2 2 1 [entry_b] 2]\<rparr>) (settle 2 ((keeping2 2)\<lparr>outbox := [ack 2 2]\<rparr>)
     (settle 1 ((pacing1 1)\<lparr>outbox := [append_to 2 1 1 [entry_a] 1]\<rparr>) (settle 2 ((keeping2 1)\<lparr>outbox := [ack 2 1]\<rparr>) chosen_p)))))"

definition lagging_p :: "memory_machine cluster" where
  "lagging_p = settle 3 ((lagging3 2)\<lparr>outbox := [ack 3 2]\<rparr>) (settle 1 ((beating1 1)\<lparr>outbox := [append_to 3 1 1 [entry_a] 3]\<rparr>)
     (settle 3 ((lagging3 1)\<lparr>outbox := [ack 3 1]\<rparr>)
     (settle 1 ((beating1 0)\<lparr>outbox := [append_to 2 3 1 [] 3, append_to 3 0 0 [noop_entry] 3]\<rparr>) agreed_p)))"

lemma quiet_paced [simp]:
  "(trickle i n)\<lparr>outbox := []\<rparr> = trickle i (n\<lparr>outbox := []\<rparr>)"
  "(pacing1 k)\<lparr>outbox := []\<rparr> = pacing1 k" "(keeping2 k)\<lparr>outbox := []\<rparr> = keeping2 k"
  "(beating1 k)\<lparr>outbox := []\<rparr> = beating1 k" "(lagging3 k)\<lparr>outbox := []\<rparr> = lagging3 k"
  by (simp_all add: trickle_def pacing1_def keeping2_def beating1_def lagging3_def voted2_def standing1_def
      leading1_def proposed2_def fresh_def demo_node_def)

lemmas pace_of = settle_fields start_p_def chosen_p_def agreed_p_def lagging_p_def

lemma chosen_p_runs: "unfailing demo_machine start_p chosen_p"
  unfolding chosen_p_def
  by (rule on_command [OF on_command [OF on_message [OF on_message [OF on_time [OF on_time [OF unfailing.begin_run _ paced1] _ paced2] paced3] paced4]
      _ paced5] _ paced6]) (simp_all add: pace_of)

lemma agreed_p_runs: "unfailing demo_machine start_p agreed_p"
  unfolding agreed_p_def
  by (rule on_message [OF on_message [OF on_message [OF on_message [OF on_message [OF on_message [OF chosen_p_runs
      paced7] paced8] paced9] paced10] paced11] paced12]) (simp_all add: pace_of)

lemma lagging_p_runs: "unfailing demo_machine start_p lagging_p"
  unfolding lagging_p_def
  by (rule on_message [OF on_message [OF on_message [OF on_time [OF agreed_p_runs _ paced13] paced14] paced15] paced16])
    (simp_all add: pace_of)

theorem commit_index_can_go_back_witness:
  "cluster_start demo_machine demo_voters start_p
   \<and> (\<exists>c n e. unfailing demo_machine start_p c \<and> replicas c 3 = Some n \<and> e \<in> net c \<and> env_to e = 3
        \<and> commit_index n = 2 \<and> commit_index (snd (step demo_machine e n)) = 1 \<and> last_applied (snd (step demo_machine e n)) = 2)"
proof -
  let ?n = "lagging3 2" let ?e = "append_to 3 0 0 [noop_entry] 3"
  have n: "node_term ?n = 1" "node_role ?n = Follower" "node_id ?n = 3" "commit_index ?n = 2" "last_applied ?n = 2"
      "ml_held (log ?n) = [noop_entry, entry_a]" "ml_snap (log ?n) = None"
    by (simp_all add: lagging3_def trickle_def fresh_def demo_node_def)
  have "numbered [noop_entry, entry_a]"
    by (simp add: numbered_def noop_entry_def entry_a_def All_less_Suc numeral_2_eq_2)
  then have plain: "plain_log (log ?n)" by (simp add: plain_log_def n u64_max_eq)
  have "commit_index (snd (step demo_machine ?e ?n)) = 1 \<and> last_applied (snd (step demo_machine ?e ?n)) = 2"
    using commit_index_can_go_back [of ?e ?n 0 0 "[noop_entry]" 3 demo_machine] plain plain_term_at [OF plain]
    by (simp add: append_to_def n u64_max_eq term_before_def noop_entry_def)
  moreover have "replicas lagging_p 3 = Some ?n" "?e \<in> net lagging_p" by (simp_all add: pace_of)
  ultimately show ?thesis using start_p_starts lagging_p_runs n(4) to_whom(1) by blast
qed

section \<open>The configuration of a snapshot\<close>

lemma hard_apart [simp]:
  "ml_first_index (l\<lparr>ml_hard := h\<rparr>) = ml_first_index l" "ml_last_index (l\<lparr>ml_hard := h\<rparr>) = ml_last_index l"
  "ml_entry (l\<lparr>ml_hard := h\<rparr>) i = ml_entry l i" "ml_term_at (l\<lparr>ml_hard := h\<rparr>) i = ml_term_at l i"
  "log_inv (l\<lparr>ml_hard := h\<rparr>) = log_inv l" "ml_snapshot_meta (l\<lparr>ml_hard := h\<rparr>) = ml_snapshot_meta l"
proof -
  show first: "ml_first_index (l\<lparr>ml_hard := h\<rparr>) = ml_first_index l" by (simp add: ml_first_index_def)
  show "ml_last_index (l\<lparr>ml_hard := h\<rparr>) = ml_last_index l" by (simp add: ml_last_index_def)
  show entry: "ml_entry (l\<lparr>ml_hard := h\<rparr>) i = ml_entry l i" for i by (simp add: ml_entry_def ml_position_def first Let_def)
  show "ml_term_at (l\<lparr>ml_hard := h\<rparr>) i = ml_term_at l i" by (simp add: ml_term_at_def entry split: option.split)
  show "log_inv (l\<lparr>ml_hard := h\<rparr>) = log_inv l" by (simp add: log_inv_def log_wf_def log_fits_def first)
  show "ml_snapshot_meta (l\<lparr>ml_hard := h\<rparr>) = ml_snapshot_meta l" by (simp add: ml_snapshot_meta_def)
qed

definition no_change_below :: "memory_log \<Rightarrow> log_index \<Rightarrow> bool" where
  "no_change_below l i \<longleftrightarrow> (\<forall>j < i. \<forall>y. ml_entry l j = Some y \<longrightarrow> \<not> is_config y)"

lemma static_by_index:
  assumes "log_inv l" and "\<And>j y. ml_entry l j = Some y \<Longrightarrow> \<not> is_config y"
  shows "static_entries (ml_held l)"
proof -
  have "\<not> is_config (ml_held l ! k)" if "k < length (ml_held l)" for k
  proof (rule assms(2))
    show "ml_entry l (ml_first_index l + k) = Some (ml_held l ! k)"
      using that by (simp add: ml_entry_def ml_position_def distance_to_def sat_sub_def)
  qed
  then show ?thesis by (simp add: static_entries_def list_all_length)
qed

lemma replace_conflicting:
  assumes inv: "log_inv (log n)" and lo: "ml_first_index (log n) \<le> i" and hi: "i \<le> ml_last_index (log n)"
    and conflict: "ml_term_at (log n) i = Some u" "u \<noteq> le_term x" and x: "le_index x = i" "\<not> is_config x"
    and quiet: "no_change_below (log n) i"
  shows "\<exists>n'. merge_entries [x] n = ok () n' \<and> static_entries (ml_held (log n'))
    \<and> node_membership n' = (case ml_snapshot_meta (log n) of Some meta \<Rightarrow> sm_membership meta | None \<Rightarrow> initial_membership (config n))"
proof -
  have i: "0 < i" "i < u64_max"
    using lo hi ml_first_index_pos [OF inv] ml_last_index_bound [OF inv] by auto
  have scan: "merge_scan (log n) [x] = (0, Some i)" using conflict x by simp
  obtain l1 l2 where l: "ml_truncate_from i (log n) = Inr l1" "ml_append [x] l1 = Inr l2" "log_inv l2"
      "merged (log n) (i - 1) [x] 0 l2"
    using merge_log [OF inv _ _ _ _ scan, of "i - 1"] lo hi i x by (auto simp: le_diff_conv)
  have snap: "ml_snap l2 = ml_snap (log n)"
    using l(1,2) by (auto simp: ml_truncate_from_def ml_append_def Let_def split: if_splits option.splits sum.splits)
  have static: "static_entries (ml_held l2)"
  proof (rule static_by_index [OF l(3)])
    show "\<not> is_config y" if "ml_entry l2 j = Some y" for j y
    proof (cases "j < i")
      case True
      then have "j \<le> i - 1" by simp
      with that l(4) quiet True show ?thesis by (auto simp: merged_def no_change_below_def)
    next
      case False
      with that l(4) i x show ?thesis by (auto simp: merged_def split: if_splits)
    qed
  qed
  have held: "static_entries es" if "ml_entries l2 a b = Inr es" for a b es
    using that static by (auto simp: ml_entries_def Let_def static_entries_def list_all_iff
        dest!: in_set_takeD in_set_dropD split: if_splits option.splits)
  obtain n' where n': "recompute_membership (n\<lparr>log := l2\<rparr>) = ok () n'"
    using recompute_membership_total [of "n\<lparr>log := l2\<rparr>"] by auto
  then have "node_membership n' = (case ml_snapshot_meta (log n) of Some meta \<Rightarrow> sm_membership meta | None \<Rightarrow> initial_membership (config n))"
      "log n' = l2"
    using held by (auto simp: recompute_membership_def Let_def ok_def err_def from_entries_static ml_snapshot_meta_def snap
        split: sum.splits option.split)
  moreover have "merge_entries [x] n = ok () n'"
    using scan l(1,2) n' by (simp add: merge_entries_def lift_part_def)
  ultimately show ?thesis using static by blast
qed

lemma deposing_append:
  assumes "env_to e = node_id n" and "env_message e = AppendEntries t prev pt es lc" and "node_term n < t"
    and "ml_first_index (log n) \<le> Suc prev" and "prev \<le> ml_last_index (log n)" and "ml_term_at (log n) prev = Some pt"
    and "merge_entries es (reset_election_timer ((become_follower t (Some (env_from e)) n)\<lparr>leader := Some (env_from e)\<rparr>)) = ok () n'"
  shows "node_membership (snd (step M e n)) = node_membership n' \<and> set (ml_held (log (snd (step M e n)))) \<subseteq> set (ml_held (log n'))"
proof -
  let ?f = "become_follower t (Some (env_from e)) n"
  let ?new = "index_saturating_add prev (length es)"
  have f: "node_role ?f = Follower" "node_term ?f = t" "log ?f = (log n)\<lparr>ml_hard := \<lparr>hs_term = t, hs_voted_for = None\<rparr>\<rparr>"
    using assms(3) by (simp_all add: become_follower_store become_follower_hard)
  have log: "log (reset_election_timer (?f\<lparr>leader := Some (env_from e)\<rparr>)) = log ?f"
    by (simp add: reset_election_timer_def split: prod.split)
  have bound: "\<not> prev < index_previous (ml_first_index (log n))" "\<not> ml_last_index (log n) < prev"
    using assms(4,5) by (auto simp: index_previous_def sat_sub_def)
  have "step M e n = try_then (if lc > commit_index n' then apply_committed M (n'\<lparr>commit_index := min lc ?new\<rparr>) else ok () n')
      (\<lambda>_ n. ok () (send (env_from e) (AppendEntriesResponse (node_term n) True ?new index_zero term_initial) n))"
    using assms(1-3,6,7) bound
    by (simp add: step_def Let_def is_stale_against_def rejects_def dispatch_def is_campaigning_def f log)
  then show ?thesis
    using apply_committed_leaves(2,3) [of M "n'\<lparr>commit_index := min lc ?new\<rparr>"]
    by (auto simp: try_then_def send_def ok_def err_def split: prod.splits sum.splits)
qed

lemma replace_by_step:
  assumes "log_inv (log n)" and "ml_first_index (log n) \<le> i" and "i \<le> ml_last_index (log n)"
    and "ml_term_at (log n) i = Some u" "u \<noteq> le_term x" and "le_index x = i" "\<not> is_config x" and "no_change_below (log n) i"
    and "env_to e = node_id n" and "env_message e = AppendEntries t (i - 1) pt [x] lc" and "node_term n < t"
    and "ml_term_at (log n) (i - 1) = Some pt"
  shows "node_membership (snd (step M e n)) = (case ml_snapshot_meta (log n) of Some meta \<Rightarrow> sm_membership meta | None \<Rightarrow> initial_membership (config n))
    \<and> static_entries (ml_held (log (snd (step M e n))))"
proof -
  let ?n = "reset_election_timer ((become_follower t (Some (env_from e)) n)\<lparr>leader := Some (env_from e)\<rparr>)"
  have n: "log ?n = (log n)\<lparr>ml_hard := \<lparr>hs_term = t, hs_voted_for = None\<rparr>\<rparr>" "config ?n = config n"
    using assms(11) become_follower_store [of t "Some (env_from e)" n]
    by (simp_all add: reset_election_timer_def become_follower_log split: prod.split)
  obtain n' where n': "merge_entries [x] ?n = ok () n'" "static_entries (ml_held (log n'))"
      "node_membership n' = (case ml_snapshot_meta (log n) of Some meta \<Rightarrow> sm_membership meta | None \<Rightarrow> initial_membership (config n))"
    using replace_conflicting [of ?n i u x, unfolded n] assms(1-8) by (auto simp: no_change_below_def)
  have "0 < i" using assms(2) ml_first_index_pos [OF assms(1)] by simp
  with deposing_append [OF assms(9-11) _ _ assms(12) n'(1), of M] assms(2,3) n'(2,3) show ?thesis
    by (auto simp: static_entries_def list_all_iff le_diff_conv)
qed

text \<open>The log store a successful first snapshot leaves: the entries above the applied index, and the present configuration.\<close>

lemma first_snapshot_log:
  assumes plain: "plain_log (log n)" and la: "0 < last_applied n" "last_applied n \<le> length (ml_held (log n))"
    and ok: "take_snapshot M n = (Inr (), n1)"
  shows "\<exists>l. n1 = n\<lparr>log := l\<rparr> \<and> log_inv l \<and> ml_first_index l = Suc (last_applied n) \<and> ml_last_index l = ml_last_index (log n)
    \<and> (\<forall>i > last_applied n. ml_entry l i = ml_entry (log n) i) \<and> (\<forall>i \<ge> last_applied n. ml_term_at l i = ml_term_at (log n) i)
    \<and> ml_snapshot_meta l = Some (snapshot_meta_new (last_applied n) (term_before (ml_held (log n)) (last_applied n)) (node_membership n))"
proof -
  let ?b = "last_applied n" let ?t = "term_before (ml_held (log n)) ?b"
  have t: "ml_term_at (log n) ?b = Some ?t" using plain_term_at [OF plain] la by simp
  obtain bytes l where n1: "n1 = n\<lparr>log := l\<rparr>"
      and s: "ml_save_snapshot \<lparr>snap_meta = snapshot_meta_new ?b ?t (node_membership n), snap_data = bytes\<rparr> (log n) = Inr l"
    using ok t la(1)
    by (auto simp: take_snapshot_def Let_def lift_part_def ok_def err_def is_empty_sentinel_def index_zero_def
        split: sum.splits)
  have inv: "log_inv (log n)" and last: "?b \<le> ml_last_index (log n)" using plain_inv [OF plain] plain la by simp_all
  have l: "log_inv l" "ml_first_index l = Suc ?b" "ml_last_index l = ml_last_index (log n)"
      "\<And>i. ?b < i \<Longrightarrow> ml_entry l i = ml_entry (log n) i"
    using ml_save_snapshot_keeps [OF inv _ last s] by (simp_all add: snapshot_meta_new_def)
  have meta: "ml_snap l = Some \<lparr>snap_meta = snapshot_meta_new ?b ?t (node_membership n), snap_data = bytes\<rparr>"
    using s by (auto simp: ml_save_snapshot_def Let_def split: if_splits option.splits)
  have "ml_term_at l i = ml_term_at (log n) i" if "?b \<le> i" for i
  proof (cases "i = ?b")
    case True
    with t meta la(1) show ?thesis by (simp add: ml_term_at_def is_empty_sentinel_def index_zero_def snapshot_meta_new_def)
  next
    case False
    with that l meta plain la(1) show ?thesis
      by (simp add: ml_term_at_def snapshot_meta_new_def plain_log_def)
  qed
  with n1 l meta show ?thesis by (auto simp: ml_snapshot_meta_def)
qed

text \<open>
  C34: compacting before a change of configuration is committed keeps the change when its entry is
  rolled back. \<^verbatim>\<open>SnapshotMeta\<close> documents the configuration as of the last index it covers, but
  \<^verbatim>\<open>take_snapshot\<close> stores the replica's present configuration, which may come from an entry above
  that index. Take any replica whose log has no change of configuration below an index \<open>i\<close> above its
  applied index, and the append of a later leader that replaces the entry at \<open>i\<close> by another one.
  Without a snapshot the replica falls back to its initial configuration; if it took a snapshot
  before, the same message leaves it in the configuration it had, although its log no longer holds
  any change of configuration.
\<close>

theorem snapshot_keeps_rolled_back_configuration:
  assumes "plain_log (log n)" and "0 < last_applied n" and "last_applied n < i" and "i \<le> length (ml_held (log n))"
    and "no_change_below (log n) i" and "take_snapshot M n = (Inr (), n1)"
    and "env_to e = node_id n" and "node_term n < t"
    and "env_message e = AppendEntries t (i - 1) (term_before (ml_held (log n)) (i - 1)) [x] lc"
    and "le_index x = i" and "le_term x \<noteq> term_before (ml_held (log n)) i" and "\<not> is_config x"
  shows "node_membership (snd (step M e n)) = initial_membership (config n)
    \<and> node_membership (snd (step M e n1)) = node_membership n
    \<and> static_entries (ml_held (log (snd (step M e n1))))"
proof -
  obtain l where n1: "n1 = n\<lparr>log := l\<rparr>" and l: "log_inv l" "ml_first_index l = Suc (last_applied n)"
      "ml_last_index l = ml_last_index (log n)" "\<forall>j > last_applied n. ml_entry l j = ml_entry (log n) j"
      "\<forall>j \<ge> last_applied n. ml_term_at l j = ml_term_at (log n) j"
      "map_option sm_membership (ml_snapshot_meta l) = Some (node_membership n)"
    using first_snapshot_log [OF assms(1,2) _ assms(6)] assms(3,4) by (auto simp: snapshot_meta_new_def)
  have plain: "ml_first_index (log n) \<le> i" "i \<le> ml_last_index (log n)" "ml_snapshot_meta (log n) = None"
      "ml_term_at (log n) i = Some (term_before (ml_held (log n)) i)"
      "ml_term_at (log n) (i - 1) = Some (term_before (ml_held (log n)) (i - 1))"
    using assms(1,3,4) plain_term_at [OF assms(1)] by (simp_all add: plain_log_def ml_snapshot_meta_def)
  have "no_change_below l i"
    using assms(5) l(1,2,4) by (auto simp: no_change_below_def ml_entry_eq [OF l(1)] split: if_splits)
  then have "node_membership (snd (step M e n1)) = node_membership n \<and> static_entries (ml_held (log (snd (step M e n1))))"
    using replace_by_step [of n1 i "term_before (ml_held (log n)) i" x e t "term_before (ml_held (log n)) (i - 1)" lc M]
      assms(3,7-12) n1 l plain(2,4,5) by (auto split: option.splits)
  moreover have "node_membership (snd (step M e n)) = initial_membership (config n)"
    using replace_by_step [of n i "term_before (ml_held (log n)) i" x e t "term_before (ml_held (log n)) (i - 1)" lc M]
      assms(5,7-12) plain_inv [OF assms(1)] plain by auto
  ultimately show ?thesis by blast
qed

text \<open>
  The leader of the run of \<^verbatim>\<open>Raft_Agreement\<close> has committed and applied its first entry and adds a fourth
  voter; a later leader that never saw the change overwrites it.
\<close>

definition storing_machine :: "memory_machine state_machine" where
  "storing_machine = memory_state_machine (\<lambda>_. Inr []) (\<lambda>_. Inl ''unused'')"

definition changing1 :: "memory_machine raft_node" where
  "changing1 = snd (take_messages (snd (propose_membership storing_machine (Add 4) committed1)))"

definition later_noop :: log_entry where
  "later_noop = \<lparr>le_term = 2, le_index = 2, le_payload = Noop\<rparr>"

definition overwriting :: envelope where
  "overwriting = \<lparr>env_from = 3, env_to = 1, env_message = AppendEntries 2 1 1 [later_noop] 1\<rparr>"

lemma changing1_fields:
  "ml_held (log changing1) = [noop_entry, \<lparr>le_term = 1, le_index = 2, le_payload = Config (Membership [1, 2, 3, 4])\<rparr>]"
  "ml_snap (log changing1) = None" "last_applied changing1 = 1" "config changing1 = demo_config 1" "node_term changing1 = 1"
  "node_membership changing1 = Membership [1, 2, 3, 4]"
  by (simp_all add: changing1_def storing_machine_def run_evals insort_insert_key_def)

theorem snapshot_keeps_rolled_back_configuration_witness:
  "\<exists>n1. take_snapshot storing_machine changing1 = (Inr (), n1)
     \<and> node_membership (snd (step storing_machine overwriting changing1)) = Membership [1, 2, 3]
     \<and> node_membership (snd (step storing_machine overwriting n1)) = Membership [1, 2, 3, 4]"
proof -
  note f = changing1_fields
  have plain: "plain_log (log changing1)"
    by (simp add: plain_log_def f numbered_def noop_entry_def u64_max_eq All_less_Suc numeral_2_eq_2)
  have "no_change_below (log changing1) 2"
    using plain_entry [OF plain] by (auto simp: no_change_below_def f noop_entry_def is_config_def split: if_splits)
  moreover obtain n1 where n1: "take_snapshot storing_machine changing1 = (Inr (), n1)"
    using plain_term_at [OF plain, of 1]
    by (auto simp: take_snapshot_def f storing_machine_def memory_state_machine_def mm_snapshot_def lift_part_def
        ml_save_snapshot_def Let_def is_empty_sentinel_def index_zero_def ok_def)
  ultimately show ?thesis
    using snapshot_keeps_rolled_back_configuration [OF plain _ _ _ _ n1, of 2 overwriting 2 later_noop 1]
    by (auto simp: f overwriting_def later_noop_def term_before_def noop_entry_def is_config_def demo_voters_def)
qed

section \<open>The largest term\<close>

text \<open>
  C35: the largest term is not merely the end of elections. The comment on \<^verbatim>\<open>Term::next\<close> says
  that saturating only stops elections. Yet any replica in the largest term, without pre-votes, whose
  election timeout runs out stays in that term, replaces the vote it has given to another replica by
  one for itself, in the log store too, and asks every other voter for a vote of that same term: it
  votes twice in one term.
\<close>

theorem saturated_term_votes_twice:
  assumes "node_role n \<noteq> Leader" and "node_term n = u64_max" and "hs_voted_for (hard n) = Some p" and "p \<noteq> node_id n"
    and "pre_vote (config n) = False" and "node_id n \<in> set (voters (node_membership n))"
    and "\<not> is_quorum (node_membership n) 1" and "randomized_timeout n \<le> Suc (election_elapsed n)" and "election_elapsed n < u64_max"
  shows "\<exists>n'. tick M n = ok () n' \<and> node_role n' = Candidate
    \<and> hard n' = \<lparr>hs_term = u64_max, hs_voted_for = Some (node_id n)\<rparr> \<and> ml_hard (log n') = hard n'
    \<and> outbox n' = outbox n @ map (\<lambda>q. \<lparr>env_from = node_id n, env_to = q,
        env_message = VoteRequest u64_max (ml_last_index (log n)) (ml_last_term (log n))\<rparr>)
        (filter (\<lambda>q. q \<noteq> node_id n) (voters (node_membership n)))"
proof -
  let ?h = "\<lparr>hs_term = u64_max, hs_voted_for = Some (node_id n)\<rparr>"
  let ?ask = "\<lambda>n :: 'a raft_node. VoteRequest u64_max (ml_last_index (log n)) (ml_last_term (log n))"
  let ?c = "reset_election_timer (n\<lparr>ticks := sat_add (ticks n) 1, election_elapsed := Suc (election_elapsed n),
      log := (log n)\<lparr>ml_hard := ?h\<rparr>, hard := ?h, node_role := Candidate, leader := None, votes := [(node_id n, True)]\<rparr>)"
  have "hard n \<noteq> ?h" using assms(3,4) by auto
  then have "tick M n = ok () (fold (\<lambda>q n. send q (?ask n) n) (other_voters ?c) ?c)"
    using assms
    by (simp add: tick_def tick_follower_def Let_def is_leader_def sat_add_def membership_contains_def campaign_def
        save_hard_state_def ml_save_hard_state_def hard_state_new_def term_next_def)
  moreover have "log ?c = (log n)\<lparr>ml_hard := ?h\<rparr>" "ml_last_index (log ?c) = ml_last_index (log n)"
      "ml_last_term (log ?c) = ml_last_term (log n)"
    by (simp_all add: reset_election_timer_def ml_last_index_def ml_last_term_def split: prod.split)
  moreover have "outbox (fold (\<lambda>q n. send q (?ask n) n) qs ?c) = outbox n @ map (\<lambda>q. envelope_new (node_id n) q (?ask ?c)) qs" for qs
    by (subst fold_send_outbox) simp_all
  ultimately show ?thesis
    using fold_send_fields [of ?ask "other_voters ?c" ?c]
    by (simp add: other_voters_def envelope_new_def ok_def)
qed

text \<open>A replica that was asked for its vote in the largest term, gave it, and heard nothing for one tick.\<close>

definition last_request :: envelope where
  "last_request = \<lparr>env_from = 2, env_to = 1, env_message = VoteRequest u64_max 0 0\<rparr>"

definition last_voter :: "memory_machine raft_node" where
  "last_voter = snd (tick demo_machine (snd (take_messages (snd (step demo_machine last_request (demo_node 1))))))"

lemma last_voter_fields:
  "node_role last_voter = Follower" "node_term last_voter = u64_max" "hs_voted_for (hard last_voter) = Some 2"
  "config last_voter = demo_config 1" "node_membership last_voter = demo_voters"
  "randomized_timeout last_voter = 2" "election_elapsed last_voter = 1" "outbox last_voter = []"
  by (simp_all add: last_voter_def last_request_def demo_evals node_evals u64_max_eq)

theorem saturated_term_votes_twice_witness:
  "VoteResponse u64_max True \<in> env_message ` set (outbox (snd (step demo_machine last_request (demo_node 1))))
   \<and> (\<exists>n'. tick demo_machine last_voter = ok () n'
        \<and> hard n' = \<lparr>hs_term = u64_max, hs_voted_for = Some 1\<rparr> \<and> ml_hard (log n') = hard n')"
proof
  show "VoteResponse u64_max True \<in> env_message ` set (outbox (snd (step demo_machine last_request (demo_node 1))))"
    by (simp add: last_request_def demo_evals node_evals u64_max_eq)
  show "\<exists>n'. tick demo_machine last_voter = ok () n'
      \<and> hard n' = \<lparr>hs_term = u64_max, hs_voted_for = Some 1\<rparr> \<and> ml_hard (log n') = hard n'"
    using saturated_term_votes_twice [of last_voter 2 demo_machine]
    by (auto simp: last_voter_fields demo_voters_def is_quorum_def quorum_def membership_len_def u64_max_eq)
qed

end
