(* ===== verification/Raft_Typing.thy ===== *)
theory Raft_Typing
  imports Raft_Plain
begin

text \<open>
  Terms, indices and tick counts are \<^verbatim>\<open>u64\<close> in the code and naturals in the model. No input takes
  any of them out of the range of a \<^verbatim>\<open>u64\<close>, in the state of a replica or in what it sends, so the
  two agree at every step, at the largest values included.
\<close>

section \<open>Values in range\<close>

abbreviation fits :: "nat \<Rightarrow> bool" where
  "fits x \<equiv> x \<le> u64_max"

definition typed_entry :: "log_entry \<Rightarrow> bool" where
  "typed_entry e \<longleftrightarrow> fits (le_term e) \<and> fits (le_index e)"

definition typed_snapshot :: "snapshot \<Rightarrow> bool" where
  "typed_snapshot s \<longleftrightarrow> fits (sm_last_index (snap_meta s)) \<and> fits (sm_last_term (snap_meta s))"

definition typed_log :: "memory_log \<Rightarrow> bool" where
  "typed_log l \<longleftrightarrow> fits (hs_term (ml_hard l)) \<and> (\<forall>e \<in> set (ml_held l). typed_entry e) \<and> (\<forall>s. ml_snap l = Some s \<longrightarrow> typed_snapshot s)"

fun typed_msg :: "raft_message \<Rightarrow> bool" where
  "typed_msg (PreVoteRequest t i u) = (fits t \<and> fits i \<and> fits u)"
| "typed_msg (PreVoteResponse t _) = fits t"
| "typed_msg (VoteRequest t i u) = (fits t \<and> fits i \<and> fits u)"
| "typed_msg (VoteResponse t _) = fits t"
| "typed_msg (AppendEntries t i u es c) = (fits t \<and> fits i \<and> fits u \<and> (\<forall>e \<in> set es. typed_entry e) \<and> fits c)"
| "typed_msg (AppendEntriesResponse t _ i j u) = (fits t \<and> fits i \<and> fits j \<and> fits u)"
| "typed_msg (InstallSnapshot t s) = (fits t \<and> typed_snapshot s)"
| "typed_msg (InstallSnapshotResponse t i) = (fits t \<and> fits i)"
| "typed_msg (TimeoutNow t) = fits t"

definition typed_progress :: "progress \<Rightarrow> bool" where
  "typed_progress p \<longleftrightarrow> fits (next_index p) \<and> fits (match_index p) \<and> fits (last_contact p)"

definition typed :: "'m raft_node \<Rightarrow> bool" where
  "typed n \<longleftrightarrow> fits (node_term n) \<and> typed_log (log n) \<and> fits (commit_index n) \<and> fits (last_applied n)
     \<and> (\<forall>p x. node_progress n p = Some x \<longrightarrow> typed_progress x)
     \<and> fits (election_elapsed n) \<and> fits (heartbeat_elapsed n) \<and> fits (randomized_timeout n) \<and> fits (ticks n)
     \<and> (\<forall>e \<in> set (outbox n). typed_msg (env_message e))
     \<and> (\<forall>i. pending_config n = Some i \<longrightarrow> fits i) \<and> (\<forall>a \<in> set (applied n). fits (ap_index a) \<and> fits (ap_term a))"

lemma fits_small [simp]: "fits 0" "fits (Suc 0)" "fits index_zero" "fits index_first" "fits term_initial"
  by (simp_all add: u64_max_eq index_zero_def index_first_def term_initial_def)

lemma fits_ops [simp]:
  "fits i \<Longrightarrow> fits (index_next i)" "fits i \<Longrightarrow> fits (index_previous i)" "fits i \<Longrightarrow> fits (index_saturating_add i k)" "fits t \<Longrightarrow> fits (term_next t)"
  by (simp_all add: index_next_def index_previous_def index_saturating_add_def term_next_def sat_sub_def)

lemma fits_wrap [simp]: "fits (wrap_add a b)"
proof -
  have "(a + b) mod 2 ^ 64 < (2 :: nat) ^ 64" by (rule mod_less_divisor) simp
  then show ?thesis by (simp add: wrap_add_def u64_max_def)
qed

lemma typedD:
  assumes "typed n"
  shows "fits (node_term n)" "typed_log (log n)" "fits (commit_index n)" "fits (last_applied n)" "node_progress n p = Some x \<Longrightarrow> typed_progress x"
    "fits (election_elapsed n)" "fits (heartbeat_elapsed n)" "fits (ticks n)"
  using assms by (auto simp: typed_def)

lemma typed_reads:
  assumes "typed_log l"
  shows "fits (ml_first_index l)" "fits (ml_last_index l)" "fits (ml_last_term l)" "ml_entry l i = Some e \<Longrightarrow> typed_entry e"
    "ml_term_at l i = Some t \<Longrightarrow> fits t" "ml_entries l i k = Inr es \<Longrightarrow> e \<in> set es \<Longrightarrow> typed_entry e"
proof -
  have held: "e \<in> set (ml_held l) \<Longrightarrow> typed_entry e" for e using assms by (simp add: typed_log_def)
  show "fits (ml_first_index l)" "fits (ml_last_index l)" "fits (ml_last_term l)"
    using assms held [of "last (ml_held l)"] by (auto simp: typed_log_def typed_snapshot_def typed_entry_def ml_first_index_def ml_last_index_def ml_last_term_def split: option.split)
  show entry: "ml_entry l i = Some e \<Longrightarrow> typed_entry e" for i e
    using held by (auto simp: ml_entry_def split: option.splits if_splits)
  show "ml_term_at l i = Some t \<Longrightarrow> fits t"
    using assms entry [of i] by (auto simp: ml_term_at_def typed_log_def typed_snapshot_def typed_entry_def split: option.splits if_splits)
  show "ml_entries l i k = Inr es \<Longrightarrow> e \<in> set es \<Longrightarrow> typed_entry e"
    using held by (auto simp: ml_entries_def Let_def split: option.splits if_splits dest!: in_set_takeD in_set_dropD)
qed

lemma typed_writes:
  "typed_log l \<Longrightarrow> fits (hs_term h) \<Longrightarrow> typed_log (ml_save_hard_state h l)"
  "typed_log l \<Longrightarrow> \<forall>e \<in> set es. typed_entry e \<Longrightarrow> ml_append es l = Inr l' \<Longrightarrow> typed_log l'"
  "typed_log l \<Longrightarrow> ml_truncate_from i l = Inr l' \<Longrightarrow> typed_log l'"
  "typed_log l \<Longrightarrow> typed_snapshot s \<Longrightarrow> ml_save_snapshot s l = Inr l' \<Longrightarrow> typed_log l'"
  "typed_log l \<Longrightarrow> typed_snapshot s \<Longrightarrow> typed_log (ml_install_snapshot s l)"
  by (auto simp: typed_log_def ml_save_hard_state_def ml_append_def ml_truncate_from_def ml_save_snapshot_def ml_install_snapshot_def Let_def
      split: sum.splits option.splits if_splits dest!: in_set_takeD)

section \<open>Updates\<close>

lemma typed_neutral [simp]:
  "typed (n\<lparr>node_role := x1\<rparr>) = typed n" "typed (n\<lparr>leader := x2\<rparr>) = typed n" "typed (n\<lparr>machine := x3\<rparr>) = typed n"
  "typed (n\<lparr>node_membership := x4\<rparr>) = typed n" "typed (n\<lparr>votes := x5\<rparr>) = typed n" "typed (n\<lparr>node_rng := x6\<rparr>) = typed n"
  by (simp_all add: typed_def)

lemma typed_update:
  "typed n \<Longrightarrow> fits i \<Longrightarrow> typed (n\<lparr>commit_index := i\<rparr>)" "typed n \<Longrightarrow> fits i \<Longrightarrow> typed (n\<lparr>last_applied := i\<rparr>)"
  "typed n \<Longrightarrow> fits i \<Longrightarrow> typed (n\<lparr>election_elapsed := i\<rparr>)" "typed n \<Longrightarrow> fits i \<Longrightarrow> typed (n\<lparr>heartbeat_elapsed := i\<rparr>)"
  "typed n \<Longrightarrow> fits i \<Longrightarrow> typed (n\<lparr>randomized_timeout := i\<rparr>)" "typed n \<Longrightarrow> fits i \<Longrightarrow> typed (n\<lparr>ticks := i\<rparr>)"
  "typed n \<Longrightarrow> typed_log l \<Longrightarrow> typed (n\<lparr>log := l\<rparr>)" "typed n \<Longrightarrow> fits (hs_term h) \<Longrightarrow> typed (n\<lparr>hard := h\<rparr>)"
  "typed n \<Longrightarrow> typed (n\<lparr>node_progress := Map.empty\<rparr>)" "typed n \<Longrightarrow> typed (n\<lparr>pending_config := None\<rparr>)"
  "typed n \<Longrightarrow> fits i \<Longrightarrow> typed (n\<lparr>pending_config := Some i\<rparr>)"
  "typed n \<Longrightarrow> node_progress n = g \<Longrightarrow> typed_progress x \<Longrightarrow> typed (n\<lparr>node_progress := g(p \<mapsto> x)\<rparr>)"
  "typed n \<Longrightarrow> applied n = as \<Longrightarrow> fits (ap_index a) \<Longrightarrow> fits (ap_term a) \<Longrightarrow> typed (n\<lparr>applied := as @ [a]\<rparr>)"
  by (auto simp: typed_def)

lemma typed_map: "typed n \<Longrightarrow> (\<And>p x. g p = Some x \<Longrightarrow> typed_progress x) \<Longrightarrow> typed (n\<lparr>node_progress := g\<rparr>)"
  by (auto simp: typed_def)

lemma typed_send: "typed n \<Longrightarrow> typed_msg m \<Longrightarrow> typed (send p m n)"
  by (auto simp: typed_def send_def envelope_new_def)

lemma typed_then_value:
  "typed (snd r) \<Longrightarrow> (\<And>a t. fst r = Inr a \<Longrightarrow> typed t \<Longrightarrow> typed (snd (k a t))) \<Longrightarrow> typed (snd (try_then r k))"
  by (rule try_then_cases [of r k]) auto

lemma typed_try_then: "typed (snd r) \<Longrightarrow> (\<And>a t. typed t \<Longrightarrow> typed (snd (k a t))) \<Longrightarrow> typed (snd (try_then r k))"
  by (rule typed_then_value)

lemma typed_ok: "typed n \<Longrightarrow> typed (snd (ok a n))" "typed n \<Longrightarrow> typed (snd (err e n))"
  by simp_all

lemma typed_lift:
  "typed n \<Longrightarrow> l = log n \<Longrightarrow> \<forall>e \<in> set es. typed_entry e \<Longrightarrow> typed (snd (lift_part (ml_append es l) (\<lambda>l n. n\<lparr>log := l\<rparr>) n))"
  "typed n \<Longrightarrow> l = log n \<Longrightarrow> typed (snd (lift_part (ml_truncate_from i l) (\<lambda>l n. n\<lparr>log := l\<rparr>) n))"
  "typed n \<Longrightarrow> l = log n \<Longrightarrow> typed_snapshot s \<Longrightarrow> typed (snd (lift_part (ml_save_snapshot s l) (\<lambda>l n. n\<lparr>log := l\<rparr>) n))"
  by (auto simp: snd_lift_part split: sum.split intro!: typed_update dest: typedD typed_writes)

lemmas typed_rules = typed_update typed_send typed_try_then typed_ok typed_lift

lemmas typed_values [simp] = typedD(1-4,6-8) typed_reads(1-3) [OF typedD(2)]

lemma typed_found:
  "node_progress n p = Some x \<Longrightarrow> typed n \<Longrightarrow> fits (next_index x) \<and> fits (match_index x) \<and> fits (last_contact x)"
  "ml_entry (log n) i = Some e \<Longrightarrow> typed n \<Longrightarrow> fits (le_term e) \<and> fits (le_index e)"
  "ml_term_at (log n) i = Some t \<Longrightarrow> typed n \<Longrightarrow> fits t"
  "ml_entries (log n) i k = Inr es \<Longrightarrow> typed n \<Longrightarrow> \<forall>e \<in> set es. typed_entry e"
  "ml_snap (log n) = Some s \<Longrightarrow> typed n \<Longrightarrow> typed_snapshot s"
  using typedD(5) [of n p x] typed_reads(4-6) [OF typedD(2), of n] typedD(2) [of n] by (auto simp: typed_progress_def typed_entry_def typed_log_def)

section \<open>Operations\<close>

lemma reset_election_timer_typed: "typed n \<Longrightarrow> typed (reset_election_timer n)"
  by (auto simp: reset_election_timer_def Let_def intro!: typed_rules split: prod.split)

lemma save_hard_state_typed: "typed n \<Longrightarrow> fits t \<Longrightarrow> typed (save_hard_state t v n)"
  by (auto simp: save_hard_state_def Let_def hard_state_new_def intro!: typed_rules typed_writes(1))

lemma become_follower_typed: "typed n \<Longrightarrow> fits t \<Longrightarrow> typed (become_follower t l n)"
  by (auto simp: become_follower_def Let_def intro!: typed_rules reset_election_timer_typed save_hard_state_typed)

lemma note_contact_typed: "typed n \<Longrightarrow> typed (note_contact p n)"
  by (auto simp: note_contact_def typed_progress_def intro!: typed_rules dest!: typed_found split: option.split)

lemma recompute_membership_typed:
  assumes n: "typed n"
  shows "typed (snd (recompute_membership n))"
proof -
  have "fits (le_index e)" if "ml_entries (log n) i k = Inr es" "find is_config (rev es) = Some e" for i k es e
  proof -
    have "e \<in> set es" using that(2) by (metis find_Some_iff nth_mem set_rev)
    then show ?thesis using typed_found(4) [OF that(1) n] by (simp add: typed_entry_def)
  qed
  then show ?thesis
    using n by (auto simp: recompute_membership_def Let_def intro!: typed_rules split: sum.split option.split)
qed

lemma rebuild_progress_typed:
  assumes "\<And>p x. old p = Some x \<Longrightarrow> typed_progress x" and "fits i" and "fits now"
  shows "rebuild_progress old i now vs v = Some x \<Longrightarrow> typed_progress x"
proof (induction vs)
  case (Cons w vs)
  have "typed_progress (progress_new i now)" using assms(2,3) by (simp add: progress_new_def typed_progress_def)
  then show ?case using Cons assms(1) [of w] by (cases "v = w"; cases "old w") auto
qed simp

lemma reset_progress_typed:
  assumes n: "typed n"
  shows "typed (reset_progress n)"
proof -
  define i r where "i = index_next (ml_last_index (log n))" and "r = rebuild_progress (node_progress n) i (ticks n) (voters (node_membership n))"
  have i: "fits i" using n by (simp add: i_def)
  have r: "typed_progress x" if "r v = Some x" for v x
    using rebuild_progress_typed [OF typedD(5) [OF n] i typedD(8) [OF n]] that by (simp add: r_def)
  have own: "typed_progress (own\<lparr>match_index := ml_last_index (log n), next_index := i, last_contact := ticks n\<rparr>)" for own
    using n i by (simp add: typed_progress_def)
  have eq: "reset_progress n = n\<lparr>node_progress := (case r (node_id n) of
      Some own \<Rightarrow> r(node_id n \<mapsto> own\<lparr>match_index := ml_last_index (log n), next_index := i, last_contact := ticks n\<rparr>) | None \<Rightarrow> r)\<rparr>"
    by (simp add: reset_progress_def Let_def i_def r_def split: option.split)
  show ?thesis unfolding eq
  proof (rule typed_map [OF n])
    fix v x assume "(case r (node_id n) of Some own \<Rightarrow>
        r(node_id n \<mapsto> own\<lparr>match_index := ml_last_index (log n), next_index := i, last_contact := ticks n\<rparr>) | None \<Rightarrow> r) v = Some x"
    then show "typed_progress x" using r [of v x] own by (cases "r (node_id n)"; cases "v = node_id n") auto
  qed
qed

lemma take_snapshot_typed: "typed n \<Longrightarrow> typed (snd (take_snapshot M n))"
  by (auto simp: take_snapshot_def Let_def typed_snapshot_def snapshot_meta_new_def intro!: typed_rules dest!: typed_found split: option.split sum.split)

lemma apply_one_typed: "typed n \<Longrightarrow> typed (snd (apply_one M n))"
  by (auto simp: apply_one_def Let_def typed_entry_def intro!: typed_rules dest!: typed_found split: option.split entry_payload.split prod.split sum.split)

lemma apply_committed_typed: "typed n \<Longrightarrow> typed (snd (apply_committed M n))"
proof -
  have loop: "typed n \<Longrightarrow> typed (snd (apply_loop k M n))" for k n
    by (induction k arbitrary: n) (auto intro!: typed_rules apply_one_typed)
  show "typed n \<Longrightarrow> ?thesis"
    unfolding apply_committed_def by (rule typed_try_then [OF loop]) (auto simp: maybe_compact_def Let_def take_snapshot_typed)
qed

lemma send_snapshot_typed: "typed n \<Longrightarrow> typed (send_snapshot p n)"
  by (auto simp: send_snapshot_def Let_def typed_progress_def typed_log_def typed_snapshot_def intro!: typed_rules dest!: typed_found split: option.split)

lemma send_append_typed: "typed n \<Longrightarrow> typed (snd (send_append p n))"
  by (auto simp: send_append_def Let_def typed_progress_def intro!: typed_rules send_snapshot_typed dest!: typed_found split: option.split sum.split)

lemma broadcast_append_typed: "typed n \<Longrightarrow> typed (snd (broadcast_append n))"
proof -
  have "typed n \<Longrightarrow> typed (snd (for_each send_append ps n))" for ps and n :: "'a raft_node"
    by (induction ps arbitrary: n) (auto intro!: typed_rules send_append_typed)
  then show "typed n \<Longrightarrow> ?thesis" by (simp add: broadcast_append_def)
qed

lemma maybe_advance_commit_typed:
  assumes n: "typed n"
  shows "typed (maybe_advance_commit n)"
proof -
  define f where "f = (\<lambda>v. if v = node_id n then ml_last_index (log n) else case node_progress n v of Some p \<Rightarrow> match_index p | None \<Rightarrow> index_zero)"
  have "fits (f v)" for v using n by (auto simp: f_def split: option.split dest!: typed_found)
  then have "k < length (voters (node_membership n)) \<Longrightarrow> fits (rev (sort (map f (voters (node_membership n)))) ! k)" for k
    using nth_mem [of k "rev (sort (map f (voters (node_membership n))))"] by auto
  then show ?thesis
    using n unfolding maybe_advance_commit_def f_def [symmetric] by (auto simp: Let_def intro!: typed_rules split: option.split)
qed

lemma merge_entries_typed: "typed n \<Longrightarrow> \<forall>e \<in> set es. typed_entry e \<Longrightarrow> typed (snd (merge_entries es n))"
  by (auto simp: merge_entries_def Let_def intro!: typed_rules recompute_membership_typed dest: in_set_dropD split: prod.split option.split)

lemmas typed_steps = typed_rules reset_election_timer_typed save_hard_state_typed become_follower_typed note_contact_typed recompute_membership_typed
  reset_progress_typed apply_committed_typed send_append_typed broadcast_append_typed maybe_advance_commit_typed merge_entries_typed

lemma append_local_typed: "typed n \<Longrightarrow> typed (snd (append_local M payload n))"
  by (auto simp: append_local_def Let_def typed_entry_def typed_progress_def entry_new_def intro!: typed_steps dest!: typed_found split: option.split)

lemma try_then_returns: "fst (try_then r k) = Inr i \<Longrightarrow> (\<And>a t. fst (k a t) = Inr i \<Longrightarrow> Q) \<Longrightarrow> Q"
  by (rule try_then_cases [of r k]) (auto simp: err_def)

lemma append_local_index: "fst (append_local M payload n) = Inr i \<Longrightarrow> i = index_next (ml_last_index (log n))"
  by (auto simp: append_local_def Let_def err_def ok_def split: if_splits elim!: try_then_returns)

lemma become_leader_typed: "typed n \<Longrightarrow> typed (snd (become_leader M n))"
  by (auto simp: become_leader_def Let_def intro!: typed_steps append_local_typed)

lemma fold_send_typed: "typed n \<Longrightarrow> (\<And>n. typed n \<Longrightarrow> typed_msg (f n)) \<Longrightarrow> typed (fold (\<lambda>p n. send p (f n) n) ps n)"
  by (induction ps arbitrary: n) (simp_all add: typed_send)

lemma campaign_typed: "typed n \<Longrightarrow> typed (snd (campaign M n))"
  by (auto simp: campaign_def Let_def intro!: typed_steps become_leader_typed fold_send_typed)

lemma campaign_pre_vote_typed: "typed n \<Longrightarrow> typed (snd (campaign_pre_vote M n))"
  by (auto simp: campaign_pre_vote_def Let_def intro!: typed_steps campaign_typed fold_send_typed)

lemma count_vote_typed: "typed n \<Longrightarrow> typed (snd (count_vote M pre p granted n))"
  by (auto simp: count_vote_def Let_def intro!: typed_steps campaign_typed become_leader_typed)

lemma handle_vote_request_typed: "typed n \<Longrightarrow> typed (handle_vote_request p msg n)"
  by (cases msg) (auto simp: Let_def save_hard_state_typed reset_election_timer_typed intro!: typed_steps)

lemma first_index_of_term_fits: "fits i \<Longrightarrow> fits (first_index_of_term l i t)"
  by (induction l i t rule: first_index_of_term.induct) auto

lemma last_index_of_term_fits:
  assumes "last_index_of_term (log n) t = Some i" and "typed n"
  shows "fits i"
proof -
  have "last_index_of_term_from l k t = Some i \<Longrightarrow> i \<le> k" for l k
    by (induction l k t rule: last_index_of_term_from.induct) (fastforce split: if_splits option.splits)+
  then have "i \<le> ml_last_index (log n)" using assms(1) by (simp add: last_index_of_term_def)
  then show ?thesis using typed_values(9) [OF assms(2)] by simp
qed

lemma handle_append_entries_typed:
  assumes n: "typed n" and m: "typed_msg msg"
  shows "typed (snd (handle_append_entries M p msg n))"
proof (cases msg)
  case (AppendEntries t prev u es c)
  define n1 where "n1 = reset_election_timer ((if is_campaigning (node_role n) then become_follower t (Some p) n else n)\<lparr>leader := Some p\<rparr>)"
  have n1: "typed n1" using n m AppendEntries by (simp add: n1_def reset_election_timer_typed become_follower_typed)
  have held: "fits (case ml_term_at (log n1) prev of Some h \<Rightarrow> h | None \<Rightarrow> term_initial)"
    using typed_found(3) [OF _ n1, of prev] by (auto split: option.split)
  have merged: "typed (snd (merge_entries es n1))" using merge_entries_typed [OF n1] m AppendEntries by simp
  show ?thesis
    using n1 held m AppendEntries first_index_of_term_fits
    by (auto simp: n1_def [symmetric] Let_def min_le_iff_disj intro!: typed_try_then [OF merged] typed_steps)
qed (use n in auto)

lemma handle_append_response_typed:
  assumes n: "typed n" and m: "typed_msg msg"
  shows "typed (snd (handle_append_response M p msg n))"
  using assms
  by (cases msg) (auto simp: Let_def typed_progress_def intro!: typed_steps dest!: typed_found last_index_of_term_fits split: option.split)

lemma handle_install_snapshot_typed:
  assumes n: "typed n" and m: "typed_msg msg"
  shows "typed (snd (handle_install_snapshot M p msg n))"
  using assms
  by (cases msg) (auto simp: Let_def typed_snapshot_def reset_election_timer_typed become_follower_typed intro!: typed_steps typed_writes(5) split: prod.split sum.split)

lemma handle_install_snapshot_response_typed:
  assumes n: "typed n" and m: "typed_msg msg"
  shows "typed (snd (handle_install_snapshot_response M p msg n))"
  using assms
  by (cases msg) (auto simp: Let_def typed_progress_def max_def intro!: typed_steps dest!: typed_found split: option.split)

lemma dispatch_typed: "typed n \<Longrightarrow> typed_msg msg \<Longrightarrow> typed (snd (dispatch M p msg n))"
  by (cases msg)
    (auto simp: dispatch_def count_vote_typed handle_vote_request_typed handle_append_entries_typed
      handle_append_response_typed handle_install_snapshot_typed handle_install_snapshot_response_typed campaign_typed
      simp del: handle_vote_request.simps handle_append_entries.simps handle_append_response.simps
        handle_install_snapshot.simps handle_install_snapshot_response.simps)

lemma handle_higher_term_typed: "typed n \<Longrightarrow> fits t \<Longrightarrow> typed (handle_higher_term p msg t n)"
  by (cases "(p, msg, t, n)" rule: handle_higher_term.cases) (auto intro: become_follower_typed)

lemma reject_stale_typed: "typed n \<Longrightarrow> typed (reject_stale p msg n)"
  by (cases "(p, msg, n)" rule: reject_stale.cases) (auto intro!: typed_send)

lemma message_term_fits: "typed_msg msg \<Longrightarrow> fits (message_term msg)"
  by (cases msg) auto

section \<open>Every input\<close>

fun typed_input :: "node_input \<Rightarrow> bool" where
  "typed_input (InStep e) = typed_msg (env_message e)"
| "typed_input _ = True"

lemma tick_typed:
  assumes "typed n"
  shows "typed (snd (tick M n))"
proof -
  have ticks: "typed (snd (tick_leader n))" "typed (snd (tick_follower M n))" if "typed n" for n :: "'a raft_node"
    using that by (auto simp: tick_leader_def tick_follower_def Let_def intro!: typed_steps campaign_typed campaign_pre_vote_typed)
  show ?thesis using assms by (auto simp: tick_def Let_def intro!: ticks typed_update)
qed

text \<open>
  every counter of a replica stays a \<^verbatim>\<open>u64\<close>. Fed with a tick, a message whose fields are \<^verbatim>\<open>u64\<close>
  values, a command or a membership change, a replica whose terms, indices, tick counts, log, queued
  messages and reports are in range is left with all of them in range, also when the input is refused
  and when a counter is at its largest value.
\<close>

lemma counters_stay_u64:
  assumes "typed n" and "typed_input i"
  shows "typed (feed M i n)"
proof (cases i)
  case InTick
  then show ?thesis using tick_typed [OF assms(1)] by simp
next
  case (InStep e)
  then show ?thesis
    using assms message_term_fits [of "env_message e"]
    by (auto simp: step_def Let_def intro!: dispatch_typed handle_higher_term_typed reject_stale_typed)
next
  case (InPropose c)
  then show ?thesis using assms(1) by (simp add: propose_def append_local_typed)
next
  case (InMembership c)
  have "typed (snd (try_then (append_local M (Config m) n) (\<lambda>index n. ok index (n\<lparr>pending_config := Some index\<rparr>))))" for m
    using assms(1) by (auto intro!: typed_then_value append_local_typed typed_update dest!: append_local_index)
  then show ?thesis
    using InMembership assms(1) by (auto simp: propose_membership_def Let_def split: option.split sum.split)
qed

lemma demo_node_typed: "typed (demo_node i)"
  by (simp add: typed_def typed_log_def demo_node_def memory_log_new_def u64_max_eq)

lemma counters_stay_u64_witness:
  "typed (demo_node 1) \<and>
   typed (feed demo_machine (InStep (envelope_new 2 1 (AppendEntries u64_max u64_max u64_max [] u64_max))) (demo_node 1))"
  using counters_stay_u64 [of "demo_node 1" "InStep (envelope_new 2 1 (AppendEntries u64_max u64_max u64_max [] u64_max))" demo_machine]
  by (simp add: demo_node_typed envelope_new_def)

end
