(* ===== verification/Spec2Isabelle.thy ===== *)
theory Spec2Isabelle
  imports Raft_Behaviour Time_Hlc Time_Duration Time_Interval Sched_Mux Sched_Monitor Sched_Wheel Wire_Io Raft_Durability
    Raft_Departures Raft_Typing
begin

text \<open>
  A verification development of \<^verbatim>\<open>astrs\<close>, a dataflow runtime for robots written in Rust. Paths are
  relative to \<^verbatim>\<open>src/crates\<close>.

  \<^bold>\<open>The parts.\<close> A coordinator keeps the state of the system in a log replicated by Raft
  (\<^verbatim>\<open>astrs-raft\<close>), which stores its records with the checksum and the codec adapter of the wire
  protocol (\<^verbatim>\<open>astrs-wire\<close>). Nodes, daemons and the coordinator exchange frames of that protocol over
  byte streams. A node takes its messages from bounded input queues, served by a multiplexer, with
  timers, latency budgets and silence detection beside it (\<^verbatim>\<open>astrs-scheduler\<close>). Messages carry
  timestamps of a hybrid logical clock, and schedules are grids of instants (\<^verbatim>\<open>astrs-time\<close>).

  \<^bold>\<open>Conventions.\<close> A struct is a record and an enum is a datatype, with the names of the source. A
  method that changes its receiver takes and returns it; one that can fail returns
  \<open>('e + 'a) \<times> 's\<close>, so that the state an error leaves behind is part of the model (\<open>try_then\<close> is the
  question mark operator, \<open>for_each\<close> a loop with it). Counters of 64 bits are natural numbers with the
  saturation or wrap-around of the source written out; where bits matter they are words. What the
  operating system, a third-party codec, an application or floating-point arithmetic returns is an
  argument, and what is relied on is a hypothesis. A call under a lock is one step.

  \<^bold>\<open>Theories and sources.\<close>
  \<^item> \<open>Astrs_Prelude\<close>: bounded arithmetic, outcomes, association lists, and the locale \<open>state_preorder\<close>,
    which carries a preorder on states through sequences, loops and early returns.
  \<^item> \<open>Raft_Types\<close>, \<open>Raft_Membership\<close>, \<open>Raft_Log\<close>, \<open>Raft_Message\<close>: \<^verbatim>\<open>astrs-raft/src/types.rs\<close>,
    \<^verbatim>\<open>membership.rs\<close>, \<^verbatim>\<open>log/entry.rs\<close>, \<^verbatim>\<open>log/store.rs\<close>, \<^verbatim>\<open>message.rs\<close>, \<^verbatim>\<open>config.rs\<close>. The locale
    \<open>quorum_system\<close> is what elections need of majorities, \<open>log_store\<close> what a replica needs of its log.
  \<^item> \<open>Raft_Node\<close>: \<^verbatim>\<open>core/mod.rs\<close>, \<^verbatim>\<open>core/election.rs\<close>, \<^verbatim>\<open>core/replication.rs\<close>, \<^verbatim>\<open>core/apply.rs\<close>,
    \<^verbatim>\<open>state_machine.rs\<close>: \<open>tick\<close>, \<open>step\<close>, \<open>propose\<close>, \<open>propose_membership\<close> and everything they call.
  \<^item> \<open>Raft_Frame\<close>, \<open>Raft_Election\<close>, \<open>Raft_Cluster\<close>, \<open>Raft_Safety\<close>: what operations leave alone, the
    election rules of one replica, replicas on an unreliable network as an inductive step relation,
    and election safety. \<open>Raft_Replication\<close>, \<open>Raft_Apply\<close>, \<open>Raft_Invariant\<close>, \<open>Raft_Behaviour\<close>:
    merging, committing, applying on the state machine, the shape of the log, and the branches of the
    handlers. \<open>Raft_Typing\<close>: no counter leaves the range of a \<^verbatim>\<open>u64\<close>.
    \<open>Raft_Example\<close> and \<open>Raft_Scenario\<close> hold the concrete replicas and the concrete run on which the
    theorems are instantiated.
  \<^item> \<open>Raft_Plain\<close>, \<open>Raft_Matching\<close>, \<open>Raft_Completeness\<close>, \<open>Raft_Agreement\<close>: the agreement of replicas
    that do not compact. Every input of such a replica is one of eight moves (\<open>moves\<close>); the history of
    a run records the log of the leader of each term and the log each candidate stood with; the
    invariants over moves and history give log matching, the completeness of leaders and the
    agreement of the machines, over a network that loses, repeats and reorders and with restarts.
    \<open>Raft_Compaction\<close>: with compaction on, the last of these is false, by a run of the code in which
    nothing fails (\<open>unfailing\<close>). \<open>Raft_Departures\<close>: three situations in which a replica does not do what
    the comments say, with the commit index, the configuration of a snapshot and the largest term.
  \<^item> \<open>Raft_Wal\<close>, \<open>Raft_Recovery\<close>, \<open>Raft_Durability\<close>: \<^verbatim>\<open>log/wal.rs\<close> over a disk whose operations may
    fail and whose writes may stop part-way. The log is the in-memory log across restarts, and
    survives a stop in the middle of every call that only appends (what a write has put on the disk stays
    there, so a sync changes only the counters); the failures it does not survive
    are theorems too.
  \<^item> \<open>Rust_Std\<close>: what is used of the standard library (strings, decimal numbers, \<^verbatim>\<open>Duration\<close>, \<^verbatim>\<open>Instant\<close>).
  \<^item> \<open>Time_Hlc\<close>, \<open>Time_Interval\<close>, \<open>Time_Duration\<close>: \<^verbatim>\<open>astrs-time/src\<close>. Timestamps are strictly
    increasing and causal with bounded drift; the locale \<open>monotonic_clock\<close> is the contract of a clock;
    schedules and the text form of durations are exact.
  \<^item> \<open>Wire_Crc\<close>, \<open>Wire_Frame\<close>: \<^verbatim>\<open>astrs-wire/src/crc32c\<close>, \<^verbatim>\<open>frame\<close>, \<^verbatim>\<open>codec.rs\<close>, \<^verbatim>\<open>error.rs\<close>. All kernels
    agree with the bitwise definition; the decoder accepts exactly what the encoder writes; short
    bursts of damage are detected; writing is atomic.
  \<^item> \<open>Wire_Buffer\<close>, \<open>Wire_Io\<close>: \<^verbatim>\<open>io/buffer.rs\<close>, \<^verbatim>\<open>io/sync_io.rs\<close>, \<^verbatim>\<open>messages/mod.rs\<close>. The reassembly
    buffer simulates the list of unconsumed bytes (locale \<open>simulation\<close>); reading terminates, is
    bounded in memory and does not depend on how the bytes arrive (locales \<open>byte_source\<close>,
    \<open>reliable_source\<close>, interpreted for a slice in memory and for a socket that divides and interrupts).
  \<^item> \<open>Wire_Metadata\<close>: \<^verbatim>\<open>ids/name.rs\<close>, \<^verbatim>\<open>metadata\<close>. Names, parameters, correlation, goal states.
  \<^item> \<open>Sched_Queue\<close>, \<open>Sched_Mux\<close>, \<open>Sched_Monitor\<close>, \<open>Sched_Wheel\<close>: \<^verbatim>\<open>astrs-scheduler/src\<close> \<^verbatim>\<open>queue.rs\<close>,
    \<^verbatim>\<open>mux.rs\<close>, \<^verbatim>\<open>deadline.rs\<close>, \<^verbatim>\<open>idle.rs\<close>, \<^verbatim>\<open>timer/wheel.rs\<close>. Queues lose nothing immune and keep the
    order (locale \<open>bounded_buffer\<close>), the multiplexer is fair, silence is reported once per silence,
    and no timer fires late or is counted twice.
  \<^item> This theory: the property that spans metadata and queues.

  \<^bold>\<open>Loops, fuel and bounds.\<close> Loops whose end depends on data are \<open>function\<close>s with a measure: the bytes
  left in the log, the levels left in the wheel. The loop that applies committed entries counts down
  the distance to the commit index, which is how often the code turns. The one loop that may not end, reading from a stream that interrupts for ever, is a
  \<open>partial_function\<close>, and that it ends on every stream with finitely many interruptions is a theorem.
  Terms, indices and timestamps saturate in the code; theorems that fail at the largest value say so
  in a hypothesis, and what happens there is a theorem of its own where it differs from the comments.

  \<^bold>\<open>Not modelled.\<close> Threads, sockets, channels and processes around the modelled parts: the Raft driver
  and transports, the coordinator's and the daemon's sessions, the client libraries, the command line.
  The message families of the wire protocol are data with derived codecs, and the asynchronous reader
  and writer repeat the blocking ones around await points. The kernel for another processor's checksum
  instruction. The quantile estimator and the sampling rates, transforms, kinematics and pixel kernels
  are floating-point arithmetic. Shared memory, the RTPS stack, the CDR codec, the interface compiler,
  recordings, manifests, YAML and the columnar data format are separate components that none of the
  modelled parts calls. Text for display and log output are left out throughout. Of the Raft cluster,
  the safety theorems are for a fixed configuration; changes of configuration are covered by the
  overlap of adjacent majorities. Agreement is for clusters with compaction off, in which no term or
  index has reached its largest value and a restarted machine has applied no more than it had before.
\<close>

section \<open>Properties across components\<close>

text \<open>
  C23: A correlated message is never dropped. The response a node derives from a correlated request,
  after the internal keys have been removed for delivery, stays correlated; once such a message is
  pushed to an input queue, whatever else is pushed and popped, it has been delivered or is still
  queued.
\<close>

theorem correlated_never_dropped:
  assumes "queue_new c p = Inr q" and "is_correlated m"
    and "with_metadata x (follow (stripped m)) \<in> set (pushed es)"
  shows "with_metadata x (follow (stripped m)) \<in>
    set (fst (buffer_run (queue_push is_evict_immune) (queue_pop is_evict_immune) es q)) \<union>
    set (q_items (snd (buffer_run (queue_push is_evict_immune) (queue_pop is_evict_immune) es q)))"
proof -
  have "is_evict_immune (with_metadata x (follow (stripped m)))"
    using assms(2) by (simp add: is_evict_immune_def with_metadata_def is_correlated_follow is_correlated_stripped)
  moreover have "kept is_evict_immune (pushed es)
      (fst (buffer_run (queue_push is_evict_immune) (queue_pop is_evict_immune) es q) @
       q_items (snd (buffer_run (queue_push is_evict_immune) (queue_pop is_evict_immune) es q)))"
    using inq.run_kept [of is_evict_immune q es] queue_new_inv [OF assms(1), of is_evict_immune] by simp
  ultimately show ?thesis
    using assms(3) kept_immune_mem by fastforce
qed

theorem correlated_never_dropped_witness:
  "\<exists>q. queue_new 1 DropOldest = (Inr q :: nat scheduler_error + nat sched_envelope input_queue) \<and>
    with_metadata 7 (follow (stripped (set_goal_id (str ''g'') (metadata_new ts_epoch)))) \<in>
      set (fst (buffer_run (queue_push is_evict_immune) (queue_pop is_evict_immune)
        [PushOp (with_metadata 7 (follow (stripped (set_goal_id (str ''g'') (metadata_new ts_epoch))))),
         PushOp (sched_envelope_new 8)] q)) \<union>
      set (q_items (snd (buffer_run (queue_push is_evict_immune) (queue_pop is_evict_immune)
        [PushOp (with_metadata 7 (follow (stripped (set_goal_id (str ''g'') (metadata_new ts_epoch))))),
         PushOp (sched_envelope_new 8)] q)))"
proof -
  obtain q where q: "queue_new 1 DropOldest = (Inr q :: nat scheduler_error + nat sched_envelope input_queue)"
    by (simp add: queue_new_def)
  have "is_correlated (set_goal_id (str ''g'') (metadata_new ts_epoch))"
    by (simp add: is_correlated_iff set_goal_id_def set_known_def well_known_valid well_known_keys_def correlation_keys_def)
  from correlated_never_dropped [OF q this, of 7 "[PushOp (with_metadata 7 (follow (stripped (set_goal_id (str ''g'') (metadata_new ts_epoch))))),
         PushOp (sched_envelope_new 8)]"] q show ?thesis by auto
qed

end
